(* ===== verification/Prelude.thy ===== *)
theory Prelude
  imports Complex_Main "HOL-Library.Word"
begin

text \<open>
  Shared vocabulary of the sysfail development: the outcomes a C++ operation can have besides
  returning (an exception, a failed assertion, undefined behaviour, a call that never returns),
  the result type that carries them, sequencing of fallible operations, the conversions between
  the integer widths the code uses, and the lemma collections the component proofs share.
\<close>

section \<open>Outcomes of an operation\<close>

text \<open>
  \<open>Throw\<close> is a C++ exception that leaves the operation, \<open>Assert_failed\<close> an \<open>assert\<close> that does
  not hold, \<open>Undefined\<close> undefined behaviour of the language or its library, \<open>Abort\<close> is
  \<open>std::abort\<close>, \<open>Blocked\<close> a wait nothing will end, and \<open>No_return\<close> a system call from
  which control does not come back (\<open>exit\<close>, \<open>rt_sigreturn\<close>).
\<close>

datatype exn =
    Invalid_argument string
  | Runtime_error string
  | Out_of_range string

datatype fault =
    Throw exn
  | Assert_failed string
  | Undefined string
  | Abort
  | Blocked
  | No_return

type_synonym 'a result = "fault + 'a"

fun rbind :: "'a result \<Rightarrow> ('a \<Rightarrow> 'b result) \<Rightarrow> 'b result" where
  "rbind (Inl e) f = Inl e"
| "rbind (Inr x) f = f x"

text \<open>A loop over a list whose body can fail: it stops at the first failure.\<close>

fun rfold :: "('a \<Rightarrow> 's \<Rightarrow> 's result) \<Rightarrow> 'a list \<Rightarrow> 's \<Rightarrow> 's result" where
  "rfold f [] s = Inr s"
| "rfold f (x # xs) s = rbind (f x s) (rfold f xs)"

definition guard :: "bool \<Rightarrow> string \<Rightarrow> unit result" where
  "guard b msg = (if b then Inr () else Inl (Assert_failed msg))"

section \<open>Integer widths\<close>

text \<open>
  The x86-64 ABI of the code: \<open>greg_t\<close>, \<open>long\<close> and \<open>uint64_t\<close> have 64 bits, \<open>int\<close>
  (hence \<open>Syscall\<close>, \<open>Errno\<close>, \<open>Signal\<close>) has 32. Narrowing keeps the low bits, widening an
  \<open>int\<close> extends its sign.
\<close>

type_synonym u64 = "64 word"
type_synonym i32 = "32 word"
type_synonym pid = int

definition to_int :: "u64 \<Rightarrow> i32" where
  "to_int w = ucast w"

definition to_long :: "i32 \<Rightarrow> u64" where
  "to_long i = scast i"

text \<open>The values a 64-bit register can hold that survive a trip through \<open>int\<close>.\<close>

definition fits_int :: "u64 \<Rightarrow> bool" where
  "fits_int w = (to_long (to_int w) = w)"

named_theorems word_conv "conversions between the integer widths"
named_theorems store_laws "laws of the key-value containers"

section \<open>Shared lemmas\<close>

lemma rbind_Inr_conv: "rbind r f = Inr y \<longleftrightarrow> (\<exists>x. r = Inr x \<and> f x = Inr y)"
  by (cases r) auto

lemma rbind_Inl_conv:
  "rbind r f = Inl e \<longleftrightarrow> r = Inl e \<or> (\<exists>x. r = Inr x \<and> f x = Inl e)"
  by (cases r) auto

lemma rbind_cong [fundef_cong]:
  "r = r' \<Longrightarrow> (\<And>x. r' = Inr x \<Longrightarrow> f x = f' x) \<Longrightarrow> rbind r f = rbind r' f'"
  by (cases r') auto

lemma rfold_append: "rfold f (xs @ ys) s = rbind (rfold f xs s) (rfold f ys)"
proof (induction xs arbitrary: s)
  case (Cons x xs)
  then show ?case by (cases "f x s") auto
qed simp

text \<open>
  The invariant rule of a fallible loop: a body that succeeds on states satisfying \<open>I\<close> and
  keeps it makes the whole loop succeed, with \<open>I\<close> at its end.
\<close>

lemma rfold_total:
  assumes "I s" and "\<And>x s. x \<in> set xs \<Longrightarrow> I s \<Longrightarrow> \<exists>s'. f x s = Inr s' \<and> I s'"
  shows "\<exists>s'. rfold f xs s = Inr s' \<and> I s'"
  using assms
proof (induction xs arbitrary: s)
  case (Cons x xs)
  from Cons.prems obtain s1 where s1: "f x s = Inr s1" "I s1"
    by (meson list.set_intros(1))
  from s1(2) have "\<exists>s'. rfold f xs s1 = Inr s' \<and> I s'"
    by (rule Cons.IH) (use Cons.prems(2) in auto)
  with s1(1) show ?case by simp
qed simp

lemma rfold_invariant:
  assumes "rfold f xs s = Inr t" and "I s"
    and "\<And>x s s'. x \<in> set xs \<Longrightarrow> I s \<Longrightarrow> f x s = Inr s' \<Longrightarrow> I s'"
  shows "I t"
  using assms
proof (induction xs arbitrary: s)
  case (Cons x xs)
  from Cons.prems(1) obtain s1 where s1: "f x s = Inr s1" "rfold f xs s1 = Inr t"
    by (auto simp: rbind_Inr_conv)
  have "I s1" using Cons.prems(3) [of x s s1] Cons.prems(2) s1(1) by simp
  with s1(2) show ?case
    by (rule Cons.IH) (use Cons.prems(3) in auto)
qed simp

lemma guard_simps [simp]:
  "guard True m = Inr ()" "guard False m = Inl (Assert_failed m)"
  by (simp_all add: guard_def)

lemma guard_Inr [simp]: "guard b m = Inr u \<longleftrightarrow> b"
  by (simp add: guard_def)

lemma to_int_to_long [simp, word_conv]: "to_int (to_long i) = i"
  unfolding to_int_def to_long_def by (rule bit_word_eqI) (simp add: bit_simps)

lemma fits_int_to_long [simp, word_conv]: "fits_int (to_long i)"
  by (simp add: fits_int_def)

lemma to_long_inject [simp]: "to_long i = to_long j \<longleftrightarrow> i = j"
  by (metis to_int_to_long)

lemma to_long_0 [simp]: "to_long 0 = 0"
  by (simp add: to_long_def)

lemma sint_to_long [word_conv]: "sint (to_long i) = sint i"
proof -
  have "- (2 ^ 31) \<le> sint i" "sint i < 2 ^ 31"
    using sint_range_size [of i] by (simp_all add: word_size)
  then show ?thesis
    by (simp add: to_long_def signed_scast_eq signed_take_bit_int_eq_self)
qed

section \<open>Invariants of step relations\<close>

locale step_inv =
  fixes step :: "'s \<Rightarrow> 's \<Rightarrow> bool"
    and inv :: "'s \<Rightarrow> bool"
  assumes inv_step: "inv s \<Longrightarrow> step s s' \<Longrightarrow> inv s'"
begin

lemma reach_inv: "step\<^sup>*\<^sup>* s s' \<Longrightarrow> inv s \<Longrightarrow> inv s'"
  by (induction rule: rtranclp_induct) (auto intro: inv_step)

end

text \<open>A measure that goes down with every step bounds the length of every run.\<close>

locale step_measure = step_inv +
  fixes left :: "'s \<Rightarrow> nat"
  assumes left_step: "inv s \<Longrightarrow> step s s' \<Longrightarrow> left s' < left s"
begin

lemma run_bound: "(step ^^ n) s s' \<Longrightarrow> inv s \<Longrightarrow> n + left s' \<le> left s \<and> inv s'"
proof (induction n arbitrary: s')
  case (Suc n)
  then obtain t where t: "(step ^^ n) s t" "step t s'" by auto
  with Suc.IH [OF t(1) Suc.prems(2)] left_step [of t s'] inv_step [of t s'] show ?case by auto
qed simp

end

end
