(* ===== verification/Containers.thy ===== *)
theory Containers
  imports Prelude
begin

text \<open>
  The associative containers of the C++ library, as the code uses them.
  \<open>std::unordered_map\<close> and \<open>tbb::concurrent_hash_map\<close> are tables: association lists with
  distinct keys, in the order of insertion (the library leaves the order of iteration open; the
  properties proved about iterations do not depend on it). \<open>std::map\<close> is an association list
  kept sorted by the map's strict order, which is a parameter because the code keys maps by signed
  integers, addresses and doubles. The contracts of the containers are the locales \<open>kv_insert\<close>
  and \<open>kv_store\<close>; what the clients rely on is proved from them once.
\<close>

section \<open>Hash tables\<close>

type_synonym ('k, 'v) table = "('k \<times> 'v) list"

definition tab_find :: "('k, 'v) table \<Rightarrow> 'k \<Rightarrow> 'v option" where
  "tab_find t k = map_of t k"

text \<open>\<open>insert\<close> leaves a table that already has the key as it is.\<close>

definition tab_insert :: "'k \<Rightarrow> 'v \<Rightarrow> ('k, 'v) table \<Rightarrow> ('k, 'v) table" where
  "tab_insert k v t = (if k \<in> fst ` set t then t else t @ [(k, v)])"

text \<open>Writing through the iterator or accessor of an existing entry.\<close>

definition tab_update :: "'k \<Rightarrow> 'v \<Rightarrow> ('k, 'v) table \<Rightarrow> ('k, 'v) table" where
  "tab_update k v t = map (\<lambda>(k', v'). if k' = k then (k', v) else (k', v')) t"

definition tab_erase :: "'k \<Rightarrow> ('k, 'v) table \<Rightarrow> ('k, 'v) table" where
  "tab_erase k t = filter (\<lambda>(k', _). k' \<noteq> k) t"

definition tab_wf :: "('k, 'v) table \<Rightarrow> bool" where
  "tab_wf t = distinct (map fst t)"

section \<open>Ordered maps\<close>

text \<open>\<open>insert\<close> keeps the value of a key that is present; \<open>m[k] = v\<close> replaces it.\<close>

fun omap_insert :: "('k \<Rightarrow> 'k \<Rightarrow> bool) \<Rightarrow> 'k \<Rightarrow> 'v \<Rightarrow> ('k, 'v) table \<Rightarrow> ('k, 'v) table" where
  "omap_insert lt k v [] = [(k, v)]"
| "omap_insert lt k v ((k', v') # t) =
     (if lt k' k then (k', v') # omap_insert lt k v t
      else if lt k k' then (k, v) # (k', v') # t
      else (k', v') # t)"

fun omap_put :: "('k \<Rightarrow> 'k \<Rightarrow> bool) \<Rightarrow> 'k \<Rightarrow> 'v \<Rightarrow> ('k, 'v) table \<Rightarrow> ('k, 'v) table" where
  "omap_put lt k v [] = [(k, v)]"
| "omap_put lt k v ((k', v') # t) =
     (if lt k' k then (k', v') # omap_put lt k v t
      else if lt k k' then (k, v) # (k', v') # t
      else (k', v) # t)"

text \<open>\<open>lower_bound\<close>: the first entry whose key is not less than \<open>k\<close>; \<open>None\<close> is \<open>end()\<close>.\<close>

definition omap_lower_bound ::
    "('k \<Rightarrow> 'k \<Rightarrow> bool) \<Rightarrow> ('k, 'v) table \<Rightarrow> 'k \<Rightarrow> ('k \<times> 'v) option" where
  "omap_lower_bound lt t k = find (\<lambda>(k', _). \<not> lt k' k) t"

definition omap_wf :: "('k \<Rightarrow> 'k \<Rightarrow> bool) \<Rightarrow> ('k, 'v) table \<Rightarrow> bool" where
  "omap_wf lt t = sorted_wrt lt (map fst t)"

text \<open>Signed order on \<open>int\<close> keys and numeric order on addresses.\<close>

definition int_lt :: "i32 \<Rightarrow> i32 \<Rightarrow> bool" where
  "int_lt a b = (sint a < sint b)"

definition addr_lt :: "u64 \<Rightarrow> u64 \<Rightarrow> bool" where
  "addr_lt a b = (a < b)"

section \<open>The contracts\<close>

locale kv_insert =
  fixes look :: "'m \<Rightarrow> 'k \<Rightarrow> 'v option"
    and ins :: "'k \<Rightarrow> 'v \<Rightarrow> 'm \<Rightarrow> 'm"
    and emp :: 'm
    and ok :: "'m \<Rightarrow> bool"
  assumes look_emp: "look emp k = None"
    and look_ins: "ok m \<Longrightarrow>
      look (ins k v m) j = (if j = k \<and> look m k = None then Some v else look m j)"
    and ok_emp: "ok emp"
    and ok_ins: "ok m \<Longrightarrow> ok (ins k v m)"
begin

text \<open>Filling a container with \<open>insert\<close>: the first value given for a key stays.\<close>

lemma ok_fold_ins: "ok m \<Longrightarrow> ok (fold (\<lambda>(k, v). ins k v) kvs m)"
  by (induction kvs arbitrary: m) (auto simp: ok_ins)

lemma look_fold_ins:
  assumes "ok m"
  shows "look (fold (\<lambda>(k, v). ins k v) kvs m) j =
    (case look m j of Some v \<Rightarrow> Some v | None \<Rightarrow> map_of kvs j)"
  using assms
proof (induction kvs arbitrary: m)
  case Nil
  then show ?case by (simp split: option.split)
next
  case (Cons kv kvs)
  obtain k v where kv: "kv = (k, v)" by (cases kv)
  have "look (fold (\<lambda>(k, v). ins k v) kvs (ins k v m)) j =
      (case look (ins k v m) j of Some v \<Rightarrow> Some v | None \<Rightarrow> map_of kvs j)"
    by (rule Cons.IH) (simp add: Cons.prems ok_ins)
  then show ?case
    by (auto simp: kv look_ins Cons.prems split: option.split)
qed

lemma look_fill: "look (fold (\<lambda>(k, v). ins k v) kvs emp) = map_of kvs"
  by (rule ext) (simp add: look_fold_ins ok_emp look_emp)

lemma ins_present: "ok m \<Longrightarrow> look m k = Some v0 \<Longrightarrow> look (ins k v m) = look m"
  by (rule ext) (simp add: look_ins)

end

locale kv_store = kv_insert look ins emp ok
  for look :: "'m \<Rightarrow> 'k \<Rightarrow> 'v option" and ins emp ok +
  fixes upd :: "'k \<Rightarrow> 'v \<Rightarrow> 'm \<Rightarrow> 'm"
    and era :: "'k \<Rightarrow> 'm \<Rightarrow> 'm"
  assumes look_upd: "ok m \<Longrightarrow>
      look (upd k v m) j = (if j = k \<and> look m k \<noteq> None then Some v else look m j)"
    and look_era: "ok m \<Longrightarrow> look (era k m) j = (if j = k then None else look m j)"
    and ok_upd: "ok m \<Longrightarrow> ok (upd k v m)"
    and ok_era: "ok m \<Longrightarrow> ok (era k m)"
begin

lemma ok_fold_era: "ok m \<Longrightarrow> ok (fold era ks m)"
  by (induction ks arbitrary: m) (auto simp: ok_era)

lemma look_fold_era:
  "ok m \<Longrightarrow> look (fold era ks m) j = (if j \<in> set ks then None else look m j)"
  by (induction ks arbitrary: m) (auto simp: ok_era look_era)

lemma era_ins_fresh: "ok m \<Longrightarrow> look m k = None \<Longrightarrow> look (era k (ins k v m)) = look m"
  by (rule ext) (simp add: look_ins look_era ok_ins)

end

text \<open>What the comparison of a \<open>std::map\<close> has in any case, also with keys it cannot compare.\<close>

locale strict_part =
  fixes lt :: "'k \<Rightarrow> 'k \<Rightarrow> bool"
  assumes lt_irrefl: "\<not> lt a a"
    and lt_trans: "lt a b \<Longrightarrow> lt b c \<Longrightarrow> lt a c"
begin

lemma lt_asym: "lt a b \<Longrightarrow> \<not> lt b a"
  using lt_irrefl lt_trans by blast

lemma omap_wf_Cons:
  "omap_wf lt (kv # t) \<longleftrightarrow> (\<forall>k \<in> fst ` set t. lt (fst kv) k) \<and> omap_wf lt t"
  by (simp add: omap_wf_def)

lemma keys_omap_put_sub: "fst ` set (omap_put lt k v t) \<subseteq> insert k (fst ` set t)"
proof (induction t)
  case (Cons kv t)
  then show ?case by (cases kv) (simp, blast)
qed simp

lemma omap_wf_put: "omap_wf lt t \<Longrightarrow> omap_wf lt (omap_put lt k v t)"
proof (induction t)
  case (Cons kv t)
  obtain k' v' where kv: "kv = (k', v')" by (cases kv)
  with Cons.prems have t: "\<forall>j \<in> fst ` set t. lt k' j" "omap_wf lt t" by (simp_all add: omap_wf_Cons)
  have "\<forall>j \<in> fst ` set (omap_put lt k v t). lt k' j" if "lt k' k"
    using t(1) that keys_omap_put_sub [of k v t] by blast
  moreover have "\<forall>j \<in> fst ` set t. lt k j" if "lt k k'" using t(1) lt_trans [OF that] by blast
  ultimately show ?case using t Cons.IH by (simp add: kv omap_wf_Cons)
qed (simp add: omap_wf_def)

text \<open>The later of two assignments to a key counts.\<close>

lemma omap_put_put: "omap_put lt k v' (omap_put lt k v t) = omap_put lt k v' t"
  by (induction t) (auto simp: lt_irrefl)

end

text \<open>Keys that can be compared.\<close>

locale strict_order = strict_part +
  assumes lt_total: "a \<noteq> b \<Longrightarrow> lt a b \<or> lt b a"
begin

lemma keys_omap_insert: "fst ` set (omap_insert lt k v t) = insert k (fst ` set t)"
proof (induction t)
  case (Cons kv t)
  show ?case using Cons lt_total [of k "fst kv"] by (cases kv) auto
qed simp

lemma keys_omap_put: "fst ` set (omap_put lt k v t) = insert k (fst ` set t)"
proof (induction t)
  case (Cons kv t)
  show ?case using Cons lt_total [of k "fst kv"] by (cases kv) auto
qed simp

lemma set_omap_put: "x \<in> set (omap_put lt k v t) \<Longrightarrow> x = (k, v) \<or> x \<in> set t"
proof (induction t)
  case (Cons kv t)
  then show ?case using lt_total [of k "fst kv"] by (cases kv) (auto split: if_splits)
qed simp

lemma omap_wf_insert: "omap_wf lt t \<Longrightarrow> omap_wf lt (omap_insert lt k v t)"
proof (induction t)
  case (Cons kv t)
  show ?case using Cons keys_omap_insert [of k v t] lt_trans
    by (cases kv) (auto simp: omap_wf_Cons)
qed (simp add: omap_wf_def)

lemma less_keys_None: "\<forall>j \<in> fst ` set t. lt k j \<Longrightarrow> map_of t k = None"
  using lt_irrefl by (metis map_of_eq_None_iff)

lemma map_of_omap_insert:
  "omap_wf lt t \<Longrightarrow>
   map_of (omap_insert lt k v t) j = (if j = k \<and> map_of t k = None then Some v else map_of t j)"
proof (induction t)
  case (Cons kv t)
  obtain k' v' where kv: "kv = (k', v')" by (cases kv)
  have sorted: "\<forall>k \<in> fst ` set t. lt k' k" "omap_wf lt t"
    using Cons.prems by (auto simp: omap_wf_Cons kv)
  consider "lt k' k" | "lt k k'" | "k = k'" using lt_total by blast
  then show ?case
  proof cases
    case 1
    then have "k \<noteq> k'" using lt_irrefl by auto
    with 1 show ?thesis using Cons.IH [OF sorted(2)] by (auto simp: kv)
  next
    case 2
    then have "map_of t k = None"
      using sorted lt_trans by (intro less_keys_None) blast
    with 2 show ?thesis using lt_asym [OF 2] lt_irrefl by (auto simp: kv)
  qed (auto simp: kv lt_irrefl)
qed simp

lemma map_of_omap_put:
  "omap_wf lt t \<Longrightarrow> map_of (omap_put lt k v t) = (map_of t)(k \<mapsto> v)"
proof (induction t)
  case (Cons kv t)
  obtain k' v' where kv: "kv = (k', v')" by (cases kv)
  have wf: "omap_wf lt t"
    using Cons.prems by (auto simp: omap_wf_Cons kv)
  consider "lt k' k" | "lt k k'" | "k = k'" using lt_total by blast
  then show ?case
  proof cases
    case 1
    then have "k \<noteq> k'" using lt_irrefl by auto
    with 1 show ?thesis using Cons.IH [OF wf] by (auto simp: kv fun_eq_iff)
  next
    case 2
    then show ?thesis using lt_asym [OF 2] by (auto simp: kv fun_eq_iff)
  qed (auto simp: kv lt_irrefl fun_eq_iff)
qed (simp add: fun_eq_iff)

end

sublocale strict_order < omap: kv_insert map_of "omap_insert lt" "[]" "omap_wf lt"
  by unfold_locales (simp_all add: map_of_omap_insert omap_wf_insert, simp add: omap_wf_def)

section \<open>The containers meet their contracts\<close>

lemma map_of_tab_insert:
  "map_of (tab_insert k v t) j = (if j = k \<and> map_of t k = None then Some v else map_of t j)"
proof (cases "map_of t k")
  case None
  then have "tab_insert k v t = t @ [(k, v)]"
    by (simp add: tab_insert_def map_of_eq_None_iff)
  with None show ?thesis by (cases "map_of t j") (auto simp: map_add_def)
next
  case (Some v0)
  then have "k \<in> fst ` set t" by (metis map_of_eq_None_iff option.distinct(1))
  with Some show ?thesis by (simp add: tab_insert_def)
qed

lemma map_of_tab_update:
  "map_of (tab_update k v t) j = (if j = k \<and> map_of t k \<noteq> None then Some v else map_of t j)"
  unfolding tab_update_def by (induction t) auto

lemma keys_tab_update [simp]: "map fst (tab_update k v t) = map fst t"
  by (auto simp: tab_update_def)

lemma map_of_tab_erase: "map_of (tab_erase k t) j = (if j = k then None else map_of t j)"
  unfolding tab_erase_def by (induction t) auto

lemma keys_tab_erase [simp]: "fst ` set (tab_erase k t) = fst ` set t - {k}"
  by (force simp: tab_erase_def)

interpretation tab: kv_store tab_find tab_insert "[]" tab_wf tab_update tab_erase
proof unfold_locales
  fix m :: "('a, 'b) table" and k j v
  show "tab_find (tab_insert k v m) j
      = (if j = k \<and> tab_find m k = None then Some v else tab_find m j)"
    by (simp add: tab_find_def map_of_tab_insert)
  show "tab_wf m \<Longrightarrow> tab_wf (tab_insert k v m)"
    by (auto simp: tab_wf_def tab_insert_def)
  show "tab_wf m \<Longrightarrow> tab_wf (tab_erase k m)"
    unfolding tab_wf_def tab_erase_def by (rule distinct_map_filter)
qed (simp_all add: tab_find_def tab_wf_def map_of_tab_update map_of_tab_erase)

lemmas tab_laws [store_laws] =
  tab.look_ins tab.look_upd tab.look_era tab.ok_ins tab.ok_upd tab.ok_era tab.look_emp tab.ok_emp

lemma tab_find_None: "tab_find t k = None \<longleftrightarrow> k \<notin> fst ` set t"
  by (simp add: tab_find_def map_of_eq_None_iff)

lemma tab_find_set: "tab_wf t \<Longrightarrow> tab_find t k = Some v \<longleftrightarrow> (k, v) \<in> set t"
  by (simp add: tab_find_def tab_wf_def)

interpretation int_key: strict_order int_lt
  by unfold_locales (auto simp: int_lt_def, meson linorder_neqE signed_word_eqI)

interpretation addr_key: strict_order addr_lt
  by unfold_locales (auto simp: addr_lt_def)

section \<open>Lower bound and appending\<close>

lemma omap_put_last:
  "\<forall>k' \<in> fst ` set t. lt k' k \<Longrightarrow> omap_put lt k v t = t @ [(k, v)]"
  by (induction t) auto

lemma omap_lower_bound_None:
  "omap_lower_bound lt t k = None \<longleftrightarrow> (\<forall>k' \<in> fst ` set t. lt k' k)"
  by (auto simp: omap_lower_bound_def find_None_iff)

lemma omap_lower_bound_in:
  "omap_lower_bound lt t k = Some (k', v) \<Longrightarrow> (k', v) \<in> set t \<and> \<not> lt k' k"
  by (auto simp: omap_lower_bound_def find_Some_iff in_set_conv_nth)

lemma omap_lower_bound_append:
  "omap_lower_bound lt (t1 @ t2) k =
    (case omap_lower_bound lt t1 k of Some e \<Rightarrow> Some e | None \<Rightarrow> omap_lower_bound lt t2 k)"
  unfolding omap_lower_bound_def by (induction t1) auto

section \<open>Tables, entry by entry\<close>

lemma tab_find_insert:
  "tab_find (tab_insert k v t) j = (if j = k \<and> tab_find t k = None then Some v else tab_find t j)"
  by (simp add: tab_find_def map_of_tab_insert)

lemma tab_find_update:
  "tab_find (tab_update k v t) j = (if j = k \<and> tab_find t k \<noteq> None then Some v else tab_find t j)"
  by (simp add: tab_find_def map_of_tab_update)

lemma tab_find_erase: "tab_find (tab_erase k t) j = (if j = k then None else tab_find t j)"
  by (simp add: tab_find_def map_of_tab_erase)

lemmas tab_find_simps [simp] = tab_find_insert tab_find_update tab_find_erase

lemma tab_find_Nil [simp]: "tab_find [] k = None"
  by (simp add: tab_find_def)

lemma tab_update_insert: "tab_find t k = None \<Longrightarrow> tab_update k v' (tab_insert k v t) = tab_insert k v' t"
  by (auto simp: tab_update_def tab_insert_def tab_find_None intro!: map_idI; force)

lemma tab_update_update [simp]: "tab_update k v (tab_update k v' t) = tab_update k v t"
  by (auto simp: tab_update_def)

lemma tab_erase_update [simp]: "tab_erase k (tab_update k v t) = tab_erase k t"
  unfolding tab_update_def tab_erase_def by (induction t) auto

lemma tab_erase_insert: "tab_find t k = None \<Longrightarrow> tab_erase k (tab_insert k v t) = t"
  by (auto simp: tab_erase_def tab_insert_def tab_find_None filter_id_conv
      dest: image_eqI [of _ fst, rotated])

lemma keys_tab_insert [simp]: "fst ` set (tab_insert k v t) = insert k (fst ` set t)"
  by (auto simp: tab_insert_def)

lemma tab_wf_simps [simp]:
  "tab_wf t \<Longrightarrow> tab_wf (tab_insert k v t)" "tab_wf t \<Longrightarrow> tab_wf (tab_erase k t)"
  "tab_wf (tab_update k v t) \<longleftrightarrow> tab_wf t" "tab_wf []"
  by (simp_all add: tab.ok_ins tab.ok_era) (simp_all add: tab_wf_def)

end
