(* ===== verification/Doubles.thy ===== *)
theory Doubles
  imports Prelude
begin

text \<open>
  The C++ \<open>double\<close> as the code uses it: comparison, addition and conversion to \<open>bool\<close>.
  A finite double is a rational number; the two infinities and not-a-number are values of their
  own, because the code's range checks treat not-a-number in a way of its own. The rounding of an
  inexact sum, and its overflow to an infinity, is a parameter \<open>rnd\<close>, the exact sum being its
  argument. The two zeros are one value: no operation the code uses tells them apart.
\<close>

datatype dbl = NaN | MInf | Fin rat | PInf

type_synonym rounding = "rat \<Rightarrow> dbl"

text \<open>The operator \<open><\<close>: false whenever an operand is not-a-number.\<close>

fun dlt :: "dbl \<Rightarrow> dbl \<Rightarrow> bool" where
  "dlt (Fin a) (Fin b) = (a < b)"
| "dlt (Fin a) PInf = True"
| "dlt MInf (Fin b) = True"
| "dlt MInf PInf = True"
| "dlt _ _ = False"

fun dadd :: "rounding \<Rightarrow> dbl \<Rightarrow> dbl \<Rightarrow> dbl" where
  "dadd rnd (Fin a) (Fin b) = rnd (a + b)"
| "dadd rnd NaN b = NaN"
| "dadd rnd a NaN = NaN"
| "dadd rnd PInf MInf = NaN"
| "dadd rnd MInf PInf = NaN"
| "dadd rnd PInf b = PInf"
| "dadd rnd a PInf = PInf"
| "dadd rnd MInf b = MInf"
| "dadd rnd a MInf = MInf"

text \<open>A double in a condition: everything but zero is true, not-a-number included.\<close>

definition dtrue :: "dbl \<Rightarrow> bool" where
  "dtrue d = (d \<noteq> Fin 0)"

text \<open>The number lies in the closed unit interval.\<close>

definition in_unit :: "dbl \<Rightarrow> bool" where
  "in_unit d = (\<exists>r. d = Fin r \<and> 0 \<le> r \<and> r \<le> 1)"

lemma dlt_irrefl [simp]: "\<not> dlt a a"
  by (cases a) auto

lemma dlt_trans: "dlt a b \<Longrightarrow> dlt b c \<Longrightarrow> dlt a c"
  by (cases a; cases b; cases c) auto

lemma dlt_NaN [simp]: "\<not> dlt NaN a" "\<not> dlt a NaN"
  by (cases a; simp)+

lemma dlt_total: "a \<noteq> NaN \<Longrightarrow> b \<noteq> NaN \<Longrightarrow> a \<noteq> b \<Longrightarrow> dlt a b \<or> dlt b a"
  by (cases a; cases b) auto

lemma in_unit_iff: "in_unit d \<longleftrightarrow> d \<noteq> NaN \<and> \<not> dlt d (Fin 0) \<and> \<not> dlt (Fin 1) d"
  by (cases d) (auto simp: in_unit_def)

end
