(* ===== verification/Registers.thy ===== *)
theory Registers
  imports Prelude
begin

text \<open>
  The saved register file of an interrupted thread (\<open>gregset_t\<close> of \<open>ucontext.h\<close>, as
  \<open>restore.S\<close> lists it) and the interface to the kernel: a system call is a request with the
  register values the kernel sees, and the environment answers it from everything that happened
  before. The answer \<open>None\<close> is a call that does not come back to its caller.
\<close>

datatype greg =
    REG_R8 | REG_R9 | REG_R10 | REG_R11 | REG_R12 | REG_R13 | REG_R14 | REG_R15
  | REG_RDI | REG_RSI | REG_RBP | REG_RBX | REG_RDX | REG_RAX | REG_RCX | REG_RSP
  | REG_RIP | REG_EFL | REG_CSGSFS | REG_ERR | REG_TRAPNO | REG_OLDMASK

type_synonym gregs = "greg \<Rightarrow> u64"

text \<open>The position of a register in the array, which \<open>restore.S\<close> turns into byte offsets.\<close>

primrec greg_index :: "greg \<Rightarrow> nat" where
  "greg_index REG_R8 = 0"
| "greg_index REG_R9 = 1"
| "greg_index REG_R10 = 2"
| "greg_index REG_R11 = 3"
| "greg_index REG_R12 = 4"
| "greg_index REG_R13 = 5"
| "greg_index REG_R14 = 6"
| "greg_index REG_R15 = 7"
| "greg_index REG_RDI = 8"
| "greg_index REG_RSI = 9"
| "greg_index REG_RBP = 10"
| "greg_index REG_RBX = 11"
| "greg_index REG_RDX = 12"
| "greg_index REG_RAX = 13"
| "greg_index REG_RCX = 14"
| "greg_index REG_RSP = 15"
| "greg_index REG_RIP = 16"
| "greg_index REG_EFL = 17"
| "greg_index REG_CSGSFS = 18"
| "greg_index REG_ERR = 19"
| "greg_index REG_TRAPNO = 20"
| "greg_index REG_OLDMASK = 21"

section \<open>The kernel's side of a system call\<close>

text \<open>
  What the \<open>syscall\<close> instruction presents: the number in \<open>rax\<close>, the six arguments, and
  the stack pointer when the code replaced it.
\<close>

record kreq =
  k_rax :: u64
  k_rdi :: u64
  k_rsi :: u64
  k_rdx :: u64
  k_r10 :: u64
  k_r8 :: u64
  k_r9 :: u64
  k_rsp :: "u64 option"

text \<open>
  What a thread does that its environment can see: the system calls that are made for the program,
  sleeps in microseconds, and the calls the library makes for itself while it handles one: those of
  the C library that ask for ids, and \<open>rt_tgsigqueueinfo\<close> with the thread and the signal.
\<close>

datatype libc_fn = Gettid | Getpid | Getuid

datatype eff = Sys kreq | Sleep int | Libc libc_fn | Queue int int

type_synonym trace = "eff list"

type_synonym kernel = "trace \<Rightarrow> kreq \<Rightarrow> u64 option"

text \<open>The system calls made for the program, the time slept, and the library's own calls.\<close>

fun sys_calls :: "trace \<Rightarrow> kreq list" where
  "sys_calls [] = []"
| "sys_calls (Sys r # tr) = r # sys_calls tr"
| "sys_calls (Sleep d # tr) = sys_calls tr"
| "sys_calls (Libc f # tr) = sys_calls tr"
| "sys_calls (Queue tid sig # tr) = sys_calls tr"

fun slept :: "trace \<Rightarrow> int" where
  "slept [] = 0"
| "slept (Sys r # tr) = slept tr"
| "slept (Sleep d # tr) = d + slept tr"
| "slept (Libc f # tr) = slept tr"
| "slept (Queue tid sig # tr) = slept tr"

fun own_calls :: "trace \<Rightarrow> eff list" where
  "own_calls [] = []"
| "own_calls (Sys r # tr) = own_calls tr"
| "own_calls (Sleep d # tr) = own_calls tr"
| "own_calls (Libc f # tr) = Libc f # own_calls tr"
| "own_calls (Queue tid sig # tr) = Queue tid sig # own_calls tr"

lemma sys_calls_append [simp]: "sys_calls (a @ b) = sys_calls a @ sys_calls b"
  by (induction a rule: sys_calls.induct) auto

lemma own_calls_append [simp]: "own_calls (a @ b) = own_calls a @ own_calls b"
  by (induction a rule: own_calls.induct) auto

lemma slept_append [simp]: "slept (a @ b) = slept a + slept b"
  by (induction a rule: slept.induct) auto

lemma greg_index_bound: "greg_index r < 22"
  by (cases r) simp_all

lemma greg_index_inject: "greg_index r = greg_index r' \<longleftrightarrow> r = r'"
  by (cases r; cases r') simp_all

text \<open>Registers in the order of the array.\<close>

instantiation greg :: linorder
begin

definition less_eq_greg :: "greg \<Rightarrow> greg \<Rightarrow> bool" where
  "less_eq_greg r r' = (greg_index r \<le> greg_index r')"

definition less_greg :: "greg \<Rightarrow> greg \<Rightarrow> bool" where
  "less_greg r r' = (greg_index r < greg_index r')"

instance
  by standard (auto simp: less_eq_greg_def less_greg_def greg_index_inject)

end

lemma le_REG_RIP [simp]: "r \<le> REG_RIP \<longleftrightarrow> greg_index r \<le> 16"
  by (simp add: less_eq_greg_def)

end
