(* ===== verification/Inv_Pred.thy ===== *)
theory Inv_Pred
  imports Registers
begin

text \<open>
  \<open>src/inv_pred.cc\<close>: invocation predicates. A predicate on the arguments of a system call, of
  one of seven arities, becomes a predicate on the saved registers.
\<close>

type_synonym inv_pred = "gregs \<Rightarrow> bool"

text \<open>The variant \<open>invp::P\<close> of \<open>include/sysfail.hh\<close>, one alternative per arity.\<close>

datatype P =
    Zero_p "i32 \<Rightarrow> bool"
  | One_p "i32 \<Rightarrow> u64 \<Rightarrow> bool"
  | Two_p "i32 \<Rightarrow> u64 \<Rightarrow> u64 \<Rightarrow> bool"
  | Three_p "i32 \<Rightarrow> u64 \<Rightarrow> u64 \<Rightarrow> u64 \<Rightarrow> bool"
  | Four_p "i32 \<Rightarrow> u64 \<Rightarrow> u64 \<Rightarrow> u64 \<Rightarrow> u64 \<Rightarrow> bool"
  | Five_p "i32 \<Rightarrow> u64 \<Rightarrow> u64 \<Rightarrow> u64 \<Rightarrow> u64 \<Rightarrow> u64 \<Rightarrow> bool"
  | Six_p "i32 \<Rightarrow> u64 \<Rightarrow> u64 \<Rightarrow> u64 \<Rightarrow> u64 \<Rightarrow> u64 \<Rightarrow> u64 \<Rightarrow> bool"

definition inv_s :: "gregs \<Rightarrow> i32" where
  "inv_s regs = to_int (regs REG_RAX)"

definition inv_a1 :: "gregs \<Rightarrow> u64" where
  "inv_a1 regs = regs REG_RDI"

definition inv_a2 :: "gregs \<Rightarrow> u64" where
  "inv_a2 regs = regs REG_RSI"

definition inv_a3 :: "gregs \<Rightarrow> u64" where
  "inv_a3 regs = regs REG_RDX"

definition inv_a4 :: "gregs \<Rightarrow> u64" where
  "inv_a4 regs = regs REG_R10"

definition inv_a5 :: "gregs \<Rightarrow> u64" where
  "inv_a5 regs = regs REG_R8"

definition inv_a6 :: "gregs \<Rightarrow> u64" where
  "inv_a6 regs = regs REG_R9"

lemmas inv_args = inv_s_def inv_a1_def inv_a2_def inv_a3_def inv_a4_def inv_a5_def inv_a6_def

fun inv_p :: "P \<Rightarrow> inv_pred" where
  "inv_p (Zero_p f) r = f (inv_s r)"
| "inv_p (One_p f) r = f (inv_s r) (inv_a1 r)"
| "inv_p (Two_p f) r = f (inv_s r) (inv_a1 r) (inv_a2 r)"
| "inv_p (Three_p f) r = f (inv_s r) (inv_a1 r) (inv_a2 r) (inv_a3 r)"
| "inv_p (Four_p f) r = f (inv_s r) (inv_a1 r) (inv_a2 r) (inv_a3 r) (inv_a4 r)"
| "inv_p (Five_p f) r = f (inv_s r) (inv_a1 r) (inv_a2 r) (inv_a3 r) (inv_a4 r) (inv_a5 r)"
| "inv_p (Six_p f) r =
     f (inv_s r) (inv_a1 r) (inv_a2 r) (inv_a3 r) (inv_a4 r) (inv_a5 r) (inv_a6 r)"

text \<open>The registers a predicate can depend on.\<close>

definition syscall_regs :: "greg set" where
  "syscall_regs = {REG_RAX, REG_RDI, REG_RSI, REG_RDX, REG_R10, REG_R8, REG_R9}"

lemma inv_p_cong:
  "(\<And>x. x \<in> syscall_regs \<Longrightarrow> r x = r' x) \<Longrightarrow> inv_p q r = inv_p q r'"
  by (cases q) (simp_all add: inv_args syscall_regs_def)

end
