(* ===== verification/Plan.thy ===== *)
theory Plan
  imports Containers Doubles Inv_Pred
begin

text \<open>
  The user's plan, \<open>include/sysfail.hh\<close>: probabilities with their range check, outcomes,
  thread-discovery strategies and the plan. Durations are the signed 64-bit microsecond counts of
  \<open>std::chrono::microseconds\<close>.
\<close>

record probability =
  pr_p :: dbl
  pr_after_bias :: dbl

definition Probability :: "dbl \<Rightarrow> dbl \<Rightarrow> probability result" where
  "Probability p after_bias =
     (if dlt p (Fin 0) \<or> dlt (Fin 1) p
      then Inl (Throw (Invalid_argument ''Probability must be in [0, 1]''))
      else if dlt after_bias (Fin 0) \<or> dlt (Fin 1) after_bias
      then Inl (Throw (Invalid_argument ''Bias must be in [0, 1]''))
      else Inr \<lparr>pr_p = p, pr_after_bias = after_bias\<rparr>)"

record outcome =
  o_fail :: probability
  o_delay :: probability
  o_max_delay :: u64
  o_error_weights :: "(i32, dbl) table"
  o_eligible :: "inv_pred option"

datatype strategy = ProcPoll u64 | NoDiscovery

text \<open>\<open>ProcPoll\<close> without an argument polls every ten milliseconds.\<close>

definition ProcPoll_default :: strategy where
  "ProcPoll_default = ProcPoll 10000"

record plan =
  pl_outcomes :: "(i32, outcome) table"
  pl_selector :: "pid \<Rightarrow> bool"
  pl_thd_disc :: strategy

text \<open>The plan that injects nothing.\<close>

definition Plan_default :: plan where
  "Plan_default = \<lparr>pl_outcomes = [], pl_selector = (\<lambda>_. False), pl_thd_disc = NoDiscovery\<rparr>"

text \<open>A probability and a bias from 0 to 1, or not-a-number.\<close>

definition unit_or_nan :: "dbl \<Rightarrow> bool" where
  "unit_or_nan x = (case x of NaN \<Rightarrow> True | Fin q \<Rightarrow> 0 \<le> q \<and> q \<le> 1 | _ \<Rightarrow> False)"

definition prob_ok :: "probability \<Rightarrow> bool" where
  "prob_ok q = (unit_or_nan (pr_p q) \<and> unit_or_nan (pr_after_bias q))"

lemma unit_or_nan_dlt: "unit_or_nan x \<longleftrightarrow> \<not> dlt x (Fin 0) \<and> \<not> dlt (Fin 1) x"
  by (cases x) (auto simp: unit_or_nan_def)

text \<open>
  The range check of a probability accepts the numbers from 0 to 1, both for the probability and
  for its bias, and beside them not-a-number.
\<close>

lemma Probability_accepts:
  "(\<exists>q. Probability p b = Inr q) \<longleftrightarrow> (p = NaN \<or> in_unit p) \<and> (b = NaN \<or> in_unit b)"
  by (auto simp: Probability_def in_unit_iff)

end
