(* ===== verification/Active_Plan.thy ===== *)
theory Active_Plan
  imports Plan
begin

text \<open>
  \<open>ActiveOutcome\<close> and \<open>ActivePlan\<close> of \<open>src/session.hh\<close> and \<open>src/session.cc\<close>: the plan
  as the signal handler reads it. The weighted errors become a map from cumulative weight to
  error, in which a uniform draw is looked up with \<open>lower_bound\<close>.
\<close>

record active_outcome =
  ao_fail :: probability
  ao_delay :: probability
  ao_max_delay :: u64
  ao_errors :: "(dbl, i32) table"
  ao_check :: "inv_pred option"

text \<open>The loop of the constructor: running sum and map, in the order of the error numbers.\<close>

fun cumulate :: "rounding \<Rightarrow> dbl \<Rightarrow> (i32, dbl) table \<Rightarrow> (dbl, i32) table \<Rightarrow> (dbl, i32) table" where
  "cumulate rnd cumulative [] m = m"
| "cumulate rnd cumulative ((err_no, weight) # ws) m =
     (let cumulative = dadd rnd cumulative weight
      in cumulate rnd cumulative ws (omap_put dlt cumulative err_no m))"

definition ActiveOutcome :: "rounding \<Rightarrow> outcome \<Rightarrow> active_outcome" where
  "ActiveOutcome rnd ou =
     \<lparr>ao_fail = o_fail ou, ao_delay = o_delay ou, ao_max_delay = o_max_delay ou,
      ao_errors = cumulate rnd (Fin 0) (o_error_weights ou) [],
      ao_check = o_eligible ou\<rparr>"

definition eligible :: "active_outcome \<Rightarrow> gregs \<Rightarrow> bool" where
  "eligible ou regs = (case ao_check ou of None \<Rightarrow> True | Some check \<Rightarrow> check regs)"

record active_plan =
  ap_p :: plan
  ap_outcomes :: "(i32, active_outcome) table"

definition ActivePlan :: "rounding \<Rightarrow> plan \<Rightarrow> active_plan" where
  "ActivePlan rnd p =
     \<lparr>ap_p = p,
      ap_outcomes = fold (\<lambda>(call, ou). tab_insert call ou)
        (map (\<lambda>(call, ou). (call, ActiveOutcome rnd ou)) (pl_outcomes p)) []\<rparr>"

section \<open>The cumulative map\<close>

text \<open>The running sums of the weights.\<close>

fun cum_sums :: "rounding \<Rightarrow> dbl \<Rightarrow> (i32, dbl) table \<Rightarrow> dbl list" where
  "cum_sums rnd c [] = []"
| "cum_sums rnd c ((_, w) # ws) = (let c' = dadd rnd c w in c' # cum_sums rnd c' ws)"

lemma length_cum_sums [simp]: "length (cum_sums rnd c ws) = length ws"
  by (induction rnd c ws rule: cum_sums.induct) (auto simp: Let_def)

text \<open>Sums that keep growing are stored one after the other, each with its error.\<close>

lemma cumulate_increasing:
  assumes "sorted_wrt dlt (map fst m @ cum_sums rnd c ws)"
  shows "cumulate rnd c ws m = m @ zip (cum_sums rnd c ws) (map fst ws)"
  using assms
proof (induction rnd c ws m rule: cumulate.induct)
  case (2 rnd c e w ws m)
  let ?c = "dadd rnd c w"
  have "omap_put dlt ?c e m = m @ [(?c, e)]"
    using 2(2) by (intro omap_put_last) (auto simp: sorted_wrt_append Let_def)
  with 2 show ?case by (simp add: Let_def)
qed simp

interpretation dbl_key: strict_part dlt
  by unfold_locales (auto intro: dlt_trans)

lemma cumulate_wf: "omap_wf dlt m \<Longrightarrow> omap_wf dlt (cumulate rnd c ws m)"
  by (induction rnd c ws m rule: cumulate.induct) (simp_all add: Let_def dbl_key.omap_wf_put)

text \<open>The sum after a list of weights.\<close>

definition cum_sum :: "rounding \<Rightarrow> dbl \<Rightarrow> (i32, dbl) table \<Rightarrow> dbl" where
  "cum_sum rnd c ws = foldl (\<lambda>c (_, w). dadd rnd c w) c ws"

lemma cumulate_append:
  "cumulate rnd c (pre @ ws) m = cumulate rnd (cum_sum rnd c pre) ws (cumulate rnd c pre m)"
  by (induction rnd c pre m rule: cumulate.induct) (simp_all add: cum_sum_def Let_def)

lemma cumulate_errors: "snd ` set (cumulate rnd c ws m) \<subseteq> snd ` set m \<union> fst ` set ws"
proof (induction rnd c ws m rule: cumulate.induct)
  case (2 rnd c e w ws m)
  have put: "x \<in> snd ` set (omap_put dlt k v t) \<Longrightarrow> x \<in> insert v (snd ` set t)"
    for x k v and t :: "(dbl, i32) table"
    by (induction t) (force split: if_splits)+
  from 2 put [of _ "dadd rnd c w" e m] show ?case by (auto simp: Let_def)
qed simp

lemma ao_errors_subset:
  "snd ` set (ao_errors (ActiveOutcome rnd ou)) \<subseteq> fst ` set (o_error_weights ou)"
  using cumulate_errors [of rnd "Fin 0" "o_error_weights ou" "[]"]
  by (simp add: ActiveOutcome_def)

section \<open>Exact sums\<close>

text \<open>Weights that are positive numbers, and their sum.\<close>

definition pos_weights :: "(i32, dbl) table \<Rightarrow> bool" where
  "pos_weights ws = (\<forall>(e, w) \<in> set ws. \<exists>r > 0. w = Fin r)"

fun num :: "dbl \<Rightarrow> rat" where
  "num (Fin r) = r"
| "num _ = 0"

definition total :: "(i32, dbl) table \<Rightarrow> rat" where
  "total ws = sum_list (map (num \<circ> snd) ws)"

lemma total_simps [simp]:
  "total [] = 0" "total ((e, w) # ws) = num w + total ws" "total (a @ b) = total a + total b"
  by (simp_all add: total_def)

lemma pos_weights_simps [simp]:
  "pos_weights []"
  "pos_weights ((e, w) # ws) \<longleftrightarrow> (\<exists>r > 0. w = Fin r) \<and> pos_weights ws"
  "pos_weights (a @ b) \<longleftrightarrow> pos_weights a \<and> pos_weights b"
  unfolding pos_weights_def set_append ball_Un by auto

lemma pos_weights_Fin: "pos_weights ((e, Fin r) # ws) \<longleftrightarrow> 0 < r \<and> pos_weights ws"
  by simp

lemma total_nonneg: "pos_weights ws \<Longrightarrow> 0 \<le> total ws"
  by (induction ws) (auto simp: total_def pos_weights_def)

lemma cum_sums_exact_bound:
  "pos_weights ws \<Longrightarrow> s \<in> set (cum_sums Fin (Fin c) ws) \<Longrightarrow> \<exists>r. s = Fin r \<and> c < r"
proof (induction ws arbitrary: c)
  case (Cons ew ws)
  obtain e w where ew: "ew = (e, Fin w)" "0 < w" "pos_weights ws"
    using Cons.prems(1) by (cases ew) auto
  from Cons.prems(2) consider "s = Fin (c + w)" | "s \<in> set (cum_sums Fin (Fin (c + w)) ws)"
    by (auto simp: ew Let_def)
  then show ?case
  proof cases
    case 2
    from Cons.IH [OF ew(3) this] show ?thesis using ew(2) by force
  qed (use ew in simp)
qed simp

lemma cum_sums_exact_sorted: "pos_weights ws \<Longrightarrow> sorted_wrt dlt (cum_sums Fin (Fin c) ws)"
proof (induction ws arbitrary: c)
  case (Cons ew ws)
  obtain e w where ew: "ew = (e, Fin w)" "0 < w" "pos_weights ws"
    using Cons.prems(1) by (cases ew) auto
  have "dlt (Fin (c + w)) s" if "s \<in> set (cum_sums Fin (Fin (c + w)) ws)" for s
    using cum_sums_exact_bound [OF ew(3) that] by auto
  then show ?case using Cons.IH [OF ew(3)] by (simp add: ew Let_def)
qed simp

text \<open>Looking a draw up among the sums: the error in whose interval the draw falls.\<close>

lemma ex_split_Cons:
  "(\<exists>pre w post. x # xs = pre @ (e, Fin w) # post \<and> Q pre w) \<longleftrightarrow>
     (\<exists>w. x = (e, Fin w) \<and> Q [] w) \<or>
     (\<exists>pre w post. xs = pre @ (e, Fin w) # post \<and> Q (x # pre) w)"
  by (simp only: Cons_eq_append_conv) blast

lemma lower_bound_exact:
  assumes "pos_weights ws"
  shows "omap_lower_bound dlt (zip (cum_sums Fin (Fin c) ws) (map fst ws)) (Fin u) = Some (s, e) \<longleftrightarrow>
    (\<exists>pre w post. ws = pre @ (e, Fin w) # post \<and> s = Fin (c + total pre + w) \<and>
       (pre = [] \<or> c + total pre < u) \<and> u \<le> c + total pre + w)"
  using assms
proof (induction ws arbitrary: c)
  case Nil
  then show ?case by (simp add: omap_lower_bound_def)
next
  case (Cons ew ws)
  obtain e0 w0 where ew: "ew = (e0, Fin w0)" "0 < w0" "pos_weights ws"
    using Cons.prems by (cases ew) auto
  show ?case
  proof (cases "u \<le> c + w0")
    case True
    have "\<not> c + total (ew # pre) < u" if "ws = pre @ post" for pre post
      using total_nonneg [of pre] ew True that by simp
    then have "\<not> (\<exists>pre w post. ws = pre @ (e, Fin w) # post \<and> s = Fin (c + total (ew # pre) + w) \<and>
       (ew # pre = [] \<or> c + total (ew # pre) < u) \<and> u \<le> c + total (ew # pre) + w)"
      by blast
    with True show ?thesis unfolding ex_split_Cons
      by (auto simp: ew(1) omap_lower_bound_def Let_def)
  next
    case False
    have pre: "(pre = [] \<or> c + w0 + total pre < u) \<longleftrightarrow> c + w0 + total pre < u" for pre
      using False by auto
    have skip: "omap_lower_bound dlt (zip (cum_sums Fin (Fin c) (ew # ws)) (map fst (ew # ws))) (Fin u)
        = omap_lower_bound dlt (zip (cum_sums Fin (Fin (c + w0)) ws) (map fst ws)) (Fin u)"
      using False by (simp add: ew omap_lower_bound_def Let_def)
    show ?thesis unfolding skip ex_split_Cons Cons.IH [OF ew(3)] pre
      using False by (simp add: ew(1) add.assoc)
  qed
qed

lemma ao_errors_exact:
  assumes "pos_weights (o_error_weights ou)"
  shows "ao_errors (ActiveOutcome Fin ou) =
    zip (cum_sums Fin (Fin 0) (o_error_weights ou)) (map fst (o_error_weights ou))"
proof -
  have "sorted_wrt dlt (map fst [] @ cum_sums Fin (Fin 0) (o_error_weights ou))"
    using cum_sums_exact_sorted [OF assms, of 0] by simp
  then show ?thesis by (simp add: ActiveOutcome_def cumulate_increasing)
qed

text \<open>The user's outcomes reach the handler unchanged, each in its active form.\<close>

lemma find_ActivePlan:
  "tab_find (ap_outcomes (ActivePlan rnd p)) call =
     map_option (ActiveOutcome rnd) (tab_find (pl_outcomes p) call)"
proof -
  have "tab_find (ap_outcomes (ActivePlan rnd p)) call =
      map_of (map (\<lambda>(call, ou). (call, ActiveOutcome rnd ou)) (pl_outcomes p)) call"
    by (simp add: ActivePlan_def tab.look_fill)
  also have "\<dots> = map_option (ActiveOutcome rnd) (map_of (pl_outcomes p) call)"
    by (rule map_of_map [THEN fun_cong, unfolded comp_def])
  finally show ?thesis by (simp add: tab_find_def)
qed

section \<open>Well-formed plans\<close>

text \<open>
  What the types of the code promise of a plan: its probabilities were made by their constructor, a
  call has one outcome, and the errors of an outcome are in order, each once.
\<close>

definition outcome_ok :: "outcome \<Rightarrow> bool" where
  "outcome_ok ou = (prob_ok (o_fail ou) \<and> prob_ok (o_delay ou) \<and> omap_wf int_lt (o_error_weights ou))"

definition plan_ok :: "plan \<Rightarrow> bool" where
  "plan_ok p = (tab_wf (pl_outcomes p) \<and> (\<forall>(nr, ou) \<in> set (pl_outcomes p). outcome_ok ou))"

definition active_ok :: "active_plan \<Rightarrow> bool" where
  "active_ok ap = (tab_wf (ap_outcomes ap) \<and> (\<forall>(nr, ao) \<in> set (ap_outcomes ap).
     prob_ok (ao_fail ao) \<and> prob_ok (ao_delay ao) \<and> omap_wf dlt (ao_errors ao)))"

lemma ActivePlan_ok:
  assumes "plan_ok p"
  shows "active_ok (ActivePlan rnd p)"
proof -
  have wf: "tab_wf (ap_outcomes (ActivePlan rnd p))" by (simp add: ActivePlan_def tab.ok_fold_ins)
  have "prob_ok (ao_fail ao) \<and> prob_ok (ao_delay ao) \<and> omap_wf dlt (ao_errors ao)"
    if "(nr, ao) \<in> set (ap_outcomes (ActivePlan rnd p))" for nr ao
  proof -
    have "tab_find (ap_outcomes (ActivePlan rnd p)) nr = Some ao" using that wf by (simp add: tab_find_set)
    then obtain ou where ou: "ao = ActiveOutcome rnd ou" "tab_find (pl_outcomes p) nr = Some ou"
      by (auto simp: find_ActivePlan)
    moreover have "outcome_ok ou" using assms ou(2) by (auto simp: plan_ok_def tab_find_set)
    ultimately show ?thesis
      by (simp add: ActiveOutcome_def outcome_ok_def cumulate_wf omap_wf_def [of _ "[]"])
  qed
  with wf show ?thesis by (auto simp: active_ok_def)
qed

section \<open>Properties\<close>

text \<open>
  The draw that chooses the error. With positive weights, summed exactly, the error looked up
  for a draw \<open>u\<close> is the one in whose interval the draw falls: above the sum of the weights before
  it (the first error takes the draw zero too) and not above that sum and its own weight. So each
  error is chosen on an interval as long as its weight.
\<close>

lemma error_choice:
  assumes "pos_weights (o_error_weights ou)"
  shows "omap_lower_bound dlt (ao_errors (ActiveOutcome Fin ou)) (Fin u) = Some (s, e) \<longleftrightarrow>
    (\<exists>pre w post. o_error_weights ou = pre @ (e, Fin w) # post \<and> s = Fin (total pre + w) \<and>
       (pre = [] \<or> total pre < u) \<and> u \<le> total pre + w)"
  using lower_bound_exact [OF assms, of 0 u s e] ao_errors_exact [OF assms] by simp

text \<open>
  An error with weight zero, or with a weight that rounding absorbs, is not left alone: the
  running sum does not move, so it is stored under the key of the error before it and replaces that
  error. The map is the one of a plan in which it has the weight of the error before it, and that
  error, unless listed again, is never injected.
\<close>

lemma zero_weight_takes_over:
  assumes "o_error_weights ou = pre @ (e, w) # (z, w') # post"
    and "dadd rnd (cum_sum rnd (Fin 0) (pre @ [(e, w)])) w' = cum_sum rnd (Fin 0) (pre @ [(e, w)])"
  shows "ao_errors (ActiveOutcome rnd ou) = ao_errors (ActiveOutcome rnd (ou\<lparr>o_error_weights := pre @ (z, w) # post\<rparr>)) \<and>
    (e \<notin> fst ` set (pre @ (z, w') # post) \<longrightarrow> e \<notin> snd ` set (ao_errors (ActiveOutcome rnd ou)))"
proof -
  have same: "ao_errors (ActiveOutcome rnd ou) =
      ao_errors (ActiveOutcome rnd (ou\<lparr>o_error_weights := pre @ (z, w) # post\<rparr>))"
    using assms(2)
    by (simp add: ActiveOutcome_def assms(1) cumulate_append Let_def cum_sum_def dbl_key.omap_put_put)
  moreover have "e \<notin> snd ` set (ao_errors (ActiveOutcome rnd ou))" if "e \<notin> fst ` set (pre @ (z, w') # post)"
    using that ao_errors_subset [of rnd "ou\<lparr>o_error_weights := pre @ (z, w) # post\<rparr>"] unfolding same by auto
  ultimately show ?thesis by blast
qed

end
