(* ===== verification/Error_Choice.thy ===== *)
theory Error_Choice
  imports Active_Plan
begin

text \<open>
  The choice of an error in the arithmetic of doubles: the map of cumulative weights that
  \<open>ActiveOutcome\<close> makes, looked up with a draw, when sums are rounded and may stop growing.
\<close>

section \<open>Rounded sums\<close>

text \<open>
  What is documented of the rounding of a sum: it is monotone, a value that is a double stays as it
  is, zero is one, and an overflow gives an infinity.
\<close>

definition rounds :: "rounding \<Rightarrow> bool" where
  "rounds rnd = (rnd 0 = Fin 0 \<and> (\<forall>a. rnd a \<noteq> NaN) \<and> (\<forall>a b. a \<le> b \<longrightarrow> \<not> dlt (rnd b) (rnd a)) \<and>
     (\<forall>a b. rnd a = Fin b \<longrightarrow> rnd b = Fin b))"

definition weights_ok :: "(i32, dbl) table \<Rightarrow> bool" where
  "weights_ok ws = (\<forall>(e, w) \<in> set ws. \<exists>r \<ge> 0. w = Fin r)"

lemma weights_ok_Fin: "weights_ok ((e, Fin r) # ws) \<longleftrightarrow> 0 \<le> r \<and> weights_ok ws"
  and weights_ok_Nil: "weights_ok []"
  by (auto simp: weights_ok_def)

text \<open>The running sum up to and with an entry.\<close>

definition sum_at :: "rounding \<Rightarrow> (i32, dbl) table \<Rightarrow> nat \<Rightarrow> dbl" where
  "sum_at rnd ws i = cum_sum rnd (Fin 0) (take (Suc i) ws)"

lemma cum_sum_snoc: "cum_sum rnd c (ws @ [(e, w)]) = dadd rnd (cum_sum rnd c ws) w"
  by (simp add: cum_sum_def)

text \<open>Sums that can be added to: infinity, or a number that is a double.\<close>

definition sum_ok :: "rounding \<Rightarrow> dbl \<Rightarrow> bool" where
  "sum_ok rnd c = (c = PInf \<or> (\<exists>a. c = Fin a \<and> rnd a = Fin a))"

lemma sum_ok_step:
  assumes "rounds rnd" "sum_ok rnd c" "0 \<le> r"
  shows "sum_ok rnd (dadd rnd c (Fin r)) \<and> \<not> dlt (dadd rnd c (Fin r)) c"
proof (cases c)
  case (Fin a)
  with assms(2) have a: "rnd a = Fin a" by (simp add: sum_ok_def)
  have "\<not> dlt (rnd (a + r)) (rnd a)" using assms(1,3) by (simp add: rounds_def)
  moreover have "rnd (a + r) \<noteq> NaN" "\<And>b. rnd (a + r) = Fin b \<Longrightarrow> rnd b = Fin b"
    using assms(1) by (simp_all add: rounds_def)
  ultimately show ?thesis using a by (cases "rnd (a + r)") (auto simp: Fin sum_ok_def)
qed (use assms(2) in \<open>simp_all add: sum_ok_def\<close>)

lemma sum_ok_cum:
  assumes "rounds rnd" "weights_ok ws"
  shows "sum_ok rnd (cum_sum rnd (Fin 0) ws)"
  using assms(2)
proof (induction ws rule: rev_induct)
  case (snoc ew ws)
  then obtain e r where "ew = (e, Fin r)" "0 \<le> r" "weights_ok ws" by (cases ew) (auto simp: weights_ok_def)
  with snoc.IH sum_ok_step [OF assms(1)] show ?case by (simp add: cum_sum_snoc)
qed (use assms(1) in \<open>simp add: cum_sum_def sum_ok_def rounds_def\<close>)

lemma weights_ok_take: "weights_ok ws \<Longrightarrow> weights_ok (take n ws)"
  unfolding weights_ok_def by (meson in_set_takeD)

lemma dlt_not_trans: "\<not> dlt c b \<Longrightarrow> \<not> dlt b a \<Longrightarrow> b \<noteq> NaN \<Longrightarrow> \<not> dlt c a"
  by (cases a; cases b; cases c) auto

lemma sum_at_mono:
  assumes "rounds rnd" "weights_ok ws" "i \<le> j" "j < length ws"
  shows "\<not> dlt (sum_at rnd ws j) (sum_at rnd ws i)"
  using assms(3,4)
proof (induction rule: dec_induct)
  case (step j)
  obtain e r where ew: "ws ! Suc j = (e, Fin r)" "0 \<le> r"
    using assms(2) nth_mem [OF step.prems] by (cases "ws ! Suc j") (auto simp: weights_ok_def)
  have "sum_at rnd ws (Suc j) = dadd rnd (sum_at rnd ws j) (Fin r)"
    using step.prems ew(1) by (simp add: sum_at_def take_Suc_conv_app_nth [of "Suc j"] cum_sum_snoc)
  moreover have "sum_ok rnd (sum_at rnd ws j)"
    unfolding sum_at_def by (rule sum_ok_cum [OF assms(1) weights_ok_take [OF assms(2)]])
  ultimately have "\<not> dlt (sum_at rnd ws (Suc j)) (sum_at rnd ws j)" "sum_at rnd ws j \<noteq> NaN"
    using sum_ok_step [OF assms(1) _ ew(2)] by (auto simp: sum_ok_def)
  moreover have "\<not> dlt (sum_at rnd ws j) (sum_at rnd ws i)" using step by simp
  ultimately show ?case using dlt_not_trans by blast
qed simp

text \<open>Storing under a key that is not below the others.\<close>

lemma lower_bound_put:
  assumes "omap_wf dlt m" "\<forall>k \<in> fst ` set m. k \<noteq> NaN \<and> \<not> dlt c k" "c \<noteq> NaN"
  shows "omap_lower_bound dlt (omap_put dlt c e m) d =
    (case omap_lower_bound dlt m d of
       Some (k, e') \<Rightarrow> if k = c then Some (c, e) else Some (k, e')
     | None \<Rightarrow> if dlt c d then None else Some (c, e))"
  using assms(1,2)
proof (induction m)
  case (Cons ke m)
  obtain k e' where ke: "ke = (k, e')" by (cases ke)
  have wf: "omap_wf dlt m" and above: "\<forall>j \<in> fst ` set m. dlt k j" using Cons.prems(1) by (simp_all add: ke dbl_key.omap_wf_Cons)
  show ?case
  proof (cases "dlt k c")
    case True
    then show ?thesis using Cons by (auto simp: ke omap_lower_bound_def wf)
  next
    case False
    then have "k = c" using Cons.prems(2) assms(3) dlt_total by (auto simp: ke)
    moreover from this have "m = []" using above Cons.prems(2) by (cases m) auto
    ultimately show ?thesis by (simp add: ke omap_lower_bound_def)
  qed
qed (simp add: omap_lower_bound_def)

lemma sum_at_append:
  "i < length ws \<Longrightarrow> sum_at rnd (ws @ ws') i = sum_at rnd ws i"
  "sum_at rnd (ws @ [x]) (length ws) = cum_sum rnd (Fin 0) (ws @ [x])"
  by (simp_all add: sum_at_def)

lemma cumulate_snoc:
  "cumulate rnd c (ws @ [(e, w)]) m = omap_put dlt (cum_sum rnd c (ws @ [(e, w)])) e (cumulate rnd c ws m)"
  by (simp add: cumulate_append cum_sum_snoc Let_def)

lemma cumulate_keys: "k \<in> fst ` set (cumulate rnd (Fin 0) ws []) \<Longrightarrow> \<exists>i < length ws. k = sum_at rnd ws i"
proof (induction ws rule: rev_induct)
  case (snoc ew ws)
  obtain e w where ew: "ew = (e, w)" by (cases ew)
  from snoc.prems have "k = cum_sum rnd (Fin 0) (ws @ [ew]) \<or> k \<in> fst ` set (cumulate rnd (Fin 0) ws [])"
    using subsetD [OF dbl_key.keys_omap_put_sub] unfolding ew cumulate_snoc by fast
  then show ?case
  proof
    assume "k = cum_sum rnd (Fin 0) (ws @ [ew])"
    then show ?thesis by (intro exI [of _ "length ws"]) (simp add: sum_at_append)
  next
    assume "k \<in> fst ` set (cumulate rnd (Fin 0) ws [])"
    with snoc.IH show ?thesis by (auto simp: sum_at_append less_Suc_eq)
  qed
qed simp

text \<open>
  The entry a draw chooses: the last one whose sum is the least that is not below the draw.
\<close>

definition chosen :: "(nat \<Rightarrow> dbl) \<Rightarrow> nat \<Rightarrow> dbl \<Rightarrow> nat \<Rightarrow> bool" where
  "chosen S n d i =
     (i < n \<and> \<not> dlt (S i) d \<and> (\<forall>j < i. dlt (S j) d \<or> S j = S i) \<and> (\<forall>j < n. i < j \<longrightarrow> dlt (S i) (S j)))"

lemma chosen_unique: "chosen S n d i \<Longrightarrow> chosen S n d j \<Longrightarrow> i = j"
  unfolding chosen_def by (metis dlt_irrefl linorder_neqE_nat)

lemma chosen_cong: "(\<And>i. i < n \<Longrightarrow> S i = S' i) \<Longrightarrow> chosen S n d i = chosen S' n d i"
  by (auto simp: chosen_def)

lemma chosen_last: "(\<And>i. i < n \<Longrightarrow> dlt (S i) d) \<Longrightarrow> \<not> dlt (S n) d \<Longrightarrow> chosen S (Suc n) d n"
  by (auto simp: chosen_def)

lemma chosen_keep: "chosen S n d i \<Longrightarrow> dlt (S i) (S n) \<Longrightarrow> chosen S (Suc n) d i"
  by (auto simp: chosen_def less_Suc_eq)

lemma chosen_same:
  assumes "chosen S n d i" "S i = S n" "\<And>j. j < n \<Longrightarrow> \<not> dlt (S n) (S j)"
  shows "chosen S (Suc n) d n"
proof -
  have "\<not> (i < j \<and> j < n)" for j using assms by (auto simp: chosen_def)
  then have "n = Suc i" using assms(1) by (metis Suc_lessI chosen_def lessI)
  then show ?thesis using assms(1,2) by (auto simp: chosen_def less_Suc_eq)
qed

lemma sum_at_order:
  assumes "rounds rnd" "weights_ok ws" "i \<le> j" "j < length ws"
  shows "sum_at rnd ws i \<noteq> NaN" "sum_at rnd ws i = sum_at rnd ws j \<or> dlt (sum_at rnd ws i) (sum_at rnd ws j)"
proof -
  have num: "sum_at rnd ws k \<noteq> NaN" for k
    using sum_ok_cum [OF assms(1) weights_ok_take [OF assms(2)], of "Suc k"] by (auto simp: sum_at_def sum_ok_def)
  then show "sum_at rnd ws i \<noteq> NaN" .
  show "sum_at rnd ws i = sum_at rnd ws j \<or> dlt (sum_at rnd ws i) (sum_at rnd ws j)"
    using sum_at_mono [OF assms] dlt_total [OF num num] by blast
qed

lemma lower_bound_snoc:
  assumes "rounds rnd" "weights_ok (ws @ [(e, w)])"
  shows "omap_lower_bound dlt (cumulate rnd (Fin 0) (ws @ [(e, w)]) []) d =
    (let c = sum_at rnd (ws @ [(e, w)]) (length ws) in
     case omap_lower_bound dlt (cumulate rnd (Fin 0) ws []) d of
       Some (k, e') \<Rightarrow> if k = c then Some (c, e) else Some (k, e')
     | None \<Rightarrow> if dlt c d then None else Some (c, e))"
proof -
  let ?m = "cumulate rnd (Fin 0) ws []" and ?ws = "ws @ [(e, w)]"
  let ?c = "sum_at rnd ?ws (length ws)"
  have "omap_wf dlt ?m" by (rule cumulate_wf) (simp add: omap_wf_def)
  moreover have "k \<noteq> NaN \<and> \<not> dlt ?c k" if k: "k \<in> fst ` set ?m" for k
  proof -
    from cumulate_keys [OF k] obtain i where "i < length ws" "k = sum_at rnd ?ws i" by (auto simp: sum_at_append)
    then show ?thesis
      using sum_at_order(1) [OF assms, of i "length ws"] sum_at_mono [OF assms, of i "length ws"] by simp
  qed
  moreover have "?c \<noteq> NaN" by (rule sum_at_order(1) [OF assms order.refl]) simp
  ultimately show ?thesis
    using lower_bound_put [of ?m ?c e d] unfolding cumulate_snoc Let_def by (simp add: sum_at_append)
qed

lemma lookup_chosen:
  assumes "rounds rnd" "weights_ok ws"
  shows "case omap_lower_bound dlt (cumulate rnd (Fin 0) ws []) d of
      None \<Rightarrow> \<forall>i < length ws. dlt (sum_at rnd ws i) d
    | Some (s, e) \<Rightarrow> \<exists>i. chosen (sum_at rnd ws) (length ws) d i \<and> s = sum_at rnd ws i \<and> e = fst (ws ! i)"
  using assms(2)
proof (induction ws rule: rev_induct)
  case Nil
  then show ?case by (simp add: omap_lower_bound_def)
next
  case (snoc ew ws)
  obtain e0 w where ew: "ew = (e0, w)" by (cases ew)
  let ?n = "length ws" and ?S = "sum_at rnd (ws @ [ew])"
  have S: "i < ?n \<Longrightarrow> sum_at rnd ws i = ?S i" for i by (simp add: sum_at_append)
  have wt: "weights_ok ws" using snoc.prems by (simp add: weights_ok_def)
  note look = lower_bound_snoc [OF assms(1), of ws e0 w d, folded ew, OF snoc.prems, unfolded Let_def]
  have le: "\<not> dlt (?S ?n) (?S j)" if "j < ?n" for j
    by (rule sum_at_mono [OF assms(1) snoc.prems]) (use that in simp_all)
  show ?case
  proof (cases "omap_lower_bound dlt (cumulate rnd (Fin 0) ws []) d")
    case None
    with snoc.IH [OF wt] S have below: "i < ?n \<Longrightarrow> dlt (?S i) d" for i by simp
    have "chosen ?S (Suc ?n) d ?n" if "\<not> dlt (?S ?n) d" by (rule chosen_last) (use below that in simp_all)
    moreover have "fst ((ws @ [ew]) ! ?n) = e0" by (simp add: ew)
    ultimately show ?thesis using None look below by (cases "dlt (?S ?n) d") (auto simp: less_Suc_eq)
  next
    case (Some ke)
    with snoc.IH [OF wt] obtain i where "chosen (sum_at rnd ws) ?n d i" and ke: "ke = (sum_at rnd ws i, fst (ws ! i))"
      by (cases ke) auto
    then have i: "chosen ?S ?n d i" "i < ?n" using chosen_cong [of ?n "sum_at rnd ws" ?S] S by (auto simp: chosen_def)
    show ?thesis
    proof (cases "?S i = ?S ?n")
      case True
      with look Some ke S [OF i(2)] chosen_same [OF i(1) True le] show ?thesis by (auto simp: ew)
    next
      case False
      with sum_at_order(2) [OF assms(1) snoc.prems, of i ?n] i(2) have "dlt (?S i) (?S ?n)" by simp
      with look Some ke S [OF i(2)] False chosen_keep [OF i(1)] i(2) show ?thesis by (auto simp: nth_append)
    qed
  qed
qed

lemma rounds_exact: "rounds Fin"
  by (simp add: rounds_def)

section \<open>Properties\<close>

text \<open>
  C15. The draw that chooses the error, in the arithmetic of doubles: with weights that are not
  negative and sums rounded as documented, the error looked up for a draw is the last one whose
  running sum is the least that is not below the draw; there is one if and only if some sum is not
  below the draw.
\<close>

theorem error_choice_rounded:
  assumes "rounds rnd" "weights_ok (o_error_weights ou)"
  shows "omap_lower_bound dlt (ao_errors (ActiveOutcome rnd ou)) d = Some (s, e) \<longleftrightarrow>
    (\<exists>i. chosen (sum_at rnd (o_error_weights ou)) (length (o_error_weights ou)) d i \<and>
       s = sum_at rnd (o_error_weights ou) i \<and> e = fst (o_error_weights ou ! i))"
proof -
  let ?ws = "o_error_weights ou"
  have ao: "ao_errors (ActiveOutcome rnd ou) = cumulate rnd (Fin 0) ?ws []" by (simp add: ActiveOutcome_def)
  note look = lookup_chosen [OF assms, of d]
  show ?thesis
  proof (cases "omap_lower_bound dlt (cumulate rnd (Fin 0) ?ws []) d")
    case None
    with look have "\<not> chosen (sum_at rnd ?ws) (length ?ws) d i" for i by (auto simp: chosen_def)
    with None show ?thesis by (simp add: ao)
  next
    case (Some se)
    with look obtain i where i: "chosen (sum_at rnd ?ws) (length ?ws) d i" "se = (sum_at rnd ?ws i, fst (?ws ! i))"
      by (cases se) auto
    have same: "j = i" if "chosen (sum_at rnd ?ws) (length ?ws) d j" for j by (rule chosen_unique [OF that i(1)])
    show ?thesis
    proof
      assume "omap_lower_bound dlt (ao_errors (ActiveOutcome rnd ou)) d = Some (s, e)"
      with Some i show "\<exists>i. chosen (sum_at rnd ?ws) (length ?ws) d i \<and> s = sum_at rnd ?ws i \<and> e = fst (?ws ! i)"
        by (simp add: ao) blast
    next
      assume "\<exists>i. chosen (sum_at rnd ?ws) (length ?ws) d i \<and> s = sum_at rnd ?ws i \<and> e = fst (?ws ! i)"
      then show "omap_lower_bound dlt (ao_errors (ActiveOutcome rnd ou)) d = Some (s, e)"
        using same Some i(2) by (auto simp: ao)
    qed
  qed
qed

theorem error_choice_rounded_witness:
  "let ou = \<lparr>o_fail = \<lparr>pr_p = Fin 1, pr_after_bias = Fin 0\<rparr>,
             o_delay = \<lparr>pr_p = Fin 0, pr_after_bias = Fin 0\<rparr>, o_max_delay = 0,
             o_error_weights = [(4, Fin (1/4)), (5, Fin 0), (6, Fin (3/4))], o_eligible = None\<rparr>
   in omap_lower_bound dlt (ao_errors (ActiveOutcome Fin ou)) (Fin (1/8)) = Some (Fin (1/4), 5)"
proof -
  let ?ou = "\<lparr>o_fail = \<lparr>pr_p = Fin 1, pr_after_bias = Fin 0\<rparr>,
             o_delay = \<lparr>pr_p = Fin 0, pr_after_bias = Fin 0\<rparr>, o_max_delay = 0,
             o_error_weights = [(4, Fin (1/4)), (5, Fin 0), (6, Fin (3/4))], o_eligible = None\<rparr> :: outcome"
  have "weights_ok (o_error_weights ?ou)" by (simp add: weights_ok_Fin weights_ok_Nil)
  note choice = error_choice_rounded [OF rounds_exact this, of "Fin (1/8)" "Fin (1/4)" 5]
  have "chosen (sum_at Fin (o_error_weights ?ou)) (length (o_error_weights ?ou)) (Fin (1/8)) 1"
    by (auto simp: chosen_def sum_at_def cum_sum_def less_Suc_eq numeral_eq_Suc)
  then show ?thesis
    unfolding Let_def choice by (intro exI [of _ 1]) (simp add: sum_at_def cum_sum_def)
qed

end
