(* ===== verification/Regex.thy ===== *)
theory Regex
  imports Prelude
begin

text \<open>
  The part of \<open>std::regex\<close> (ECMAScript grammar) that \<open>src/map.cc\<close> uses: character classes,
  concatenation and repetition, matched against a whole string by \<open>regex_match\<close>. The matcher is
  executable; the relation \<open>mat\<close> says what it decides.
\<close>

datatype rx =
    Never
  | Eps
  | Cls "char \<Rightarrow> bool"
  | Cat rx rx
  | Alt rx rx
  | Rep rx

fun nullable :: "rx \<Rightarrow> bool" where
  "nullable Never = False"
| "nullable Eps = True"
| "nullable (Cls p) = False"
| "nullable (Cat r s) = (nullable r \<and> nullable s)"
| "nullable (Alt r s) = (nullable r \<or> nullable s)"
| "nullable (Rep r) = True"

fun rest_after :: "char \<Rightarrow> rx \<Rightarrow> rx" where
  "rest_after c Never = Never"
| "rest_after c Eps = Never"
| "rest_after c (Cls p) = (if p c then Eps else Never)"
| "rest_after c (Cat r s) =
     (if nullable r then Alt (Cat (rest_after c r) s) (rest_after c s) else Cat (rest_after c r) s)"
| "rest_after c (Alt r s) = Alt (rest_after c r) (rest_after c s)"
| "rest_after c (Rep r) = Cat (rest_after c r) (Rep r)"

fun regex_match :: "string \<Rightarrow> rx \<Rightarrow> bool" where
  "regex_match [] r = nullable r"
| "regex_match (c # s) r = regex_match s (rest_after c r)"

text \<open>A literal text, and one or more repetitions.\<close>

fun lit :: "string \<Rightarrow> rx" where
  "lit [] = Eps"
| "lit (c # s) = Cat (Cls (\<lambda>x. x = c)) (lit s)"

definition Rep1 :: "rx \<Rightarrow> rx" where
  "Rep1 r = Cat r (Rep r)"

inductive mat :: "rx \<Rightarrow> string \<Rightarrow> bool" where
  mat_eps: "mat Eps []"
| mat_cls: "p c \<Longrightarrow> mat (Cls p) [c]"
| mat_cat: "mat r s \<Longrightarrow> mat r' s' \<Longrightarrow> mat (Cat r r') (s @ s')"
| mat_alt1: "mat r s \<Longrightarrow> mat (Alt r r') s"
| mat_alt2: "mat r' s \<Longrightarrow> mat (Alt r r') s"
| mat_rep0: "mat (Rep r) []"
| mat_rep: "mat r s \<Longrightarrow> mat (Rep r) s' \<Longrightarrow> mat (Rep r) (s @ s')"

inductive_simps mat_Never [simp]: "mat Never s"
inductive_simps mat_Eps [simp]: "mat Eps s"
inductive_simps mat_Cls: "mat (Cls p) s"
inductive_simps mat_Cat: "mat (Cat r r') s"
inductive_simps mat_Alt [simp]: "mat (Alt r r') s"
inductive_cases mat_RepE: "mat (Rep r) s"

section \<open>The matcher decides the relation\<close>

lemma nullable_mat: "nullable r \<longleftrightarrow> mat r []"
  by (induction r) (auto simp: mat_Cls mat_Cat intro: mat_rep0)

lemma mat_Rep_Cons:
  "mat (Rep r) (c # s) \<longleftrightarrow> (\<exists>s1 s2. s = s1 @ s2 \<and> mat r (c # s1) \<and> mat (Rep r) s2)"
proof
  assume "mat (Rep r) (c # s)"
  then show "\<exists>s1 s2. s = s1 @ s2 \<and> mat r (c # s1) \<and> mat (Rep r) s2"
    by (induction "Rep r" "c # s" arbitrary: c s rule: mat.induct)
      (auto simp: append_eq_Cons_conv)
next
  assume "\<exists>s1 s2. s = s1 @ s2 \<and> mat r (c # s1) \<and> mat (Rep r) s2"
  then show "mat (Rep r) (c # s)" using mat_rep by fastforce
qed

lemma mat_Cat_Cons:
  "mat (Cat r r') (c # s) \<longleftrightarrow>
     (mat r [] \<and> mat r' (c # s)) \<or> (\<exists>s1 s2. s = s1 @ s2 \<and> mat r (c # s1) \<and> mat r' s2)"
  by (auto simp: mat_Cat Cons_eq_append_conv)

lemma mat_rest_after: "mat (rest_after c r) s \<longleftrightarrow> mat r (c # s)"
proof (induction r arbitrary: s)
  case (Cat r1 r2)
  have "mat (Cat (rest_after c r1) r2) s \<longleftrightarrow> (\<exists>s1 s2. s = s1 @ s2 \<and> mat r1 (c # s1) \<and> mat r2 s2)"
    by (simp add: mat_Cat Cat)
  then show ?case by (auto simp: nullable_mat mat_Cat_Cons Cat)
next
  case (Rep r)
  then show ?case by (simp add: mat_Cat mat_Rep_Cons)
qed (auto simp: mat_Cls)

lemma regex_match_mat: "regex_match s r \<longleftrightarrow> mat r s"
  by (induction s arbitrary: r) (simp_all add: nullable_mat mat_rest_after)

section \<open>Literals and repeated classes\<close>

lemma mat_lit [simp]: "mat (lit t) s \<longleftrightarrow> s = t"
  by (induction t arbitrary: s) (auto simp: mat_Cat mat_Cls)

lemma mat_Rep_Cls [simp]: "mat (Rep (Cls p)) s \<longleftrightarrow> (\<forall>c \<in> set s. p c)"
proof (induction s)
  case (Cons c s)
  then show ?case by (auto simp: mat_Rep_Cons mat_Cls)
qed (simp add: mat_rep0)

lemma mat_Rep1_Cls [simp]: "mat (Rep1 (Cls p)) s \<longleftrightarrow> s \<noteq> [] \<and> (\<forall>c \<in> set s. p c)"
proof (cases s)
  case (Cons c s')
  then show ?thesis by (simp add: Rep1_def mat_Cat_Cons mat_Cls)
qed (simp add: Rep1_def mat_Cat mat_Cls)

lemma mat_Rep_Rep1_Cls [simp]: "mat (Rep (Rep1 (Cls p))) s \<longleftrightarrow> (\<forall>c \<in> set s. p c)"
proof
  assume "mat (Rep (Rep1 (Cls p))) s"
  then show "\<forall>c \<in> set s. p c"
    by (induction "Rep (Rep1 (Cls p))" s rule: mat.induct) auto
next
  assume "\<forall>c \<in> set s. p c"
  then show "mat (Rep (Rep1 (Cls p))) s"
    using mat_rep [of "Rep1 (Cls p)" s "[]"] by (cases "s = []") (auto intro: mat_rep0)
qed

end
