(* ===== verification/Istream.thy ===== *)
theory Istream
  imports Prelude
begin

text \<open>
  \<open>std::istringstream\<close> as \<open>get_mmap\<close> uses it: formatted extraction of unsigned numbers in
  hexadecimal and of words, \<open>ignore\<close>, and \<open>std::getline\<close>. A stream is the text not yet read
  with its end and failure bits. An extraction from a stream that is not good, or that finds only
  white space, leaves its variable untouched, which is the result \<open>None\<close>.
\<close>

record istr =
  rest :: string
  eofbit :: bool
  failbit :: bool

definition open_str :: "string \<Rightarrow> istr" where
  "open_str s = \<lparr>rest = s, eofbit = False, failbit = False\<rparr>"

definition good :: "istr \<Rightarrow> bool" where
  "good i = (\<not> eofbit i \<and> \<not> failbit i)"

definition is_space :: "char \<Rightarrow> bool" where
  "is_space c = (c = CHR '' '' \<or> (0x09 \<le> (of_char c :: nat) \<and> (of_char c :: nat) \<le> 0x0D))"

text \<open>The prologue of a formatted extraction: whether it may proceed, and the stream.\<close>

definition sentry :: "istr \<Rightarrow> bool \<times> istr" where
  "sentry i =
     (if \<not> good i then (False, i\<lparr>failbit := True\<rparr>)
      else case dropWhile is_space (rest i) of
             [] \<Rightarrow> (False, i\<lparr>rest := [], eofbit := True, failbit := True\<rparr>)
           | s \<Rightarrow> (True, i\<lparr>rest := s\<rparr>))"

text \<open>Hexadecimal digits and the value of a sequence of them.\<close>

definition hex_digit :: "char \<Rightarrow> nat option" where
  "hex_digit c =
     (let n = (of_char c :: nat) in
      if 0x30 \<le> n \<and> n \<le> 0x39 then Some (n - 0x30)
      else if 0x61 \<le> n \<and> n \<le> 0x66 then Some (n - 0x57)
      else if 0x41 \<le> n \<and> n \<le> 0x46 then Some (n - 0x37)
      else None)"

definition is_hex :: "char \<Rightarrow> bool" where
  "is_hex c = (hex_digit c \<noteq> None)"

definition hex_value :: "string \<Rightarrow> nat" where
  "hex_value ds = foldl (\<lambda>a c. 16 * a + the (hex_digit c)) 0 ds"

text \<open>
  The scan of \<open>num_get\<close> in base sixteen: an optional sign, an optional prefix, digits. The value
  is zero without digits and the largest number when they overflow, both failures; a minus sign
  negates the value modulo \<open>2 ^ 64\<close>.
\<close>

fun scan_sign :: "string \<Rightarrow> bool \<times> string" where
  "scan_sign (c # s) =
     (if c = CHR ''-'' then (True, s) else if c = CHR ''+'' then (False, s) else (False, c # s))"
| "scan_sign [] = (False, [])"

fun scan_prefix :: "string \<Rightarrow> string" where
  "scan_prefix (c # d # s) =
     (if c = CHR ''0'' \<and> (d = CHR ''x'' \<or> d = CHR ''X'') then s else c # d # s)"
| "scan_prefix s = s"

definition scan_hex :: "string \<Rightarrow> u64 \<times> bool \<times> string" where
  "scan_hex s =
     (case scan_sign s of (neg, s) \<Rightarrow>
       let s = scan_prefix s; ds = takeWhile is_hex s; s = dropWhile is_hex s in
       if ds = [] then (0, False, s)
       else if 2 ^ 64 \<le> hex_value ds then (- 1, False, s)
       else (if neg then - of_nat (hex_value ds) else of_nat (hex_value ds), True, s))"

definition extract_hex :: "istr \<Rightarrow> u64 option \<times> istr" where
  "extract_hex i =
     (case sentry i of
        (False, i) \<Rightarrow> (None, i)
      | (True, i) \<Rightarrow>
          (case scan_hex (rest i) of (v, ok, s) \<Rightarrow>
             (Some v, \<lparr>rest = s, eofbit = (s = []), failbit = \<not> ok\<rparr>)))"

text \<open>A word: up to the next white space. The string keeps its old value when nothing is read.\<close>

definition extract_word :: "string \<Rightarrow> istr \<Rightarrow> string \<times> istr" where
  "extract_word old i =
     (case sentry i of
        (False, i) \<Rightarrow> (old, i)
      | (True, i) \<Rightarrow>
          (let w = takeWhile (\<lambda>c. \<not> is_space c) (rest i);
               s = dropWhile (\<lambda>c. \<not> is_space c) (rest i)
           in (w, i\<lparr>rest := s, eofbit := (s = [])\<rparr>)))"

text \<open>\<open>ignore(1, c)\<close> drops one character, whatever it is.\<close>

definition ignore1 :: "istr \<Rightarrow> istr" where
  "ignore1 i =
     (if \<not> good i then i\<lparr>failbit := True\<rparr>
      else case rest i of [] \<Rightarrow> i\<lparr>eofbit := True\<rparr> | _ # s \<Rightarrow> i\<lparr>rest := s\<rparr>)"

definition get_line :: "string \<Rightarrow> istr \<Rightarrow> string \<times> istr" where
  "get_line old i =
     (if \<not> good i then (old, i\<lparr>failbit := True\<rparr>)
      else
        (let l = takeWhile (\<lambda>c. c \<noteq> CHR 0x0A) (rest i);
             s = dropWhile (\<lambda>c. c \<noteq> CHR 0x0A) (rest i)
         in (l, i\<lparr>rest := tl s, eofbit := (s = []), failbit := (rest i = [])\<rparr>)))"

section \<open>Reading well-formed text\<close>

lemma hex_not_special [simp]:
  "\<not> is_hex (CHR ''-'')" "\<not> is_hex (CHR '' '')" "\<not> is_hex (CHR ''x'')" "\<not> is_hex (CHR ''X'')"
  "\<not> is_hex (CHR ''+'')" "\<not> is_space (CHR ''-'')" "is_space (CHR '' '')"
  by (simp_all add: is_hex_def hex_digit_def is_space_def Let_def)

lemma hex_not_space: "is_hex c \<Longrightarrow> \<not> is_space c"
  by (auto simp: is_hex_def hex_digit_def is_space_def Let_def split: if_splits)

text \<open>Digits followed by something else are read as their value.\<close>

definition hex_text :: "string \<Rightarrow> bool" where
  "hex_text ds = (ds \<noteq> [] \<and> list_all is_hex ds \<and> hex_value ds < 2 ^ 64)"

definition stops_hex :: "string \<Rightarrow> bool" where
  "stops_hex s = (case s of [] \<Rightarrow> True | c # _ \<Rightarrow> \<not> is_hex c \<and> c \<noteq> CHR ''x'' \<and> c \<noteq> CHR ''X'')"

lemma scan_sign_hex: "hex_text ds \<Longrightarrow> scan_sign (ds @ s) = (False, ds @ s)"
  by (cases ds) (auto simp: hex_text_def)

lemma scan_prefix_hex: "hex_text ds \<Longrightarrow> stops_hex s \<Longrightarrow> scan_prefix (ds @ s) = ds @ s"
  by (cases "ds @ s" rule: scan_prefix.cases)
    (auto simp: hex_text_def stops_hex_def append_eq_Cons_conv split: list.splits)

lemma scan_hex_text:
  assumes "hex_text ds" "stops_hex s"
  shows "scan_hex (ds @ s) = (of_nat (hex_value ds), True, s)"
proof -
  have "takeWhile is_hex (ds @ s) = ds" "dropWhile is_hex (ds @ s) = s"
    using assms by (cases s; auto simp: hex_text_def stops_hex_def list_all_iff
        takeWhile_append2 dropWhile_append2)+
  with assms show ?thesis
    by (simp add: scan_hex_def scan_sign_hex scan_prefix_hex Let_def) (simp add: hex_text_def)
qed

lemma sentry_at:
  "dropWhile is_space t = c # s \<Longrightarrow> sentry (open_str t) = (True, open_str (c # s))"
  by (simp add: sentry_def open_str_def good_def)

lemma extract_hex_at:
  assumes "hex_text ds" "stops_hex s" "s \<noteq> []" "list_all is_space sp"
  shows "extract_hex (open_str (sp @ ds @ s)) = (Some (of_nat (hex_value ds)), open_str s)"
proof -
  have drop: "dropWhile is_space (sp @ ds @ s) = ds @ s"
    using assms hex_not_space
    by (cases ds) (auto simp: hex_text_def list_all_iff dropWhile_append)
  from assms(1) obtain c cs where "ds = c # cs" by (cases ds) (auto simp: hex_text_def)
  then have "sentry (open_str (sp @ ds @ s)) = (True, open_str (ds @ s))"
    using sentry_at [of "sp @ ds @ s" c "cs @ s"] drop by simp
  then show ?thesis
    using scan_hex_text [OF assms(1,2)] assms(3) by (simp add: extract_hex_def open_str_def)
qed

definition word_text :: "string \<Rightarrow> bool" where
  "word_text w = (w \<noteq> [] \<and> list_all (\<lambda>c. \<not> is_space c) w)"

lemma extract_word_at:
  assumes "word_text w" "is_space c" "list_all is_space sp"
  shows "extract_word old (open_str (sp @ w @ c # s)) = (w, open_str (c # s))"
proof -
  have drop: "dropWhile is_space (sp @ w @ c # s) = w @ c # s"
    using assms by (cases w) (auto simp: word_text_def list_all_iff dropWhile_append)
  from assms(1) obtain d ds where "w = d # ds" by (cases w) (auto simp: word_text_def)
  then have "sentry (open_str (sp @ w @ c # s)) = (True, open_str (w @ c # s))"
    using sentry_at [of "sp @ w @ c # s" d "ds @ c # s"] drop by simp
  moreover have "takeWhile (\<lambda>c. \<not> is_space c) (w @ c # s) = w"
    "dropWhile (\<lambda>c. \<not> is_space c) (w @ c # s) = c # s"
    using assms by (auto simp: word_text_def list_all_iff takeWhile_append2 dropWhile_append2)
  ultimately show ?thesis
    using assms(2) by (simp add: extract_word_def open_str_def)
qed

lemma ignore1_at: "ignore1 (open_str (c # s)) = open_str s"
  by (simp add: ignore1_def open_str_def good_def)

lemma get_line_at:
  "CHR 0x0A \<notin> set s \<Longrightarrow> fst (get_line old (open_str s)) = s"
  by (simp add: get_line_def open_str_def good_def Let_def takeWhile_eq_all_conv) auto

end
