(* ===== verification/Mem_Map.thy ===== *)
theory Mem_Map
  imports Containers Regex Istream
begin

text \<open>
  \<open>src/map.hh\<close> and \<open>src/map.cc\<close>: the process' memory map, read line by line from
  \<open>/proc/<pid>/maps\<close>, and the search in it for the library's own text, the address range
  whose system calls are not intercepted.
\<close>

record addr_range =
  ar_start :: u64
  ar_length :: u64
  ar_permissions :: string
  ar_path :: string
  ar_inode :: u64

type_synonym mapping = "(u64, addr_range) table"

section \<open>Reading the map\<close>

text \<open>
  One line. A variable no extraction assigned has no value; the code then stores it all the same,
  which is undefined. The base set by \<open>std::hex\<close> stays in force for every number of the line.
\<close>

definition parse_maps_line :: "string \<Rightarrow> addr_range result" where
  "parse_maps_line line =
     (case extract_hex (open_str line) of (startAddr, i) \<Rightarrow>
      case extract_hex (ignore1 i) of (endAddr, i) \<Rightarrow>
      case extract_word [] i of (permissions, i) \<Rightarrow>
      case extract_word [] i of (offsetStr, i) \<Rightarrow>
      case extract_word [] i of (devStr, i) \<Rightarrow>
      case extract_hex i of (inode, i) \<Rightarrow>
      case get_line [] i of (path, i) \<Rightarrow>
      case (startAddr, endAddr, inode) of
        (Some s, Some e, Some n) \<Rightarrow>
          Inr \<lparr>ar_start = s, ar_length = e - s, ar_permissions = permissions,
               ar_path = dropWhile (\<lambda>c. c = CHR '' '') path, ar_inode = n\<rparr>
      | _ \<Rightarrow> Inl (Undefined ''uninitialised variable''))"

definition add_range :: "string \<Rightarrow> mapping \<Rightarrow> mapping result" where
  "add_range line m =
     rbind (parse_maps_line line) (\<lambda>info. Inr (omap_put addr_lt (ar_start info) info m))"

text \<open>The file: its lines, or \<open>None\<close> when it cannot be opened.\<close>

definition get_mmap :: "string list option \<Rightarrow> mapping option result" where
  "get_mmap file =
     (case file of
        None \<Rightarrow> Inr None
      | Some lines \<Rightarrow> rbind (rfold add_range lines []) (\<lambda>m. Inr (Some m)))"

section \<open>Kinds of ranges\<close>

definition executable :: "addr_range \<Rightarrow> bool" where
  "executable r = (CHR ''x'' \<in> set (ar_permissions r))"

definition in_range :: "char \<Rightarrow> char \<Rightarrow> char \<Rightarrow> bool" where
  "in_range lo hi c = ((of_char lo :: nat) \<le> of_char c \<and> (of_char c :: nat) \<le> of_char hi)"

definition alnum :: "char \<Rightarrow> bool" where
  "alnum c = (in_range (CHR ''a'') (CHR ''z'') c \<or> in_range (CHR ''A'') (CHR ''Z'') c \<or>
     in_range (CHR ''0'') (CHR ''9'') c)"

definition dot_digit :: "char \<Rightarrow> bool" where
  "dot_digit c = (c = CHR ''.'' \<or> in_range (CHR ''0'') (CHR ''9'') c)"

text \<open>The class \<open>.\<close> of the grammar: everything but the line terminators.\<close>

definition any_char :: "char \<Rightarrow> bool" where
  "any_char c = (c \<noteq> CHR 0x0A \<and> c \<noteq> CHR 0x0D)"

definition vdsoRe :: rx where
  "vdsoRe = Cat (lit ''['') (Cat (Rep1 (Cls alnum)) (lit '']''))"

definition soRegex :: rx where
  "soRegex =
     Cat (Rep (Cls any_char)) (Cat (lit ''/libsysfail'')
       (Cat (Rep (Rep1 (Cls dot_digit))) (Cat (lit ''.so'') (Rep (Cls dot_digit)))))"

definition vdso :: "addr_range \<Rightarrow> bool" where
  "vdso r = regex_match (ar_path r) vdsoRe"

definition libsysfail :: "addr_range \<Rightarrow> bool" where
  "libsysfail r = regex_match (ar_path r) soRegex"

definition self_text :: "mapping \<Rightarrow> addr_range result" where
  "self_text m =
     (let mappings = filter (\<lambda>info. executable info \<and> libsysfail info) (map snd m) in
      rbind (guard (length mappings = 1) ''mappings.size() == 1'') (\<lambda>_. Inr (mappings ! 0)))"

section \<open>Lemmas\<close>

text \<open>A map as \<open>get_mmap\<close> builds it: sorted by address, every range under its own start.\<close>

definition mapping_wf :: "mapping \<Rightarrow> bool" where
  "mapping_wf m = (omap_wf addr_lt m \<and> (\<forall>(k, info) \<in> set m. k = ar_start info))"

lemma mapping_wf_put: "mapping_wf m \<Longrightarrow> mapping_wf (omap_put addr_lt (ar_start info) info m)"
  by (auto simp: mapping_wf_def addr_key.omap_wf_put dest!: addr_key.set_omap_put)

lemma mapping_wf_Nil: "mapping_wf []"
  by (simp add: mapping_wf_def omap_wf_def)

lemma add_range_wf: "mapping_wf m \<Longrightarrow> add_range line m = Inr m' \<Longrightarrow> mapping_wf m'"
  by (auto simp: add_range_def rbind_Inr_conv mapping_wf_put)

lemma get_mmap_wf: "get_mmap file = Inr (Some m) \<Longrightarrow> mapping_wf m"
proof -
  assume "get_mmap file = Inr (Some m)"
  then obtain lines where "rfold add_range lines [] = Inr m"
    by (auto simp: get_mmap_def rbind_Inr_conv split: option.splits)
  then show ?thesis
    by (rule rfold_invariant) (auto intro: add_range_wf mapping_wf_Nil)
qed

lemma filter_unique:
  assumes "distinct xs"
  shows "length (filter p xs) = 1 \<and> filter p xs ! 0 = r \<longleftrightarrow>
    r \<in> set xs \<and> p r \<and> (\<forall>x \<in> set xs. p x \<longrightarrow> x = r)"
proof -
  have "length (filter p xs) = 1 \<and> filter p xs ! 0 = r \<longleftrightarrow> filter p xs = [r]"
    by (auto simp: length_Suc_conv)
  also have "\<dots> \<longleftrightarrow> set (filter p xs) = {r}"
    using distinct_filter [OF assms, of p]
    by (metis distinct_card distinct_length_2_or_more empty_set insert_not_empty list.exhaust
        list.set_intros(1) list.simps(15) singletonD list.set_intros(2))
  also have "\<dots> \<longleftrightarrow> r \<in> set xs \<and> p r \<and> (\<forall>x \<in> set xs. p x \<longrightarrow> x = r)"
    by auto
  finally show ?thesis .
qed

lemma mapping_wf_distinct: "mapping_wf m \<Longrightarrow> distinct (map snd m)"
proof (induction m)
  case (Cons e m)
  have less: "addr_lt (fst e) (fst e')" if "e' \<in> set m" for e'
    using Cons.prems that by (auto simp: mapping_wf_def addr_key.omap_wf_Cons)
  have key: "fst e' = ar_start (snd e')" if "e' \<in> set (e # m)" for e'
    using Cons.prems that by (auto simp: mapping_wf_def)
  have "snd e \<notin> snd ` set m"
  proof
    assume "snd e \<in> snd ` set m"
    then obtain e' where "e' \<in> set m" "snd e' = snd e" by auto
    with less [of e'] key [of e] key [of e'] show False by (simp add: addr_key.lt_irrefl)
  qed
  with Cons show ?case by (auto simp: mapping_wf_def addr_key.omap_wf_Cons)
qed simp

lemma executable_empty [simp]: "executable r \<Longrightarrow> ar_permissions r \<noteq> []"
  by (auto simp: executable_def)

lemma parse_fields:
  assumes "hex_text sa" "hex_text ea" "word_text perms" "word_text off" "word_text dev"
    and "hex_text ino" "list_all (\<lambda>c. c = CHR '' '') pad"
    and "path = [] \<or> hd path \<noteq> CHR '' ''" "CHR 0x0A \<notin> set path"
  shows "parse_maps_line
      (sa @ ''-'' @ ea @ '' '' @ perms @ '' '' @ off @ '' '' @ dev @ '' '' @ ino @ '' '' @ pad @ path) =
    Inr \<lparr>ar_start = of_nat (hex_value sa), ar_length = of_nat (hex_value ea) - of_nat (hex_value sa),
         ar_permissions = perms, ar_path = path, ar_inode = of_nat (hex_value ino)\<rparr>"
proof -
  define s6 where "s6 = '' '' @ pad @ path"
  define s5 where "s5 = '' '' @ ino @ s6"
  define s4 where "s4 = '' '' @ dev @ s5"
  define s3 where "s3 = '' '' @ off @ s4"
  define s2 where "s2 = '' '' @ perms @ s3"
  have e1: "extract_hex (open_str (sa @ CHR ''-'' # ea @ s2)) =
      (Some (of_nat (hex_value sa)), open_str (CHR ''-'' # ea @ s2))"
    using extract_hex_at [OF assms(1), of "''-'' @ ea @ s2" "[]"] by (simp add: stops_hex_def)
  have e2: "extract_hex (open_str (ea @ s2)) = (Some (of_nat (hex_value ea)), open_str s2)"
    using extract_hex_at [OF assms(2), of s2 "[]"] by (simp add: stops_hex_def s2_def)
  have w1: "extract_word [] (open_str s2) = (perms, open_str s3)"
    using extract_word_at [OF assms(3), of "CHR '' ''" "'' ''" "[]" "off @ s4"]
    by (simp add: s2_def s3_def)
  have w2: "extract_word [] (open_str s3) = (off, open_str s4)"
    using extract_word_at [OF assms(4), of "CHR '' ''" "'' ''" "[]" "dev @ s5"]
    by (simp add: s3_def s4_def)
  have w3: "extract_word [] (open_str s4) = (dev, open_str s5)"
    using extract_word_at [OF assms(5), of "CHR '' ''" "'' ''" "[]" "ino @ s6"]
    by (simp add: s4_def s5_def)
  have e3: "extract_hex (open_str s5) = (Some (of_nat (hex_value ino)), open_str s6)"
    using extract_hex_at [OF assms(6), of s6 "'' ''"] by (simp add: s5_def s6_def stops_hex_def)
  have nl: "CHR 0x0A \<notin> set pad" using assms(7) by (induction pad) auto
  have "CHR 0x0A \<notin> set s6"
    using assms(9) nl by (simp add: s6_def)
  then have l: "fst (get_line [] (open_str s6)) = s6" by (rule get_line_at)
  have "dropWhile (\<lambda>c. c = CHR '' '') (pad @ path) = path"
    using assms(7,8) by (induction pad) (cases path; auto)+
  then have p: "dropWhile (\<lambda>c. c = CHR '' '') s6 = path" by (simp add: s6_def)
  obtain i where i: "get_line [] (open_str s6) = (s6, i)"
    using l by (cases "get_line [] (open_str s6)") simp
  have "parse_maps_line (sa @ ''-'' @ ea @ s2) =
    Inr \<lparr>ar_start = of_nat (hex_value sa), ar_length = of_nat (hex_value ea) - of_nat (hex_value sa),
         ar_permissions = perms, ar_path = path, ar_inode = of_nat (hex_value ino)\<rparr>"
    by (simp add: parse_maps_line_def e1 ignore1_at e2 w1 w2 w3 e3 i p)
  then show ?thesis
    by (simp only: s2_def s3_def s4_def s5_def s6_def append_assoc)
qed

text \<open>A line of a real maps file.\<close>

definition demo_line :: string where
  "demo_line = ''7f00-7f10 r-xp 00001000 08:01 1234    /lib/libsysfail.so''"

lemma demo_line_fields:
  "demo_line = ''7f00'' @ ''-'' @ ''7f10'' @ '' '' @ ''r-xp'' @ '' '' @ ''00001000'' @ '' '' @ ''08:01'' @ '' ''
     @ ''1234'' @ '' '' @ ''   '' @ ''/lib/libsysfail.so''"
  by (simp add: demo_line_def)

lemma demo_fields_ok:
  "hex_text ''7f00''" "hex_text ''7f10''" "word_text ''r-xp''" "word_text ''00001000''"
  "word_text ''08:01''" "hex_text ''1234''"
  by (simp_all add: hex_text_def word_text_def is_hex_def hex_digit_def is_space_def
      hex_value_def Let_def)

lemma demo_values:
  "hex_value ''7f00'' = 0x7f00" "hex_value ''7f10'' = 0x7f10" "hex_value ''1234'' = 0x1234"
  by (simp_all add: hex_value_def hex_digit_def Let_def)

lemma demo_parse:
  "parse_maps_line demo_line =
     Inr \<lparr>ar_start = 0x7f00, ar_length = 0x10, ar_permissions = ''r-xp'',
          ar_path = ''/lib/libsysfail.so'', ar_inode = 0x1234\<rparr>"
  using parse_fields [OF demo_fields_ok, of "''   ''" "''/lib/libsysfail.so''"]
  unfolding demo_line_fields by (simp add: demo_values)

section \<open>Properties\<close>

text \<open>
  A line in the format of the maps file is read as written: start and end in hexadecimal, the
  permissions, and the path without its padding. The number of the inode is read in hexadecimal
  too, whatever base it was written in.
\<close>

lemma parse_maps_line_fields:
  assumes "hex_text sa" "hex_text ea" "word_text perms" "word_text off" "word_text dev"
    and "hex_text ino" "list_all (\<lambda>c. c = CHR '' '') pad"
    and "path = [] \<or> hd path \<noteq> CHR '' ''" "CHR 0x0A \<notin> set path"
  shows "parse_maps_line
      (sa @ ''-'' @ ea @ '' '' @ perms @ '' '' @ off @ '' '' @ dev @ '' '' @ ino @ '' '' @ pad @ path) =
    Inr \<lparr>ar_start = of_nat (hex_value sa), ar_length = of_nat (hex_value ea) - of_nat (hex_value sa),
         ar_permissions = perms, ar_path = path, ar_inode = of_nat (hex_value ino)\<rparr>"
  using assms by (rule parse_fields)

text \<open>
  The inode of a mapping is written in decimal, but the stream still reads in hexadecimal: an
  inode written 1234 is stored as 4660.
\<close>

lemma inode_read_as_hex:
  "\<exists>r. parse_maps_line ''7f00-7f10 r-xp 00001000 08:01 1234 /a'' = Inr r \<and> ar_inode r = 4660"
  using parse_fields [OF demo_fields_ok, of "[]" "''/a''"] by (simp add: demo_values)

text \<open>
  C29. The library is recognised by its path: a directory part, then \<open>/libsysfail\<close>, then a version
  of dots and digits, then \<open>.so\<close> and another version, both versions possibly empty.
\<close>

theorem libsysfail_iff:
  "libsysfail r \<longleftrightarrow>
     (\<exists>dir v1 v2. ar_path r = dir @ ''/libsysfail'' @ v1 @ ''.so'' @ v2 \<and>
        (\<forall>c \<in> set dir. any_char c) \<and> (\<forall>c \<in> set v1. dot_digit c) \<and> (\<forall>c \<in> set v2. dot_digit c))"
proof -
  have "libsysfail r \<longleftrightarrow> mat soRegex (ar_path r)"
    by (simp add: libsysfail_def regex_match_mat)
  also have "\<dots> \<longleftrightarrow> (\<exists>dir v1 v2. ar_path r = dir @ ''/libsysfail'' @ v1 @ ''.so'' @ v2 \<and>
      (\<forall>c \<in> set dir. any_char c) \<and> (\<forall>c \<in> set v1. dot_digit c) \<and> (\<forall>c \<in> set v2. dot_digit c))"
    unfolding soRegex_def mat_Cat mat_lit mat_Rep_Cls mat_Rep_Rep1_Cls by blast
  finally show ?thesis .
qed

theorem libsysfail_iff_witness:
  "libsysfail \<lparr>ar_start = 0, ar_length = 0, ar_permissions = ''r-xp'', ar_path = ''/lib/libsysfail.so.1'', ar_inode = 0\<rparr>"
proof -
  have "dot_digit (CHR ''.'')" "dot_digit (CHR ''1'')" "\<forall>c \<in> set ''/lib''. any_char c"
    by (simp_all add: dot_digit_def in_range_def any_char_def)
  then show ?thesis
    unfolding libsysfail_iff
    by (intro exI [of _ "''/lib''"] exI [of _ "[]"] exI [of _ "''.1''"]) simp
qed

lemma demo_mmap:
  "get_mmap (Some [demo_line]) = Inr (Some [(0x7f00, \<lparr>ar_start = 0x7f00, ar_length = 0x10,
     ar_permissions = ''r-xp'', ar_path = ''/lib/libsysfail.so'', ar_inode = 0x1234\<rparr>)])"
  using demo_parse by (simp add: get_mmap_def add_range_def)

lemma demo_libsysfail:
  "libsysfail \<lparr>ar_start = 0x7f00, ar_length = 0x10, ar_permissions = ''r-xp'',
     ar_path = ''/lib/libsysfail.so'', ar_inode = 0x1234\<rparr>"
  by code_simp

lemma demo_self_text:
  "\<exists>m. get_mmap (Some [demo_line]) = Inr (Some m) \<and>
     self_text m = Inr \<lparr>ar_start = 0x7f00, ar_length = 0x10, ar_permissions = ''r-xp'',
       ar_path = ''/lib/libsysfail.so'', ar_inode = 0x1234\<rparr>"
  using demo_mmap demo_libsysfail by (simp add: self_text_def executable_def guard_def)

text \<open>
  The library finds its own text: in a map that was read from a file, \<open>self_text\<close> returns a
  range exactly when it is the only executable range of the library; in every other case its
  assertion fails.
\<close>

lemma self_text_unique:
  assumes "get_mmap file = Inr (Some m)"
  shows "(self_text m = Inr r \<longleftrightarrow>
      r \<in> snd ` set m \<and> executable r \<and> libsysfail r \<and>
      (\<forall>r' \<in> snd ` set m. executable r' \<and> libsysfail r' \<longrightarrow> r' = r)) \<and>
    (\<forall>e. self_text m = Inl e \<longrightarrow> e = Assert_failed ''mappings.size() == 1'')"
proof -
  let ?own = "\<lambda>info. executable info \<and> libsysfail info"
  have "distinct (map snd m)"
    using get_mmap_wf [OF assms] by (rule mapping_wf_distinct)
  from filter_unique [OF this, of ?own r]
  have "self_text m = Inr r \<longleftrightarrow> r \<in> set (map snd m) \<and> ?own r \<and> (\<forall>x \<in> set (map snd m). ?own x \<longrightarrow> x = r)"
    by (auto simp: self_text_def rbind_Inr_conv Let_def)
  moreover have "e = Assert_failed ''mappings.size() == 1''" if "self_text m = Inl e" for e
    using that by (auto simp: self_text_def rbind_Inl_conv Let_def guard_def split: if_splits)
  ultimately show ?thesis by auto
qed

end
