(* ===== verification/Signals.thy ===== *)
theory Signals
  imports Containers
begin

text \<open>
  \<open>src/signal.hh\<close>, \<open>src/signal.cc\<close> and \<open>unmask_sigsys\<close> of \<open>src/session.cc\<close>: the signal
  dispositions of the process, the installation of the library's handlers, and the sending of a
  signal with a value to a thread.
\<close>

section \<open>Dispositions\<close>

text \<open>\<open>Other\<close> stands for the handlers the application installed, by number.\<close>

datatype hdlr =
    Default
  | Other nat
  | Handle_sigsys
  | Reenable_sysfail
  | Enable_sysfail
  | Disable_sysfail

record sigact =
  sa_sigaction :: hdlr
  sa_mask :: "int \<Rightarrow> bool"
  sa_flags :: u64

type_synonym sigtab = "int \<Rightarrow> sigact"

definition SIGSYS :: int where "SIGSYS = 31"
definition SIGKILL :: int where "SIGKILL = 9"
definition SIGSTOP :: int where "SIGSTOP = 19"
definition NSIG :: int where "NSIG = 65"
definition SIG_ENABLE :: int where "SIG_ENABLE = 34 + 4"
definition SIG_DISABLE :: int where "SIG_DISABLE = 34 + 5"
definition SIG_REARM :: int where "SIG_REARM = 34 + 6"

lemmas signal_numbers = SIGSYS_def SIGKILL_def SIGSTOP_def NSIG_def SIG_ENABLE_def
  SIG_DISABLE_def SIG_REARM_def

text \<open>\<open>SA_SIGINFO | SA_NODEFER | SA_ONSTACK\<close>\<close>

definition hdlr_flags :: u64 where
  "hdlr_flags = 0x4 + 0x40000000 + 0x08000000"

text \<open>
  \<open>sig_ok\<close> says for which signals \<open>sigaction\<close> succeeds; it is a parameter because the C library
  keeps some signals for itself. A failure is logged and the loop goes on: reading and writing the
  disposition of a signal fail alike, so nothing changes.
\<close>

definition unmask_sigsys :: "(int \<Rightarrow> bool) \<Rightarrow> int \<Rightarrow> sigtab \<Rightarrow> sigtab" where
  "unmask_sigsys sig_ok signum tab =
     (if \<not> sig_ok signum then tab
      else tab(signum := (tab signum)\<lparr>sa_mask := (sa_mask (tab signum))(SIGSYS := False)\<rparr>))"

definition enable_handler :: "(int \<Rightarrow> bool) \<Rightarrow> int \<Rightarrow> hdlr \<Rightarrow> sigtab \<Rightarrow> sigtab result" where
  "enable_handler sig_ok signal h tab =
     (if \<not> sig_ok signal then Inl (Throw (Runtime_error ''Failed to set new sigaction''))
      else Inr (tab(signal :=
        \<lparr>sa_sigaction = h, sa_mask = (\<lambda>_. False), sa_flags = hdlr_flags\<rparr>)))"

text \<open>The loop over the signals and the four installations of the constructor of \<open>ActiveSession\<close>.\<close>

definition unmask_all :: "(int \<Rightarrow> bool) \<Rightarrow> sigtab \<Rightarrow> sigtab" where
  "unmask_all sig_ok tab =
     fold (\<lambda>i. if i = SIGKILL \<or> i = SIGSTOP then id else unmask_sigsys sig_ok i)
       [1..NSIG - 1] tab"

definition install_handlers :: "(int \<Rightarrow> bool) \<Rightarrow> sigtab \<Rightarrow> sigtab result" where
  "install_handlers sig_ok tab =
     rbind (enable_handler sig_ok SIGSYS Handle_sigsys (unmask_all sig_ok tab)) (\<lambda>tab.
     rbind (enable_handler sig_ok SIG_REARM Reenable_sysfail tab) (\<lambda>tab.
     rbind (enable_handler sig_ok SIG_ENABLE Enable_sysfail tab) (\<lambda>tab.
     enable_handler sig_ok SIG_DISABLE Disable_sysfail tab)))"

section \<open>Sending\<close>

definition ESRCH :: int where
  "ESRCH = 3"

text \<open>
  \<open>ret\<close> is the answer of \<open>rt_tgsigqueueinfo\<close>. The result says whether the signal is queued; when
  the thread does not exist the callback is applied to the value, if there is one.
\<close>

definition send_signal :: "int \<Rightarrow> ('s \<Rightarrow> 's result) option \<Rightarrow> 's \<Rightarrow> (bool \<times> 's) result" where
  "send_signal ret on_esrch t =
     (if ret < 0 \<and> ret = - ESRCH
      then (case on_esrch of None \<Rightarrow> Inr (False, t)
            | Some f \<Rightarrow> rbind (f t) (\<lambda>t. Inr (False, t)))
      else rbind (guard (ret = 0) ''ret == 0'') (\<lambda>_. Inr (True, t)))"

section \<open>Lemmas\<close>

lemma fold_unmask:
  "sa_mask (fold (\<lambda>i. if i = SIGKILL \<or> i = SIGSTOP then id else unmask_sigsys ok i) is tab j) x \<longleftrightarrow>
     sa_mask (tab j) x \<and> \<not> (x = SIGSYS \<and> j \<in> set is \<and> j \<noteq> SIGKILL \<and> j \<noteq> SIGSTOP \<and> ok j)"
proof (induction "is" arbitrary: tab)
  case (Cons i "is")
  show ?case by (simp add: Cons) (auto simp: unmask_sigsys_def)
qed simp

lemma fold_unmask_action:
  "sa_sigaction (fold (\<lambda>i. if i = SIGKILL \<or> i = SIGSTOP then id else unmask_sigsys ok i) is tab j) =
     sa_sigaction (tab j)"
proof (induction "is" arbitrary: tab)
  case (Cons i "is")
  show ?case by (simp add: Cons) (auto simp: unmask_sigsys_def)
qed simp

lemma unmask_all_mask:
  "sa_mask (unmask_all ok tab j) x \<longleftrightarrow>
     sa_mask (tab j) x \<and> \<not> (x = SIGSYS \<and> j \<in> {1..64} \<and> j \<noteq> SIGKILL \<and> j \<noteq> SIGSTOP \<and> ok j)"
  unfolding unmask_all_def fold_unmask by (simp add: NSIG_def)

lemma unmask_all_action: "sa_sigaction (unmask_all ok tab j) = sa_sigaction (tab j)"
  unfolding unmask_all_def by (rule fold_unmask_action)

lemma send_signal_esrch: "send_signal (- ESRCH) (Some f) t = rbind (f t) (\<lambda>t. Inr (False, t))"
  by (simp add: send_signal_def ESRCH_def)

lemma send_signal_0: "send_signal 0 f t = Inr (True, t)"
  by (simp add: send_signal_def)

lemma send_signal_Inr:
  assumes "send_signal ret (Some f) t = Inr (q, t')"
  shows "(q \<and> ret = 0 \<and> t' = t) \<or> (\<not> q \<and> ret = - ESRCH \<and> f t = Inr t')"
  using assms
  by (auto simp: send_signal_def rbind_Inr_conv split: if_splits)

section \<open>Properties\<close>

text \<open>
  After the constructor of a session has set up the signals, the four signals of the library
  run its handlers with nothing blocked, no handler of the process blocks \<open>SIGSYS\<close> (for every
  signal whose disposition can be set), and every other signal keeps the handler it had.
\<close>

lemma install_handlers_unblocks:
  assumes "install_handlers sig_ok tab = Inr tab'"
  shows "sa_sigaction (tab' SIGSYS) = Handle_sigsys \<and> sa_sigaction (tab' SIG_REARM) = Reenable_sysfail \<and>
    sa_sigaction (tab' SIG_ENABLE) = Enable_sysfail \<and> sa_sigaction (tab' SIG_DISABLE) = Disable_sysfail \<and>
    (\<forall>s \<in> {SIGSYS, SIG_REARM, SIG_ENABLE, SIG_DISABLE}. \<forall>x. \<not> sa_mask (tab' s) x) \<and>
    (\<forall>s \<in> {1..64}. s \<noteq> SIGKILL \<and> s \<noteq> SIGSTOP \<and> sig_ok s \<longrightarrow> \<not> sa_mask (tab' s) SIGSYS) \<and>
    (\<forall>s. s \<notin> {SIGSYS, SIG_REARM, SIG_ENABLE, SIG_DISABLE} \<longrightarrow>
       sa_sigaction (tab' s) = sa_sigaction (tab s))"
proof -
  from assms have tab': "tab' = (unmask_all sig_ok tab)
      (SIGSYS := \<lparr>sa_sigaction = Handle_sigsys, sa_mask = (\<lambda>_. False), sa_flags = hdlr_flags\<rparr>,
       SIG_REARM := \<lparr>sa_sigaction = Reenable_sysfail, sa_mask = (\<lambda>_. False), sa_flags = hdlr_flags\<rparr>,
       SIG_ENABLE := \<lparr>sa_sigaction = Enable_sysfail, sa_mask = (\<lambda>_. False), sa_flags = hdlr_flags\<rparr>,
       SIG_DISABLE := \<lparr>sa_sigaction = Disable_sysfail, sa_mask = (\<lambda>_. False), sa_flags = hdlr_flags\<rparr>)"
    by (auto simp: install_handlers_def enable_handler_def rbind_Inr_conv split: if_splits)
  show ?thesis unfolding tab'
    by (auto simp: unmask_all_mask unmask_all_action signal_numbers)
qed

end
