(* ===== verification/Thd_Mon.thy ===== *)
theory Thd_Mon
  imports Plan Istream
begin

text \<open>
  \<open>src/thdmon.hh\<close> and \<open>src/thdmon.cc\<close>: the thread monitor. It lists the threads of the process,
  compares them with the ones it knows by means of a generation counter, and reports new and
  terminated threads to a handler. The handler is a parameter, a fallible function on a state of
  its own; what the monitor needs of it is the locale \<open>evt_handler\<close>, and what a scan then does
  is proved from that. The directory listings a scan sees are parameters too.
\<close>

datatype disc_thd_st = Self | Existing | Spawned | Terminated

type_synonym 's handler = "pid \<Rightarrow> disc_thd_st \<Rightarrow> 's \<Rightarrow> 's result"

record thdmon =
  tm_poll :: bool  \<comment> \<open>\<open>poller_thd.joinable()\<close>\<close>
  tm_itvl :: u64
  tm_init :: nat  \<comment> \<open>the semaphore \<open>poll_initialized\<close>\<close>
  tm_stop :: bool
  tm_gen :: i32
  tm_known :: "(pid, i32) table"

section \<open>Reading a thread id\<close>

definition dec_digit :: "char \<Rightarrow> bool" where
  "dec_digit c = (0x30 \<le> (of_char c :: nat) \<and> (of_char c :: nat) \<le> 0x39)"

definition dec_value :: "string \<Rightarrow> int" where
  "dec_value ds = foldl (\<lambda>a c. 10 * a + (int (of_char c) - 0x30)) 0 ds"

text \<open>\<open>std::stoi\<close>: white space, a sign, digits; what follows is ignored.\<close>

definition stoi :: "string \<Rightarrow> int result" where
  "stoi s =
     (case scan_sign (dropWhile is_space s) of (neg, s) \<Rightarrow>
       let ds = takeWhile dec_digit s; v = (if neg then - dec_value ds else dec_value ds) in
       if ds = [] then Inl (Throw (Invalid_argument ''stoi''))
       else if v < - (2 ^ 31) \<or> 2 ^ 31 \<le> v then Inl (Throw (Out_of_range ''stoi''))
       else Inr v)"

section \<open>Scanning\<close>

definition visit_entry :: "'s handler \<Rightarrow> string \<Rightarrow> thdmon \<times> 's \<Rightarrow> (thdmon \<times> 's) result" where
  "visit_entry h name = (\<lambda>(tm, s).
     rbind (stoi name) (\<lambda>tid.
     case tab_find (tm_known tm) tid of
       None \<Rightarrow>
         rbind (h tid (if tm_gen tm = 0 then Existing else Spawned) s) (\<lambda>s.
         Inr (tm\<lparr>tm_known := tab_insert tid (tm_gen tm) (tm_known tm)\<rparr>, s))
     | Some _ \<Rightarrow> Inr (tm\<lparr>tm_known := tab_update tid (tm_gen tm) (tm_known tm)\<rparr>, s)))"

definition to_remove :: "thdmon \<Rightarrow> pid list" where
  "to_remove tm = map fst (filter (\<lambda>(tid, g). g < tm_gen tm) (tm_known tm))"

definition drop_entry :: "'s handler \<Rightarrow> pid \<Rightarrow> thdmon \<times> 's \<Rightarrow> (thdmon \<times> 's) result" where
  "drop_entry h tid = (\<lambda>(tm, s).
     rbind (h tid Terminated s) (\<lambda>s.
     Inr (tm\<lparr>tm_known := tab_erase tid (tm_known tm)\<rparr>, s)))"

definition scan_tasks :: "'s handler \<Rightarrow> string list \<Rightarrow> thdmon \<times> 's \<Rightarrow> (thdmon \<times> 's) result" where
  "scan_tasks h names ts =
     rbind (rfold (visit_entry h) names ts) (\<lambda>(tm, s).
     rfold (drop_entry h) (to_remove tm) (tm, s))"

definition rescan_threads :: "'s handler \<Rightarrow> string list \<Rightarrow> thdmon \<times> 's \<Rightarrow> (thdmon \<times> 's) result" where
  "rescan_threads h names = (\<lambda>(tm, s).
     if tm_poll tm then scan_tasks h names (tm\<lparr>tm_gen := tm_gen tm + 1\<rparr>, s)
     else scan_tasks h names (tm, s))"

section \<open>The polling thread\<close>

text \<open>
  One turn of the loop: the listing it scans, the listings of the rescans other threads make while
  the poller waits without the lock, and whether it finds the stop flag set when it wakes up.
\<close>

record turn =
  tu_names :: "string list"
  tu_rescans :: "string list list"
  tu_stop :: bool

definition poll_turn :: "'s handler \<Rightarrow> turn \<Rightarrow> thdmon \<times> 's \<Rightarrow> (thdmon \<times> 's) result" where
  "poll_turn h tu ts =
     rbind (scan_tasks h (tu_names tu) ts) (\<lambda>(tm, s).
     rbind (if tm_gen tm = 0
            then rbind (guard (tm_init tm = 0) ''binary_semaphore: release'')
                   (\<lambda>_. Inr (tm\<lparr>tm_init := 1\<rparr>))
            else Inr tm) (\<lambda>tm.
     rfold (rescan_threads h) (tu_rescans tu) (tm, s)))"

fun process_loop :: "'s handler \<Rightarrow> turn list \<Rightarrow> thdmon \<times> 's \<Rightarrow> (thdmon \<times> 's) result" where
  "process_loop h [] ts = Inr ts"
| "process_loop h (tu # tus) ts =
     rbind (poll_turn h tu ts) (\<lambda>(tm, s).
     let ts = (tm\<lparr>tm_gen := tm_gen tm + 1\<rparr>, s) in
     if tu_stop tu then Inr ts else process_loop h tus ts)"

definition process_start :: "'s handler \<Rightarrow> pid \<Rightarrow> thdmon \<times> 's \<Rightarrow> (thdmon \<times> 's) result" where
  "process_start h self = (\<lambda>(tm, s).
     let tm = tm\<lparr>tm_known := tab_insert self (tm_gen tm) (tm_known tm)\<rparr> in
     rbind (h self Self s) (\<lambda>s. Inr (tm, s)))"

definition process :: "'s handler \<Rightarrow> pid \<Rightarrow> turn list \<Rightarrow> thdmon \<times> 's \<Rightarrow> (thdmon \<times> 's) result" where
  "process h self tus ts = rbind (process_start h self ts) (process_loop h tus)"

section \<open>Construction and destruction\<close>

definition thdmon0 :: thdmon where
  "thdmon0 = \<lparr>tm_poll = False, tm_itvl = 0, tm_init = 0, tm_stop = False, tm_gen = 0, tm_known = []\<rparr>"

text \<open>
  \<open>exists\<close> says whether the task directory exists, \<open>self\<close> is the id of the polling thread, and
  \<open>tus\<close> are the turns it makes until the constructor, waiting for the first scan, goes on.
\<close>

definition ThdMon ::
    "strategy \<Rightarrow> 's handler \<Rightarrow> bool \<Rightarrow> pid \<Rightarrow> turn list \<Rightarrow> string list \<Rightarrow> 's \<Rightarrow> (thdmon \<times> 's) result" where
  "ThdMon config h exists self tus names s =
     (if \<not> exists then Inl (Throw (Runtime_error ''Couldn't find process' task-dir''))
      else case config of
        ProcPoll itvl \<Rightarrow>
          rbind (process h self tus (thdmon0\<lparr>tm_poll := True, tm_itvl := itvl\<rparr>, s)) (\<lambda>(tm, s).
          if tm_init tm = 0 then Inl Blocked else Inr (tm\<lparr>tm_init := 0\<rparr>, s))
      | NoDiscovery \<Rightarrow> scan_tasks h names (thdmon0, s))"

text \<open>The destructor sets the flag and joins the poller, which is then no longer joinable.\<close>

definition ThdMon_destroy :: "thdmon \<Rightarrow> thdmon" where
  "ThdMon_destroy tm = (if tm_poll tm then tm\<lparr>tm_stop := True, tm_poll := False\<rparr> else tm)"

section \<open>The contract of a handler\<close>

text \<open>The threads watched after an event, when \<open>p\<close> accepts threads.\<close>

fun track_set :: "(pid \<Rightarrow> bool) \<Rightarrow> pid \<Rightarrow> disc_thd_st \<Rightarrow> pid set \<Rightarrow> pid set" where
  "track_set p tid Existing T = (if p tid then insert tid T else T)"
| "track_set p tid Spawned T = (if p tid then insert tid T else T)"
| "track_set p tid Terminated T = T - {tid}"
| "track_set p tid Self T = T"

definition known :: "thdmon \<Rightarrow> pid set" where
  "known tm = fst ` set (tm_known tm)"

text \<open>No known thread has a generation of the future.\<close>

definition mon_ok :: "thdmon \<Rightarrow> bool" where
  "mon_ok tm = (tab_wf (tm_known tm) \<and> (\<forall>tid g. tab_find (tm_known tm) tid = Some g \<longrightarrow> g \<le> tm_gen tm))"

text \<open>A listing whose names are thread ids.\<close>

definition lists :: "string list \<Rightarrow> pid list \<Rightarrow> bool" where
  "lists names tids = (map stoi names = map Inr tids)"

text \<open>The listings of a turn, in order, and the scans of several turns.\<close>

definition listings :: "turn \<Rightarrow> string list list" where
  "listings tu = tu_names tu # tu_rescans tu"

definition scans :: "turn list \<Rightarrow> nat" where
  "scans tus = (\<Sum>tu \<leftarrow> tus. length (listings tu))"

lemma known_iff: "tid \<in> known tm \<longleftrightarrow> tab_find (tm_known tm) tid \<noteq> None"
  by (simp add: known_def tab_find_None)

lemma lists_simps [simp]:
  "lists [] tids \<longleftrightarrow> tids = []"
  "lists (n # ns) tids \<longleftrightarrow> (\<exists>t ts. tids = t # ts \<and> stoi n = Inr t \<and> lists ns ts)"
  by (auto simp: lists_def Cons_eq_map_conv)

lemma set_to_remove:
  "tab_wf (tm_known tm) \<Longrightarrow>
   set (to_remove tm) = {tid. \<exists>g. tab_find (tm_known tm) tid = Some g \<and> g < tm_gen tm}"
  by (auto simp: to_remove_def tab_find_set image_iff)

text \<open>
  Monitor and handler agree: the watched threads are the known ones that the handler accepts, but
  for a set of threads that are known without being watched (the poller itself).
\<close>

definition in_step :: "pid set \<Rightarrow> thdmon \<Rightarrow> pid set \<Rightarrow> (pid \<Rightarrow> bool) \<Rightarrow> bool" where
  "in_step ex tm T p = (ex \<subseteq> known tm \<and> T = {t \<in> known tm. p t \<and> t \<notin> ex})"

lemma known_eq: "(\<And>t. tab_find (tm_known tm) t = (if t \<in> T then Some g else None)) \<Longrightarrow> known tm = T"
  by (auto simp: known_iff split: if_splits)

lemma lists_unique: "lists names tids \<Longrightarrow> lists names tids' \<Longrightarrow> tids = tids'"
  by (simp add: lists_def map_inj_on [of Inr])

lemma unat_gen_Suc: "unat g + 1 < 2 ^ 32 \<Longrightarrow> unat (g + 1 :: i32) = unat g + 1"
  by (simp add: unat_word_ariths)

lemma gen_less_Suc: "unat g + 1 < 2 ^ 32 \<Longrightarrow> g < (g + 1 :: i32)"
  using unat_gen_Suc [of g] by (simp add: word_less_nat_alt)

locale evt_handler =
  fixes h :: "'s handler"
    and inv :: "'s \<Rightarrow> bool"
    and watch :: "'s \<Rightarrow> pid set"
    and sel :: "'s \<Rightarrow> pid \<Rightarrow> bool"
  assumes h_track: "inv s \<Longrightarrow>
      \<exists>s'. h tid st s = Inr s' \<and> inv s' \<and> watch s' = track_set (sel s) tid st (watch s) \<and> sel s' = sel s"
begin

lemma visit_entry_ok:
  assumes "inv s" "stoi name = Inr tid"
  shows "\<exists>s'. visit_entry h name (tm, s) =
      Inr (tm\<lparr>tm_known := tab_update tid (tm_gen tm) (tab_insert tid (tm_gen tm) (tm_known tm))\<rparr>, s') \<and>
    inv s' \<and> sel s' = sel s \<and>
    watch s' = watch s \<union> (if tid \<notin> known tm \<and> sel s tid then {tid} else {})"
proof (cases "tab_find (tm_known tm) tid")
  case None
  let ?st = "if tm_gen tm = 0 then Existing else Spawned"
  obtain s' where "h tid ?st s = Inr s'" "inv s'" "sel s' = sel s"
      "watch s' = track_set (sel s) tid ?st (watch s)"
    using h_track [OF assms(1), of tid ?st] by blast
  with None assms(2) show ?thesis
    by (auto simp: visit_entry_def known_iff tab_update_insert split: if_splits)
next
  case (Some g)
  then have "tab_insert tid (tm_gen tm) (tm_known tm) = tm_known tm"
    by (metis tab_find_None tab_insert_def option.distinct(1))
  with Some assms show ?thesis by (auto simp: visit_entry_def known_iff)
qed

lemma visit_all_ok:
  assumes "inv s" "lists names tids" "tab_wf (tm_known tm)"
  shows "\<exists>tm' s'. rfold (visit_entry h) names (tm, s) = Inr (tm', s') \<and> inv s' \<and> sel s' = sel s \<and>
    tm' = tm\<lparr>tm_known := tm_known tm'\<rparr> \<and> tab_wf (tm_known tm') \<and>
    (\<forall>t. tab_find (tm_known tm') t =
       (if t \<in> set tids then Some (tm_gen tm) else tab_find (tm_known tm) t)) \<and>
    watch s' = watch s \<union> {t \<in> set tids. t \<notin> known tm \<and> sel s t}"
  using assms
proof (induction names arbitrary: tids tm s)
  case Nil
  then show ?case by auto
next
  case (Cons name names)
  from Cons.prems(2) obtain t ts where t: "tids = t # ts" "stoi name = Inr t" "lists names ts"
    by auto
  let ?tm = "tm\<lparr>tm_known := tab_update t (tm_gen tm) (tab_insert t (tm_gen tm) (tm_known tm))\<rparr>"
  from visit_entry_ok [OF Cons.prems(1) t(2), of tm] obtain s1 where
    s1: "visit_entry h name (tm, s) = Inr (?tm, s1)" "inv s1" "sel s1 = sel s"
      "watch s1 = watch s \<union> (if t \<notin> known tm \<and> sel s t then {t} else {})"
    by blast
  have find1: "tab_find (tm_known ?tm) u = (if u = t then Some (tm_gen tm) else tab_find (tm_known tm) u)" for u
    by auto
  have known1: "known ?tm = insert t (known tm)"
    using find1 by (auto simp: known_iff set_eq_iff simp del: thdmon.simps)
  have "tab_wf (tm_known ?tm)" using Cons.prems(3) by simp
  from Cons.IH [OF s1(2) t(3) this] obtain tm2 s2 where
    "rfold (visit_entry h) names (?tm, s1) = Inr (tm2, s2)" "inv s2" "sel s2 = sel s1"
    "tm2 = ?tm\<lparr>tm_known := tm_known tm2\<rparr>" "tab_wf (tm_known tm2)"
    "\<forall>u. tab_find (tm_known tm2) u =
       (if u \<in> set ts then Some (tm_gen ?tm) else tab_find (tm_known ?tm) u)"
    "watch s2 = watch s1 \<union> {u \<in> set ts. u \<notin> known ?tm \<and> sel s1 u}"
    by blast
  with s1 find1 known1 t(1) show ?case
    by (intro exI [of _ tm2] exI [of _ s2]) auto
qed

lemma drop_all_ok:
  assumes "inv s"
  shows "\<exists>s'. rfold (drop_entry h) tids (tm, s) = Inr (tm\<lparr>tm_known := fold tab_erase tids (tm_known tm)\<rparr>, s') \<and>
    inv s' \<and> sel s' = sel s \<and> watch s' = watch s - set tids"
  using assms
proof (induction tids arbitrary: tm s)
  case (Cons t tids)
  obtain s1 where s1: "h t Terminated s = Inr s1" "inv s1" "sel s1 = sel s" "watch s1 = watch s - {t}"
    using h_track [OF Cons.prems, of t Terminated] by auto
  from Cons.IH [OF s1(2), of "tm\<lparr>tm_known := tab_erase t (tm_known tm)\<rparr>"] s1
  show ?case by (auto simp: drop_entry_def)
qed simp

text \<open>
  A scan keeps the known threads that are listed or were already seen in this generation, and
  reports the listed unknown ones as new and the others as terminated.
\<close>

lemma scan_tasks_ok:
  assumes "inv s" "lists names tids" "mon_ok tm"
  shows "\<exists>tm' s'. scan_tasks h names (tm, s) = Inr (tm', s') \<and> inv s' \<and> sel s' = sel s \<and>
    tm' = tm\<lparr>tm_known := tm_known tm'\<rparr> \<and> mon_ok tm' \<and>
    (\<forall>t. tab_find (tm_known tm') t =
       (if t \<in> set tids \<or> tab_find (tm_known tm) t = Some (tm_gen tm) then Some (tm_gen tm) else None)) \<and>
    watch s' = watch s \<union> {t \<in> set tids. t \<notin> known tm \<and> sel s t} -
      {t \<in> known tm. t \<notin> set tids \<and> tab_find (tm_known tm) t \<noteq> Some (tm_gen tm)}"
proof -
  have wf: "tab_wf (tm_known tm)" and gens: "\<And>t g. tab_find (tm_known tm) t = Some g \<Longrightarrow> g \<le> tm_gen tm"
    using assms(3) by (auto simp: mon_ok_def)
  from visit_all_ok [OF assms(1,2) wf] obtain tm1 s1 where
    v: "rfold (visit_entry h) names (tm, s) = Inr (tm1, s1)" "inv s1" "sel s1 = sel s"
      "tm1 = tm\<lparr>tm_known := tm_known tm1\<rparr>" "tab_wf (tm_known tm1)"
      "\<And>t. tab_find (tm_known tm1) t =
        (if t \<in> set tids then Some (tm_gen tm) else tab_find (tm_known tm) t)"
      "watch s1 = watch s \<union> {t \<in> set tids. t \<notin> known tm \<and> sel s t}"
    by blast
  have gen: "tm_gen tm1 = tm_gen tm" by (subst v(4)) simp
  let ?gone = "{t \<in> known tm. t \<notin> set tids \<and> tab_find (tm_known tm) t \<noteq> Some (tm_gen tm)}"
  have gone: "set (to_remove tm1) = ?gone"
    using gens by (auto simp: set_to_remove [OF v(5)] v(6) gen known_iff order.strict_iff_order split: if_splits)
  let ?tm = "tm1\<lparr>tm_known := fold tab_erase (to_remove tm1) (tm_known tm1)\<rparr>"
  from drop_all_ok [OF v(2), of "to_remove tm1" tm1] obtain s2 where
    d: "rfold (drop_entry h) (to_remove tm1) (tm1, s1) = Inr (?tm, s2)" "inv s2" "sel s2 = sel s1"
      "watch s2 = watch s1 - ?gone"
    unfolding gone by blast
  have find: "tab_find (tm_known ?tm) t =
      (if t \<in> set tids \<or> tab_find (tm_known tm) t = Some (tm_gen tm) then Some (tm_gen tm) else None)" for t
    using v(6) by (auto simp: tab.look_fold_era [OF v(5)] gone known_iff)
  have "mon_ok ?tm"
    using tab.ok_fold_era [OF v(5)] find by (auto simp: mon_ok_def gen split: if_splits)
  moreover have "?tm = tm\<lparr>tm_known := tm_known ?tm\<rparr>" by (subst v(4)) simp
  ultimately show ?thesis
    using v(1,3,7) d find by (intro exI [of _ ?tm] exI [of _ s2]) (auto simp: scan_tasks_def)
qed

text \<open>
  A scan in a generation newer than every known thread, but for exempt ones, brings monitor and
  handler in step with the listing.
\<close>

lemma scan_in_step:
  assumes "inv s" "lists names tids" "mon_ok tm"
    and new: "\<And>t. tab_find (tm_known tm) t = Some (tm_gen tm) \<Longrightarrow> t \<in> ex"
    and "in_step ex tm (watch s) (sel s)" "ex \<subseteq> set tids"
  shows "\<exists>tm' s'. scan_tasks h names (tm, s) = Inr (tm', s') \<and> inv s' \<and> sel s' = sel s \<and>
    tm' = tm\<lparr>tm_known := tm_known tm'\<rparr> \<and> mon_ok tm' \<and> known tm' = set tids \<and>
    in_step ex tm' (watch s') (sel s')"
proof -
  from scan_tasks_ok [OF assms(1-3)] obtain tm' s' where
    r: "scan_tasks h names (tm, s) = Inr (tm', s')" "inv s'" "sel s' = sel s"
      "tm' = tm\<lparr>tm_known := tm_known tm'\<rparr>" "mon_ok tm'"
      "\<And>t. tab_find (tm_known tm') t =
        (if t \<in> set tids \<or> tab_find (tm_known tm) t = Some (tm_gen tm) then Some (tm_gen tm) else None)"
      "watch s' = watch s \<union> {t \<in> set tids. t \<notin> known tm \<and> sel s t} -
        {t \<in> known tm. t \<notin> set tids \<and> tab_find (tm_known tm) t \<noteq> Some (tm_gen tm)}"
    by blast
  have k: "known tm' = set tids"
    by (rule known_eq [of _ _ "tm_gen tm"]) (use new assms(6) r(6) in auto)
  have "watch s' = {t \<in> set tids. sel s t \<and> t \<notin> ex}"
    using new assms(5,6) by (auto simp: r(7) in_step_def)
  then have "in_step ex tm' (watch s') (sel s')" using assms(6) by (simp add: in_step_def k r(3))
  with r k show ?thesis by blast
qed

text \<open>In the polling mode a rescan starts a new generation, until the counter wraps.\<close>

lemma rescan_in_step:
  assumes "inv s" "lists names tids" "mon_ok tm" "tm_poll tm" "unat (tm_gen tm) + 1 < 2 ^ 32"
    and "in_step ex tm (watch s) (sel s)" "ex \<subseteq> set tids"
  shows "\<exists>tm' s'. rescan_threads h names (tm, s) = Inr (tm', s') \<and> inv s' \<and> sel s' = sel s \<and>
    tm' = tm\<lparr>tm_gen := tm_gen tm + 1, tm_known := tm_known tm'\<rparr> \<and> mon_ok tm' \<and>
    known tm' = set tids \<and> in_step ex tm' (watch s') (sel s')"
proof -
  let ?tm = "tm\<lparr>tm_gen := tm_gen tm + 1\<rparr>"
  have lt: "tm_gen tm < tm_gen tm + 1" by (rule gen_less_Suc [OF assms(5)])
  then have new: "tab_find (tm_known ?tm) t \<noteq> Some (tm_gen ?tm)" for t
    using assms(3) by (auto simp: mon_ok_def dest: leD)
  have "mon_ok ?tm"
    using assms(3) order.trans [OF _ less_imp_le [OF lt]] by (auto simp: mon_ok_def)
  moreover have "in_step ex ?tm (watch s) (sel s)" using assms(6) by (simp add: in_step_def known_def)
  ultimately have "\<exists>tm' s'. scan_tasks h names (?tm, s) = Inr (tm', s') \<and> inv s' \<and> sel s' = sel s \<and>
      tm' = ?tm\<lparr>tm_known := tm_known tm'\<rparr> \<and> mon_ok tm' \<and> known tm' = set tids \<and>
      in_step ex tm' (watch s') (sel s')"
    using new assms by (intro scan_in_step) auto
  then show ?thesis using assms(4) by (simp add: rescan_threads_def)
qed

text \<open>The monitor between scans, with the generation it has reached.\<close>

definition waits :: "pid set \<Rightarrow> nat \<Rightarrow> thdmon \<Rightarrow> 's \<Rightarrow> bool" where
  "waits ex n tm s =
     (inv s \<and> mon_ok tm \<and> tm_poll tm \<and> unat (tm_gen tm) = n \<and> in_step ex tm (watch s) (sel s))"

lemma rescans_ok:
  assumes "waits ex n tm s" "\<forall>names \<in> set nss. \<exists>tids. lists names tids \<and> ex \<subseteq> set tids"
    and "n + length nss < 2 ^ 32"
  shows "\<exists>tm' s'. rfold (rescan_threads h) nss (tm, s) = Inr (tm', s') \<and> waits ex (n + length nss) tm' s' \<and>
    sel s' = sel s \<and> tm_init tm' = tm_init tm \<and> (nss = [] \<longrightarrow> known tm' = known tm) \<and>
    (\<forall>tids. nss \<noteq> [] \<longrightarrow> lists (last nss) tids \<longrightarrow> known tm' = set tids)"
  using assms
proof (induction nss arbitrary: n tm s)
  case Nil
  then show ?case by auto
next
  case (Cons names nss)
  obtain tids where tids: "lists names tids" "ex \<subseteq> set tids" using Cons.prems(2) by auto
  have w: "inv s" "mon_ok tm" "tm_poll tm" "in_step ex tm (watch s) (sel s)" and n: "unat (tm_gen tm) = n"
    using Cons.prems(1) by (auto simp: waits_def)
  have b: "unat (tm_gen tm) + 1 < 2 ^ 32" using Cons.prems(3) n by simp
  from rescan_in_step [OF w(1) tids(1) w(2,3) b w(4) tids(2)] obtain tm1 s1 where
    r: "rescan_threads h names (tm, s) = Inr (tm1, s1)" "inv s1" "sel s1 = sel s"
      "tm1 = tm\<lparr>tm_gen := tm_gen tm + 1, tm_known := tm_known tm1\<rparr>" "mon_ok tm1"
      "known tm1 = set tids" "in_step ex tm1 (watch s1) (sel s1)"
    by blast
  have "tm_gen tm1 = tm_gen tm + 1" by (subst r(4)) simp
  moreover have "tm_poll tm1" "tm_init tm1 = tm_init tm" by (subst r(4), simp add: w(3))+
  ultimately have f1: "tm_gen tm1 = tm_gen tm + 1" "tm_poll tm1" "tm_init tm1 = tm_init tm" by blast+
  have w1: "waits ex (n + 1) tm1 s1"
    using r(2,5,7) f1 unat_gen_Suc [OF b] n by (simp add: waits_def)
  from Cons.IH [OF this] Cons.prems(2,3) obtain tm2 s2 where
    "rfold (rescan_threads h) nss (tm1, s1) = Inr (tm2, s2)" "waits ex (n + 1 + length nss) tm2 s2"
    "sel s2 = sel s1" "tm_init tm2 = tm_init tm1" "nss = [] \<longrightarrow> known tm2 = known tm1"
    "\<forall>tids. nss \<noteq> [] \<longrightarrow> lists (last nss) tids \<longrightarrow> known tm2 = set tids"
    by (auto simp del: lists_simps)
  moreover have "lists names tids' \<Longrightarrow> set tids' = set tids" for tids'
    using lists_unique [OF tids(1)] by simp
  ultimately show ?case
    using r f1(3) by (intro exI [of _ tm2] exI [of _ s2]) (auto simp del: lists_simps)
qed

text \<open>At the head of the loop no thread but the exempt ones has the current generation.\<close>

definition due :: "pid set \<Rightarrow> nat \<Rightarrow> thdmon \<Rightarrow> 's \<Rightarrow> bool" where
  "due ex n tm s =
     (waits ex n tm s \<and> (n = 0 \<longrightarrow> tm_init tm = 0) \<and>
      (\<forall>t. tab_find (tm_known tm) t = Some (tm_gen tm) \<longrightarrow> t \<in> ex))"

lemma poll_turn_ok:
  assumes "due ex n tm s" "\<forall>names \<in> set (listings tu). \<exists>tids. lists names tids \<and> ex \<subseteq> set tids"
    and "n + length (tu_rescans tu) < 2 ^ 32" "lists (last (listings tu)) tids"
  shows "\<exists>tm' s'. poll_turn h tu (tm, s) = Inr (tm', s') \<and> waits ex (n + length (tu_rescans tu)) tm' s' \<and>
    sel s' = sel s \<and> known tm' = set tids \<and> tm_init tm' = (if n = 0 then 1 else tm_init tm)"
proof -
  have w: "inv s" "mon_ok tm" "tm_poll tm" "in_step ex tm (watch s) (sel s)" and n: "unat (tm_gen tm) = n"
    and new: "\<And>t. tab_find (tm_known tm) t = Some (tm_gen tm) \<Longrightarrow> t \<in> ex" and init: "n = 0 \<Longrightarrow> tm_init tm = 0"
    using assms(1) by (auto simp: due_def waits_def)
  obtain ts where ts: "lists (tu_names tu) ts" "ex \<subseteq> set ts" using assms(2) by (auto simp: listings_def)
  from scan_in_step [OF w(1) ts(1) w(2) new w(4) ts(2)] obtain tm1 s1 where
    r: "scan_tasks h (tu_names tu) (tm, s) = Inr (tm1, s1)" "inv s1" "sel s1 = sel s"
      "tm1 = tm\<lparr>tm_known := tm_known tm1\<rparr>" "mon_ok tm1"
      "known tm1 = set ts" "in_step ex tm1 (watch s1) (sel s1)"
    by blast
  have gen1: "tm_gen tm1 = tm_gen tm" by (subst r(4)) simp
  have poll1: "tm_poll tm1" and init1: "tm_init tm1 = tm_init tm" by (subst r(4), simp add: w(3))+
  have n0: "tm_gen tm1 = 0 \<longleftrightarrow> n = 0" using n by (auto simp: gen1 unat_eq_0)
  let ?tm = "if n = 0 then tm1\<lparr>tm_init := 1\<rparr> else tm1"
  have "waits ex n ?tm s1"
    using r poll1 n gen1 by (auto simp: waits_def mon_ok_def in_step_def known_def)
  moreover have "\<forall>names \<in> set (tu_rescans tu). \<exists>tids. lists names tids \<and> ex \<subseteq> set tids"
    using assms(2) by (simp add: listings_def)
  ultimately obtain tm2 s2 where
    q: "rfold (rescan_threads h) (tu_rescans tu) (?tm, s1) = Inr (tm2, s2)"
      "waits ex (n + length (tu_rescans tu)) tm2 s2" "sel s2 = sel s1" "tm_init tm2 = tm_init ?tm"
      "tu_rescans tu = [] \<longrightarrow> known tm2 = known ?tm"
      "\<forall>tids. tu_rescans tu \<noteq> [] \<longrightarrow> lists (last (tu_rescans tu)) tids \<longrightarrow> known tm2 = set tids"
    using rescans_ok [of ex n ?tm s1 "tu_rescans tu"] assms(3) by blast
  have "known ?tm = set ts" using r(6) by (simp add: known_def)
  then have "known tm2 = set tids"
    using q(5,6) assms(4) lists_unique [OF ts(1)] by (auto simp: listings_def split: if_splits)
  moreover have "poll_turn h tu (tm, s) = Inr (tm2, s2)"
    using r(1) q(1) n0 init init1 by (auto simp: poll_turn_def guard_def split: if_splits)
  ultimately show ?thesis
    using q(2-4) r(3) init1 by (intro exI [of _ tm2] exI [of _ s2]) simp
qed

text \<open>Advancing the generation after a turn makes the next one due.\<close>

lemma waits_due:
  assumes "waits ex n tm s" "n + 1 < 2 ^ 32"
  shows "due ex (n + 1) (tm\<lparr>tm_gen := tm_gen tm + 1\<rparr>) s"
proof -
  have n: "unat (tm_gen tm) = n" using assms(1) by (simp add: waits_def)
  then have lt: "tm_gen tm < tm_gen tm + 1" using assms(2) by (intro gen_less_Suc) simp
  have "unat (tm_gen tm + 1) = n + 1" using n assms(2) by (simp add: unat_gen_Suc)
  moreover have "g \<le> tm_gen tm + 1 \<and> g \<noteq> tm_gen tm + 1" if "g \<le> tm_gen tm" for g
    using that lt by (auto dest: order.strict_trans1)
  ultimately show ?thesis using assms(1)
    by (auto simp: due_def waits_def mon_ok_def in_step_def known_def)
qed

lemma process_loop_ok:
  assumes "due ex n tm s" "tus \<noteq> []" "\<forall>tu \<in> set (butlast tus). \<not> tu_stop tu"
    and "\<forall>tu \<in> set tus. \<forall>names \<in> set (listings tu). \<exists>tids. lists names tids \<and> ex \<subseteq> set tids"
    and "n + scans tus < 2 ^ 32" "lists (last (listings (last tus))) tids"
  shows "\<exists>tm' s'. process_loop h tus (tm, s) = Inr (tm', s') \<and> waits ex (n + scans tus) tm' s' \<and>
    sel s' = sel s \<and> known tm' = set tids \<and> tm_init tm' = (if n = 0 then 1 else tm_init tm)"
  using assms
proof (induction tus arbitrary: n tm s)
  case (Cons tu tus)
  let ?k = "n + length (tu_rescans tu)"
  have k: "?k + 1 < 2 ^ 32" using Cons.prems(5) by (simp add: scans_def listings_def)
  have "\<exists>tids. lists (last (listings tu)) tids"
    using Cons.prems(4) by (auto simp: listings_def split: if_splits)
  then obtain ts where ts: "lists (last (listings tu)) ts" by blast
  obtain tm1 s1 where
    t: "poll_turn h tu (tm, s) = Inr (tm1, s1)" "waits ex ?k tm1 s1" "sel s1 = sel s" "known tm1 = set ts"
      "tm_init tm1 = (if n = 0 then 1 else tm_init tm)"
    using poll_turn_ok [OF Cons.prems(1) _ _ ts] Cons.prems(4) k by auto
  let ?tm = "tm1\<lparr>tm_gen := tm_gen tm1 + 1\<rparr>"
  have d: "due ex (?k + 1) ?tm s1" by (rule waits_due [OF t(2) k])
  show ?case
  proof (cases "tus = []")
    case True
    then have "lists (last (listings tu)) tids" using Cons.prems(6) by simp
    from lists_unique [OF ts this] have "known ?tm = set tids" using t(4) by (simp add: known_def)
    moreover have "waits ex (n + scans (tu # tus)) ?tm s1"
      using d True by (simp add: scans_def listings_def due_def)
    ultimately show ?thesis using True t(1,3,5)
      by (intro exI [of _ ?tm] exI [of _ s1]) (simp add: Let_def)
  next
    case False
    have k': "n + scans (tu # tus) = ?k + 1 + scans tus" by (simp add: scans_def listings_def)
    have p: "\<forall>tu \<in> set (butlast tus). \<not> tu_stop tu" "\<not> tu_stop tu"
      using False Cons.prems(3) by auto
    have "\<forall>tu \<in> set tus. \<forall>names \<in> set (listings tu). \<exists>tids. lists names tids \<and> ex \<subseteq> set tids"
      using Cons.prems(4) by (meson list.set_intros(2))
    moreover have "?k + 1 + scans tus < 2 ^ 32" using Cons.prems(5) unfolding k' .
    moreover have "lists (last (listings (last tus))) tids" using False Cons.prems(6) by simp
    ultimately obtain tm2 s2 where
      "process_loop h tus (?tm, s1) = Inr (tm2, s2)" "sel s2 = sel s1"
      "waits ex (?k + 1 + scans tus) tm2 s2" "known tm2 = set tids" "tm_init tm2 = tm_init ?tm"
      using Cons.IH [OF d False p(1)] by (metis add_is_0 one_neq_zero)
    then show ?thesis using t(1,3,5) p(2) unfolding k' by simp
  qed
qed simp

text \<open>The polling thread, from its start on an empty table.\<close>

lemma process_ok:
  assumes "inv s" "watch s = {}" "tus \<noteq> []" "\<forall>tu \<in> set (butlast tus). \<not> tu_stop tu"
    and "\<forall>tu \<in> set tus. \<forall>names \<in> set (listings tu). \<exists>tids. lists names tids \<and> self \<in> set tids"
    and "scans tus < 2 ^ 32" "lists (last (listings (last tus))) tids"
  shows "\<exists>tm s'. process h self tus (thdmon0\<lparr>tm_poll := True, tm_itvl := itvl\<rparr>, s) = Inr (tm, s') \<and>
    waits {self} (scans tus) tm s' \<and> sel s' = sel s \<and> known tm = set tids \<and> tm_init tm = 1"
proof -
  let ?tm = "thdmon0\<lparr>tm_poll := True, tm_itvl := itvl, tm_known := tab_insert self 0 []\<rparr>"
  obtain s1 where s1: "h self Self s = Inr s1" "inv s1" "watch s1 = {}" "sel s1 = sel s"
    using h_track [OF assms(1), of self Self] assms(2) by auto
  have "due {self} 0 ?tm s1"
    using s1 by (auto simp: due_def waits_def thdmon0_def mon_ok_def in_step_def known_def tab_insert_def
        tab_wf_def tab_find_def split: if_splits)
  from process_loop_ok [OF this assms(3,4) _ _ assms(7)] assms(5,6) s1(1,4) show ?thesis
    by (auto simp: process_def process_start_def thdmon0_def)
qed

lemma polling_ok:
  assumes "inv s" "watch s = {}" "tus \<noteq> []" "\<forall>tu \<in> set (butlast tus). \<not> tu_stop tu"
    and "\<forall>tu \<in> set tus. \<forall>names \<in> set (listings tu). \<exists>tids. lists names tids \<and> self \<in> set tids"
    and "scans tus < 2 ^ 32" "lists (last (listings (last tus))) tids"
  shows "\<exists>tm s'. ThdMon (ProcPoll itvl) h True self tus names s = Inr (tm, s') \<and> inv s' \<and> mon_ok tm \<and>
    tm_poll tm \<and> known tm = set tids \<and> sel s' = sel s \<and> watch s' = {t \<in> set tids. sel s t \<and> t \<noteq> self}"
proof -
  from process_ok [OF assms, of itvl] obtain tm s' where
    p: "process h self tus (thdmon0\<lparr>tm_poll := True, tm_itvl := itvl\<rparr>, s) = Inr (tm, s')"
      "waits {self} (scans tus) tm s'" "sel s' = sel s" "known tm = set tids" "tm_init tm = 1"
    by blast
  let ?tm = "tm\<lparr>tm_init := 0\<rparr>"
  have "ThdMon (ProcPoll itvl) h True self tus names s = Inr (?tm, s')"
    using p(1,5) by (simp add: ThdMon_def)
  moreover have "inv s'" "mon_ok ?tm" "tm_poll ?tm" "watch s' = {t \<in> set tids. sel s t \<and> t \<noteq> self}"
    using p(2-4) by (auto simp: waits_def mon_ok_def in_step_def)
  moreover have "known ?tm = set tids" using p(4) by (simp add: known_def)
  ultimately show ?thesis using p(3) by blast
qed

text \<open>In generation 0 nothing known is older than the scan, so nothing is ever given up.\<close>

lemma scan_gen_0:
  assumes "inv s" "mon_ok tm" "tm_gen tm = 0" "lists names tids" "in_step {} tm (watch s) (sel s)"
  shows "\<exists>tm' s'. scan_tasks h names (tm, s) = Inr (tm', s') \<and> inv s' \<and> sel s' = sel s \<and>
    tm' = tm\<lparr>tm_known := tm_known tm'\<rparr> \<and> mon_ok tm' \<and> known tm' = known tm \<union> set tids \<and>
    in_step {} tm' (watch s') (sel s')"
proof -
  have old: "t \<in> known tm \<longleftrightarrow> tab_find (tm_known tm) t = Some (tm_gen tm)" for t
    using assms(2,3) by (auto simp: mon_ok_def known_iff)
  from scan_tasks_ok [OF assms(1,4,2)] obtain tm' s' where
    r: "scan_tasks h names (tm, s) = Inr (tm', s')" "inv s'" "sel s' = sel s"
      "tm' = tm\<lparr>tm_known := tm_known tm'\<rparr>" "mon_ok tm'"
      "\<And>t. tab_find (tm_known tm') t =
        (if t \<in> set tids \<or> tab_find (tm_known tm) t = Some (tm_gen tm) then Some (tm_gen tm) else None)"
      "watch s' = watch s \<union> {t \<in> set tids. t \<notin> known tm \<and> sel s t} -
        {t \<in> known tm. t \<notin> set tids \<and> tab_find (tm_known tm) t \<noteq> Some (tm_gen tm)}"
    by blast
  have k: "known tm' = known tm \<union> set tids"
    by (rule known_eq [of _ _ "tm_gen tm"]) (simp add: r(6) old disj_commute)
  moreover have "in_step {} tm' (watch s') (sel s')"
    using assms(5) by (auto simp: in_step_def k r(7) r(3) old)
  ultimately show ?thesis using r(1-5) by blast
qed

lemma static_rescans:
  assumes "inv s" "mon_ok tm" "tm_gen tm = 0" "\<not> tm_poll tm" "in_step {} tm (watch s) (sel s)"
    and "list_all2 lists nss tidss"
  shows "\<exists>tm' s'. rfold (rescan_threads h) nss (tm, s) = Inr (tm', s') \<and> inv s' \<and> sel s' = sel s \<and>
    mon_ok tm' \<and> known tm' = known tm \<union> \<Union> (set ` set tidss) \<and> in_step {} tm' (watch s') (sel s')"
  using assms
proof (induction nss arbitrary: tm s tidss)
  case (Cons names nss)
  then obtain tids rest where t: "tidss = tids # rest" "lists names tids" "list_all2 lists nss rest"
    by (auto simp: list_all2_Cons1)
  from scan_gen_0 [OF Cons.prems(1,2,3) t(2) Cons.prems(5)] obtain tm1 s1 where
    r: "scan_tasks h names (tm, s) = Inr (tm1, s1)" "inv s1" "sel s1 = sel s"
      "tm1 = tm\<lparr>tm_known := tm_known tm1\<rparr>" "mon_ok tm1" "known tm1 = known tm \<union> set tids"
      "in_step {} tm1 (watch s1) (sel s1)"
    by blast
  have f: "tm_gen tm1 = 0" "\<not> tm_poll tm1" by (subst r(4), simp add: Cons.prems)+
  have "rescan_threads h names (tm, s) = Inr (tm1, s1)"
    using r(1) Cons.prems(4) by (simp add: rescan_threads_def)
  with Cons.IH [OF r(2,5) f r(7) t(3)] r(3,6) t(1) show ?case by (auto simp: Un_assoc)
qed (auto simp: mon_ok_def)

text \<open>A monitor without discovery, from its construction on.\<close>

lemma static_ok:
  assumes "inv s" "watch s = {}" "lists names tids" "list_all2 lists nss tidss"
  shows "\<exists>tm s'. rbind (ThdMon NoDiscovery h True self tus names s) (rfold (rescan_threads h) nss) = Inr (tm, s') \<and>
    inv s' \<and> mon_ok tm \<and> sel s' = sel s \<and> known tm = set tids \<union> \<Union> (set ` set tidss) \<and>
    watch s' = {t \<in> known tm. sel s t}"
proof -
  have 0: "mon_ok thdmon0" "tm_gen thdmon0 = 0" "known thdmon0 = {}" "\<not> tm_poll thdmon0"
    by (auto simp: thdmon0_def mon_ok_def known_def tab_wf_def tab_find_def)
  then have "in_step {} thdmon0 (watch s) (sel s)" using assms(2) by (simp add: in_step_def)
  from scan_gen_0 [OF assms(1) 0(1,2) assms(3) this] obtain tm1 s1 where
    r: "scan_tasks h names (thdmon0, s) = Inr (tm1, s1)" "inv s1" "sel s1 = sel s"
      "tm1 = thdmon0\<lparr>tm_known := tm_known tm1\<rparr>" "mon_ok tm1" "known tm1 = set tids"
      "in_step {} tm1 (watch s1) (sel s1)"
    using 0(3) by auto
  have f: "tm_gen tm1 = 0" "\<not> tm_poll tm1" by (subst r(4), simp add: 0)+
  from static_rescans [OF r(2,5) f r(7) assms(4)] r(1,3,6) show ?thesis
    by (auto simp: ThdMon_def in_step_def)
qed

text \<open>When the generation wraps to 0, nothing known is older than the scan.\<close>

lemma rescan_wraps:
  assumes "inv s" "lists names tids" "tab_wf (tm_known tm)" "tm_poll tm" "tm_gen tm = - 1"
  shows "\<exists>tm' s'. rescan_threads h names (tm, s) = Inr (tm', s') \<and> inv s' \<and>
    known tm \<subseteq> known tm' \<and> watch s \<subseteq> watch s'"
proof -
  let ?tm = "tm\<lparr>tm_gen := 0\<rparr>"
  have wf: "tab_wf (tm_known ?tm)" using assms(3) by simp
  from visit_all_ok [OF assms(1,2) wf] obtain tm1 s1 where
    v: "rfold (visit_entry h) names (?tm, s) = Inr (tm1, s1)" "inv s1"
      "tm1 = ?tm\<lparr>tm_known := tm_known tm1\<rparr>"
      "\<And>t. tab_find (tm_known tm1) t = (if t \<in> set tids then Some 0 else tab_find (tm_known tm) t)"
      "watch s1 = watch s \<union> {t \<in> set tids. t \<notin> known ?tm \<and> sel s t}"
    by auto
  have "tm_gen tm1 = 0" by (subst v(3)) simp
  then have "to_remove tm1 = []" by (simp add: to_remove_def)
  moreover have "known tm \<subseteq> known tm1" using v(4) by (auto simp: known_iff)
  ultimately show ?thesis
    using v(1,2,5) assms(4,5) by (auto simp: rescan_threads_def scan_tasks_def)
qed

text \<open>Whatever the generation, a rescan keeps the handler's invariant and what it accepts.\<close>

lemma rescan_safe:
  assumes "inv s" "lists names tids" "tab_wf (tm_known tm)"
  shows "\<exists>tm' s'. rescan_threads h names (tm, s) = Inr (tm', s') \<and> inv s' \<and> sel s' = sel s \<and>
    tab_wf (tm_known tm')"
proof -
  let ?tm = "if tm_poll tm then tm\<lparr>tm_gen := tm_gen tm + 1\<rparr> else tm"
  have wf: "tab_wf (tm_known ?tm)" using assms(3) by simp
  from visit_all_ok [OF assms(1,2) wf] obtain tm1 s1 where
    v: "rfold (visit_entry h) names (?tm, s) = Inr (tm1, s1)" "inv s1" "sel s1 = sel s" "tab_wf (tm_known tm1)"
    by blast
  from drop_all_ok [OF v(2), of "to_remove tm1" tm1] obtain s2 where
    "rfold (drop_entry h) (to_remove tm1) (tm1, s1) =
       Inr (tm1\<lparr>tm_known := fold tab_erase (to_remove tm1) (tm_known tm1)\<rparr>, s2)"
    "inv s2" "sel s2 = sel s1"
    by blast
  with v tab.ok_fold_era [OF v(4)] show ?thesis
    by (auto simp: rescan_threads_def scan_tasks_def split: if_splits)
qed

end

end
