(* ===== verification/Thread_Ctl.thy ===== *)
theory Thread_Ctl
  imports Active_Plan Mem_Map Signals Thd_Mon
begin

text \<open>
  Control of the failure-injected threads, \<open>src/session.hh\<close> and \<open>src/session.cc\<close>: the per-thread
  state, the enabling and disabling of a thread by itself or by another thread through a signal
  and a semaphore, the signal handlers that do the work in the target thread, and the arming and
  disarming around masked sections. System calls of the kernel appear as the parameter \<open>env\<close>: the
  answer to the signal-sending call, whether the target thread gets to run the handler, and
  whether \<open>prctl\<close> succeeds. What \<open>prctl\<close> was last told for each thread is kept in \<open>w_sud\<close>.
\<close>

section \<open>State\<close>

datatype disp = Allow | Block  \<comment> \<open>\<open>SYSCALL_DISPATCH_FILTER_ALLOW\<close> and \<open>_BLOCK\<close>\<close>

record thd_state =
  ts_on :: disp
  ts_sem :: nat

definition ThdState :: thd_state where
  "ThdState = \<lparr>ts_on = Allow, ts_sem = 1\<rparr>"

record sud =
  sud_start :: u64
  sud_length :: u64

record env =
  e_tgsig :: "pid \<Rightarrow> int \<Rightarrow> int"
  e_runs :: "pid \<Rightarrow> int \<Rightarrow> bool"
  e_prctl_on :: "pid \<Rightarrow> bool"
  e_prctl_off :: "pid \<Rightarrow> bool"

text \<open>
  The active session and what the kernel knows of the threads: whether the global pointer
  \<open>session\<close> is set, the plan, the library's text, the table of threads, the dispatch settings.
\<close>

record world =
  w_global :: bool
  w_plan :: active_plan
  w_self_text :: addr_range
  w_thds :: "(pid, thd_state) table"
  w_sud :: "pid \<Rightarrow> sud option"

definition selected :: "world \<Rightarrow> pid \<Rightarrow> bool" where
  "selected w tid = pl_selector (ap_p (w_plan w)) tid"

text \<open>
  A binary semaphore. Acquiring at zero waits, and no one else runs until this operation ends, so
  it waits for good; releasing at one breaks the precondition of \<open>std::binary_semaphore\<close>.
\<close>

definition sem_acquire :: "nat \<Rightarrow> nat result" where
  "sem_acquire n = (if n = 0 then Inl Blocked else Inr (n - 1))"

definition sem_release :: "nat \<Rightarrow> nat result" where
  "sem_release n = (if n \<ge> 1 then Inl (Undefined ''binary_semaphore: release'') else Inr (n + 1))"

text \<open>Access to the state of a thread through a pointer into the table.\<close>

definition thd_mod :: "pid \<Rightarrow> (thd_state \<Rightarrow> thd_state result) \<Rightarrow> world \<Rightarrow> world result" where
  "thd_mod tid f w =
     (case tab_find (w_thds w) tid of
        None \<Rightarrow> Inl (Undefined ''dangling thread state'')
      | Some st \<Rightarrow> rbind (f st) (\<lambda>st. Inr (w\<lparr>w_thds := tab_update tid st (w_thds w)\<rparr>)))"

definition acquire :: "pid \<Rightarrow> world \<Rightarrow> world result" where
  "acquire tid = thd_mod tid (\<lambda>st. rbind (sem_acquire (ts_sem st)) (\<lambda>n. Inr (st\<lparr>ts_sem := n\<rparr>)))"

definition release :: "pid \<Rightarrow> world \<Rightarrow> world result" where
  "release tid = thd_mod tid (\<lambda>st. rbind (sem_release (ts_sem st)) (\<lambda>n. Inr (st\<lparr>ts_sem := n\<rparr>)))"

definition set_on :: "pid \<Rightarrow> disp \<Rightarrow> world \<Rightarrow> world result" where
  "set_on tid d = thd_mod tid (\<lambda>st. Inr (st\<lparr>ts_on := d\<rparr>))"

section \<open>Enabling and disabling in the thread itself\<close>

definition text_range :: "addr_range \<Rightarrow> sud" where
  "text_range self = \<lparr>sud_start = ar_start self, sud_length = ar_length self\<rparr>"

definition enable :: "env \<Rightarrow> addr_range \<Rightarrow> pid \<Rightarrow> world \<Rightarrow> world result" where
  "enable env self tid w =
     (if \<not> e_prctl_on env tid then Inl (Throw (Runtime_error ''Failed to enable sysfail''))
      else set_on tid Block (w\<lparr>w_sud := (w_sud w)(tid \<mapsto> text_range self)\<rparr>))"

definition disable :: "env \<Rightarrow> pid \<Rightarrow> world \<Rightarrow> world result" where
  "disable env tid w =
     (if \<not> e_prctl_off env tid then Inl (Throw (Runtime_error ''Failed to disable sysfail''))
      else Inr (w\<lparr>w_sud := (w_sud w)(tid := None)\<rparr>))"

definition thd_enable_self :: "env \<Rightarrow> pid \<Rightarrow> world \<Rightarrow> world result" where
  "thd_enable_self env tid w =
     (if \<not> selected w tid then Inr w
      else if tab_find (w_thds w) tid \<noteq> None then Inr w
      else rbind (set_on tid Allow (w\<lparr>w_thds := tab_insert tid ThdState (w_thds w)\<rparr>))
             (enable env (w_self_text w) tid))"

definition thd_disable_self :: "env \<Rightarrow> pid \<Rightarrow> world \<Rightarrow> world result" where
  "thd_disable_self env tid w =
     (if tab_find (w_thds w) tid = None then Inr w
      else rbind (set_on tid Allow w) (\<lambda>w.
           rbind (disable env tid w) (\<lambda>w.
           Inr (w\<lparr>w_thds := tab_erase tid (w_thds w)\<rparr>))))"

section \<open>Signal handlers\<close>

text \<open>
  Both handlers release the semaphore of the thread's state when they leave, by the destructor of
  \<open>NotifySigHdlrCompletion\<close>, and do nothing else when there is no session.
\<close>

definition enable_sysfail :: "env \<Rightarrow> pid \<Rightarrow> world \<Rightarrow> world result" where
  "enable_sysfail env tid w =
     (if \<not> w_global w then release tid w
      else rbind (enable env (w_self_text w) tid w) (release tid))"

definition disable_sysfail :: "env \<Rightarrow> pid \<Rightarrow> world \<Rightarrow> world result" where
  "disable_sysfail env tid w =
     (if \<not> w_global w then release tid w
      else rbind (disable env tid w) (release tid))"

section \<open>Enabling and disabling another thread\<close>

text \<open>The signal is sent; if it is queued and the thread gets to run, its handler runs.\<close>

definition signal_thd ::
    "env \<Rightarrow> pid \<Rightarrow> int \<Rightarrow> (world \<Rightarrow> world result) \<Rightarrow> world \<Rightarrow> world result" where
  "signal_thd env tid sig handler w =
     rbind (send_signal (e_tgsig env tid sig) (Some (release tid)) w) (\<lambda>(queued, w).
     if queued \<and> e_runs env tid sig then handler w else Inr w)"

definition thd_enable :: "env \<Rightarrow> pid \<Rightarrow> world \<Rightarrow> world result" where
  "thd_enable env tid w =
     (if \<not> selected w tid then Inr w
      else if tab_find (w_thds w) tid \<noteq> None then Inr w
      else
        rbind (acquire tid (w\<lparr>w_thds := tab_insert tid ThdState (w_thds w)\<rparr>)) (\<lambda>w.
        rbind (signal_thd env tid SIG_ENABLE (enable_sysfail env tid) w) (\<lambda>w.
        rbind (acquire tid w) (release tid))))"

definition thd_disable :: "env \<Rightarrow> pid \<Rightarrow> world \<Rightarrow> world result" where
  "thd_disable env tid w =
     (if tab_find (w_thds w) tid = None then Inr w
      else
        rbind (acquire tid w) (\<lambda>w.
        rbind (signal_thd env tid SIG_DISABLE (disable_sysfail env tid) w) (\<lambda>w.
        rbind (acquire tid w) (\<lambda>w.
        rbind (release tid w) (\<lambda>w.
        Inr (w\<lparr>w_thds := tab_erase tid (w_thds w)\<rparr>))))))"

fun thd_track :: "env \<Rightarrow> pid \<Rightarrow> disc_thd_st \<Rightarrow> world \<Rightarrow> world result" where
  "thd_track env tid Existing w = thd_enable env tid w"
| "thd_track env tid Spawned w = thd_enable env tid w"
| "thd_track env tid Terminated w = thd_disable env tid w"
| "thd_track env tid Self w = Inr w"

section \<open>Arming\<close>

definition disarm :: "pid \<Rightarrow> world \<Rightarrow> world result" where
  "disarm tid w =
     (case tab_find (w_thds w) tid of
        None \<Rightarrow> Inl (Assert_failed ''! a.empty()'')
      | Some st \<Rightarrow> set_on tid Allow w)"

definition rearm :: "pid \<Rightarrow> world \<Rightarrow> world result" where
  "rearm tid w =
     (case tab_find (w_thds w) tid of None \<Rightarrow> Inr w | Some st \<Rightarrow> set_on tid Block w)"

text \<open>\<open>reenable_sysfail\<close>, before it leaves through \<open>sysfail_restore\<close>.\<close>

definition reenable_sysfail :: "pid \<Rightarrow> world \<Rightarrow> world result" where
  "reenable_sysfail tid w = (if w_global w then rearm tid w else Inr w)"

section \<open>What the operations promise\<close>

text \<open>The kernel intercepts the calls a thread makes from outside the library's text.\<close>

definition armed :: "world \<Rightarrow> pid \<Rightarrow> bool" where
  "armed w tid =
     (w_sud w tid = Some (text_range (w_self_text w)) \<and>
      (\<exists>st. tab_find (w_thds w) tid = Some st \<and> ts_on st = Block))"

text \<open>
  The state between operations: the table is one, semaphores are free, and for every living
  thread the kernel holds a pointer to a thread state exactly when the table has that state.
\<close>

definition world_ok :: "(pid \<Rightarrow> bool) \<Rightarrow> world \<Rightarrow> bool" where
  "world_ok alive w =
     (tab_wf (w_thds w) \<and> w_global w \<and>
      (\<forall>tid st. tab_find (w_thds w) tid = Some st \<longrightarrow> ts_sem st = 1) \<and>
      (\<forall>tid. alive tid \<longrightarrow> w_sud w tid =
         (if tab_find (w_thds w) tid = None then None else Some (text_range (w_self_text w)))))"

text \<open>
  An environment that answers: signals to a living thread are queued and handled, signals to any
  other fail with \<open>ESRCH\<close>, and \<open>prctl\<close> succeeds.
\<close>

definition responsive :: "(pid \<Rightarrow> bool) \<Rightarrow> env \<Rightarrow> bool" where
  "responsive alive env =
     (\<forall>tid. (alive tid \<longrightarrow> (\<forall>sig. e_tgsig env tid sig = 0 \<and> e_runs env tid sig) \<and>
               e_prctl_on env tid \<and> e_prctl_off env tid) \<and>
            (\<not> alive tid \<longrightarrow> (\<forall>sig. e_tgsig env tid sig = - ESRCH)))"

text \<open>The threads of the table.\<close>

definition tracked :: "world \<Rightarrow> pid set" where
  "tracked w = fst ` set (w_thds w)"

lemma tracked_iff: "tid \<in> tracked w \<longleftrightarrow> tab_find (w_thds w) tid \<noteq> None"
  by (simp add: tracked_def tab_find_None)

text \<open>
  The operations other components call, and the set of tracked threads they stand for: a thread is
  added if the plan selects it, and removed.
\<close>

datatype ctl = Add pid | Remove pid | Add_self pid | Remove_self pid | Track pid disc_thd_st

primrec run_ctl :: "env \<Rightarrow> ctl \<Rightarrow> world \<Rightarrow> world result" where
  "run_ctl env (Add tid) w = thd_enable env tid w"
| "run_ctl env (Remove tid) w = thd_disable env tid w"
| "run_ctl env (Add_self tid) w = thd_enable_self env tid w"
| "run_ctl env (Remove_self tid) w = thd_disable_self env tid w"
| "run_ctl env (Track tid st) w = thd_track env tid st w"

definition abs_add :: "(pid \<Rightarrow> bool) \<Rightarrow> pid \<Rightarrow> pid set \<Rightarrow> pid set" where
  "abs_add sel tid T = (if sel tid then insert tid T else T)"

fun abs_ctl :: "(pid \<Rightarrow> bool) \<Rightarrow> ctl \<Rightarrow> pid set \<Rightarrow> pid set" where
  "abs_ctl sel (Add tid) T = abs_add sel tid T"
| "abs_ctl sel (Add_self tid) T = abs_add sel tid T"
| "abs_ctl sel (Track tid Existing) T = abs_add sel tid T"
| "abs_ctl sel (Track tid Spawned) T = abs_add sel tid T"
| "abs_ctl sel (Track tid Terminated) T = T - {tid}"
| "abs_ctl sel (Track tid Self) T = T"
| "abs_ctl sel (Remove tid) T = T - {tid}"
| "abs_ctl sel (Remove_self tid) T = T - {tid}"

text \<open>A thread that acts on itself is alive.\<close>

fun ctl_alive :: "(pid \<Rightarrow> bool) \<Rightarrow> ctl \<Rightarrow> bool" where
  "ctl_alive alive (Add_self tid) = alive tid"
| "ctl_alive alive (Remove_self tid) = alive tid"
| "ctl_alive alive _ = True"

section \<open>The operations, entry by entry\<close>

lemma thd_mod_at:
  "tab_find (w_thds w) tid = Some st \<Longrightarrow>
   thd_mod tid f w = rbind (f st) (\<lambda>st. Inr (w\<lparr>w_thds := tab_update tid st (w_thds w)\<rparr>))"
  by (simp add: thd_mod_def)

lemmas sem_defs = sem_acquire_def sem_release_def
lemmas ptr_defs = acquire_def release_def set_on_def
lemmas world_defs = world_ok_def responsive_def

text \<open>The four outcomes of enabling another thread.\<close>

lemma thd_enable_noop:
  "\<not> selected w tid \<or> tid \<in> tracked w \<Longrightarrow> thd_enable env tid w = Inr w"
  by (auto simp: thd_enable_def tracked_iff)

lemma thd_enable_alive:
  assumes "w_global w" "responsive alive env" "alive tid" "selected w tid" "tid \<notin> tracked w"
  shows "thd_enable env tid w =
    Inr (w\<lparr>w_thds := tab_insert tid \<lparr>ts_on = Block, ts_sem = 1\<rparr> (w_thds w),
            w_sud := (w_sud w)(tid \<mapsto> text_range (w_self_text w))\<rparr>)"
proof -
  have env: "e_tgsig env tid SIG_ENABLE = 0" "e_runs env tid SIG_ENABLE" "e_prctl_on env tid"
    using assms(2,3) by (auto simp: responsive_def)
  show ?thesis
    using assms(1,4,5) env
    by (simp add: thd_enable_def tracked_iff ptr_defs thd_mod_def ThdState_def sem_defs
        signal_thd_def send_signal_0 enable_sysfail_def enable_def tab_update_insert)
qed

lemma thd_enable_dead:
  assumes "responsive alive env" "\<not> alive tid" "selected w tid" "tid \<notin> tracked w"
  shows "thd_enable env tid w = Inr (w\<lparr>w_thds := tab_insert tid ThdState (w_thds w)\<rparr>)"
proof -
  have env: "e_tgsig env tid SIG_ENABLE = - ESRCH"
    using assms(1,2) by (auto simp: responsive_def)
  show ?thesis
    using assms(3,4) env
    by (simp add: thd_enable_def tracked_iff ptr_defs thd_mod_def ThdState_def sem_defs
        signal_thd_def send_signal_esrch tab_update_insert)
qed

lemma thd_enable_silent:
  assumes "w_global w" "selected w tid" "tid \<notin> tracked w"
    and "e_tgsig env tid SIG_ENABLE = 0" "\<not> e_runs env tid SIG_ENABLE"
  shows "thd_enable env tid w = Inl Blocked"
  using assms
  by (simp add: thd_enable_def tracked_iff ptr_defs thd_mod_def ThdState_def sem_defs
      signal_thd_def send_signal_0 tab_update_insert)

text \<open>Disabling another thread.\<close>

lemma thd_disable_noop: "tid \<notin> tracked w \<Longrightarrow> thd_disable env tid w = Inr w"
  by (simp add: thd_disable_def tracked_iff)

lemma thd_disable_alive:
  assumes "w_global w" "responsive alive env" "alive tid"
    and "tab_find (w_thds w) tid = Some st" "ts_sem st = 1"
  shows "thd_disable env tid w =
    Inr (w\<lparr>w_thds := tab_erase tid (w_thds w), w_sud := (w_sud w)(tid := None)\<rparr>)"
proof -
  have env: "e_tgsig env tid SIG_DISABLE = 0" "e_runs env tid SIG_DISABLE" "e_prctl_off env tid"
    using assms(2,3) by (auto simp: responsive_def)
  show ?thesis
    using assms(1,4,5) env
    by (simp add: thd_disable_def ptr_defs thd_mod_def sem_defs
        signal_thd_def send_signal_0 disable_sysfail_def disable_def)
qed

lemma thd_disable_dead:
  assumes "responsive alive env" "\<not> alive tid"
    and "tab_find (w_thds w) tid = Some st" "ts_sem st = 1"
  shows "thd_disable env tid w = Inr (w\<lparr>w_thds := tab_erase tid (w_thds w)\<rparr>)"
proof -
  have env: "e_tgsig env tid SIG_DISABLE = - ESRCH"
    using assms(1,2) by (auto simp: responsive_def)
  show ?thesis
    using assms(3,4) env
    by (simp add: thd_disable_def ptr_defs thd_mod_def sem_defs signal_thd_def send_signal_esrch)
qed

text \<open>Enabling and disabling the calling thread.\<close>

lemma thd_enable_self_fresh:
  assumes "responsive alive env" "alive tid" "selected w tid" "tid \<notin> tracked w"
  shows "thd_enable_self env tid w =
    Inr (w\<lparr>w_thds := tab_insert tid \<lparr>ts_on = Block, ts_sem = 1\<rparr> (w_thds w),
            w_sud := (w_sud w)(tid \<mapsto> text_range (w_self_text w))\<rparr>)"
proof -
  have "e_prctl_on env tid" using assms(1,2) by (auto simp: responsive_def)
  with assms(3,4) show ?thesis
    by (simp add: thd_enable_self_def tracked_iff set_on_def thd_mod_def ThdState_def enable_def
        tab_update_insert)
qed

lemma thd_enable_self_noop:
  "\<not> selected w tid \<or> tid \<in> tracked w \<Longrightarrow> thd_enable_self env tid w = Inr w"
  by (auto simp: thd_enable_self_def tracked_iff)

lemma thd_disable_self_tracked:
  assumes "responsive alive env" "alive tid" "tid \<in> tracked w"
  shows "thd_disable_self env tid w =
    Inr (w\<lparr>w_thds := tab_erase tid (w_thds w), w_sud := (w_sud w)(tid := None)\<rparr>)"
proof -
  have "e_prctl_off env tid" using assms(1,2) by (auto simp: responsive_def)
  with assms(3) show ?thesis
    by (auto simp: thd_disable_self_def tracked_iff set_on_def thd_mod_def disable_def)
qed

lemma thd_disable_self_noop: "tid \<notin> tracked w \<Longrightarrow> thd_disable_self env tid w = Inr w"
  by (simp add: thd_disable_self_def tracked_iff)

section \<open>Invariant and refinement\<close>

text \<open>Same plan and text: what no operation changes.\<close>

definition same_config :: "world \<Rightarrow> world \<Rightarrow> bool" where
  "same_config w w' = (w_plan w' = w_plan w \<and> w_self_text w' = w_self_text w)"

lemma same_config_selected: "same_config w w' \<Longrightarrow> selected w' = selected w"
  by (simp add: same_config_def selected_def fun_eq_iff)

lemma tracked_simps [simp]:
  "tracked (w\<lparr>w_thds := tab_insert tid st (w_thds w), w_sud := k\<rparr>) = insert tid (tracked w)"
  "tracked (w\<lparr>w_thds := tab_insert tid st (w_thds w)\<rparr>) = insert tid (tracked w)"
  "tracked (w\<lparr>w_thds := tab_erase tid (w_thds w), w_sud := k\<rparr>) = tracked w - {tid}"
  "tracked (w\<lparr>w_thds := tab_erase tid (w_thds w)\<rparr>) = tracked w - {tid}"
  by (simp_all add: tracked_def)

lemma world_ok_insert:
  assumes "world_ok alive w" "tid \<notin> tracked w" "ts_sem st = 1"
  shows "world_ok alive (w\<lparr>w_thds := tab_insert tid st (w_thds w),
      w_sud := (w_sud w)(tid \<mapsto> text_range (w_self_text w))\<rparr>)"
    and "\<not> alive tid \<Longrightarrow> world_ok alive (w\<lparr>w_thds := tab_insert tid st (w_thds w)\<rparr>)"
  using assms by (auto simp: world_ok_def tracked_iff)

lemma world_ok_erase:
  assumes "world_ok alive w"
  shows "world_ok alive (w\<lparr>w_thds := tab_erase tid (w_thds w), w_sud := (w_sud w)(tid := None)\<rparr>)"
    and "\<not> alive tid \<Longrightarrow> world_ok alive (w\<lparr>w_thds := tab_erase tid (w_thds w)\<rparr>)"
  using assms by (auto simp: world_ok_def)

text \<open>The selector of every living thread that is tracked stands at \<open>BLOCK\<close>.\<close>

definition thds_on :: "(pid \<Rightarrow> bool) \<Rightarrow> world \<Rightarrow> bool" where
  "thds_on alive w = (\<forall>tid st. alive tid \<longrightarrow> tab_find (w_thds w) tid = Some st \<longrightarrow> ts_on st = Block)"

lemma armed_iff:
  assumes "world_ok alive w" "thds_on alive w" "alive tid"
  shows "armed w tid \<longleftrightarrow> tid \<in> tracked w"
  using assms by (auto simp: armed_def world_ok_def thds_on_def tracked_iff)

text \<open>What each operation does to a world in order, in one environment that answers.\<close>

definition step_ok :: "(pid \<Rightarrow> bool) \<Rightarrow> world \<Rightarrow> world result \<Rightarrow> pid set \<Rightarrow> bool" where
  "step_ok alive w r T =
     (\<exists>w'. r = Inr w' \<and> world_ok alive w' \<and> tracked w' = T \<and> same_config w w' \<and>
        (thds_on alive w \<longrightarrow> thds_on alive w'))"

lemma thds_on_simps [simp]:
  "thds_on alive w \<Longrightarrow> tid \<notin> tracked w \<Longrightarrow> alive tid \<longrightarrow> ts_on st = Block \<Longrightarrow>
   thds_on alive (w\<lparr>w_thds := tab_insert tid st (w_thds w)\<rparr>)"
  "thds_on alive w \<Longrightarrow> thds_on alive (w\<lparr>w_thds := tab_erase tid (w_thds w)\<rparr>)"
  "thds_on alive (w\<lparr>w_sud := d\<rparr>) = thds_on alive w"
  by (auto simp: thds_on_def tracked_iff split: if_splits)

lemma thd_enable_step:
  assumes ok: "world_ok alive w" and env: "responsive alive env"
  shows "step_ok alive w (thd_enable env tid w) (abs_add (selected w) tid (tracked w))"
proof -
  have g: "w_global w" using ok by (simp add: world_ok_def)
  consider "\<not> selected w tid \<or> tid \<in> tracked w"
    | "selected w tid" "tid \<notin> tracked w" "alive tid" | "selected w tid" "tid \<notin> tracked w" "\<not> alive tid"
    by blast
  then show ?thesis
  proof cases
    case 1
    then show ?thesis
      using ok by (auto simp: thd_enable_noop step_ok_def abs_add_def same_config_def)
  next
    case 2
    then show ?thesis using world_ok_insert(1) [OF ok 2(2)] thd_enable_alive [OF g env 2(3,1,2)]
      by (simp add: step_ok_def abs_add_def same_config_def)
  next
    case 3
    then show ?thesis
      using world_ok_insert(2) [OF ok 3(2) _ 3(3)] thd_enable_dead [OF env 3(3,1,2)]
      by (simp add: step_ok_def abs_add_def same_config_def ThdState_def)
  qed
qed

lemma thd_disable_step:
  assumes ok: "world_ok alive w" and env: "responsive alive env"
  shows "step_ok alive w (thd_disable env tid w) (tracked w - {tid})"
proof (cases "tab_find (w_thds w) tid")
  case None
  then show ?thesis
    using ok by (auto simp: thd_disable_noop tracked_iff step_ok_def same_config_def)
next
  case (Some st)
  with ok have st: "w_global w" "ts_sem st = 1" by (auto simp: world_ok_def)
  show ?thesis
  proof (cases "alive tid")
    case True
    then show ?thesis
      using thd_disable_alive [OF st(1) env True Some st(2)] world_ok_erase(1) [OF ok]
      by (simp add: step_ok_def same_config_def)
  next
    case False
    then show ?thesis
      using thd_disable_dead [OF env False Some st(2)] world_ok_erase(2) [OF ok False]
      by (simp add: step_ok_def same_config_def)
  qed
qed

lemma thd_enable_self_step:
  assumes "world_ok alive w" "responsive alive env" "alive tid"
  shows "step_ok alive w (thd_enable_self env tid w) (abs_add (selected w) tid (tracked w))"
proof (cases "selected w tid \<and> tid \<notin> tracked w")
  case True
  then show ?thesis
    using world_ok_insert(1) [OF assms(1), of tid] thd_enable_self_fresh [OF assms(2,3)]
    by (simp add: step_ok_def abs_add_def same_config_def)
qed (use assms in \<open>auto simp: thd_enable_self_noop step_ok_def abs_add_def same_config_def\<close>)

lemma thd_disable_self_step:
  assumes "world_ok alive w" "responsive alive env" "alive tid"
  shows "step_ok alive w (thd_disable_self env tid w) (tracked w - {tid})"
proof (cases "tid \<in> tracked w")
  case True
  then show ?thesis
    using world_ok_erase(1) [OF assms(1)] thd_disable_self_tracked [OF assms(2,3)]
    by (simp add: step_ok_def same_config_def)
qed (use assms in \<open>auto simp: thd_disable_self_noop step_ok_def same_config_def\<close>)

lemma thd_track_step:
  assumes "world_ok alive w" "responsive alive env"
  shows "step_ok alive w (thd_track env tid st w) (abs_ctl (selected w) (Track tid st) (tracked w))"
  using thd_enable_step [OF assms] thd_disable_step [OF assms] assms
  by (cases st) (auto simp: step_ok_def same_config_def)

lemma run_ctl_step:
  assumes "world_ok alive w" "responsive alive env" "ctl_alive alive op"
  shows "step_ok alive w (run_ctl env op w) (abs_ctl (selected w) op (tracked w))"
  using assms thd_enable_step thd_disable_step thd_enable_self_step thd_disable_self_step thd_track_step
  by (cases op) auto

lemma run_ctls:
  assumes "world_ok alive w" "responsive alive env" "\<forall>op \<in> set ops. ctl_alive alive op"
  shows "step_ok alive w (rfold (run_ctl env) ops w) (fold (abs_ctl (selected w)) ops (tracked w))"
  using assms
proof (induction ops arbitrary: w)
  case Nil
  then show ?case by (simp add: step_ok_def same_config_def)
next
  case (Cons op ops)
  from run_ctl_step [OF Cons.prems(1,2), of op] Cons.prems(3) obtain w1 where
    w1: "run_ctl env op w = Inr w1" "world_ok alive w1" "same_config w w1" "thds_on alive w \<longrightarrow> thds_on alive w1"
      "tracked w1 = abs_ctl (selected w) op (tracked w)"
    by (auto simp: step_ok_def)
  from Cons.IH [OF w1(2) Cons.prems(2)] Cons.prems(3) w1 show ?case
    by (auto simp: step_ok_def same_config_selected) (auto simp: same_config_def)
qed

text \<open>A session for concrete runs: the plan selects every thread but number 3, all threads live.\<close>

definition demo_world :: world where
  "demo_world =
     \<lparr>w_global = True,
      w_plan = ActivePlan Fin \<lparr>pl_outcomes = [], pl_selector = (\<lambda>tid. tid \<noteq> 3), pl_thd_disc = NoDiscovery\<rparr>,
      w_self_text = \<lparr>ar_start = 0x7f00, ar_length = 0x10, ar_permissions = ''r-xp'',
                     ar_path = ''/libsysfail.so'', ar_inode = 0\<rparr>,
      w_thds = [], w_sud = (\<lambda>_. None)\<rparr>"

definition demo_env :: env where
  "demo_env = \<lparr>e_tgsig = (\<lambda>_ _. 0), e_runs = (\<lambda>_ _. True), e_prctl_on = (\<lambda>_. True), e_prctl_off = (\<lambda>_. True)\<rparr>"

lemma demo_world_ok [simp]: "world_ok (\<lambda>_. True) demo_world"
  by (simp add: world_ok_def demo_world_def)

lemma demo_env_ok [simp]: "responsive (\<lambda>_. True) demo_env"
  by (simp add: responsive_def demo_env_def)

lemma demo_tracked [simp]: "tracked demo_world = {}"
  by (simp add: tracked_def demo_world_def)

lemma demo_selected [simp]: "selected demo_world tid \<longleftrightarrow> tid \<noteq> 3"
  by (simp add: selected_def demo_world_def ActivePlan_def)

text \<open>Disarming an armed thread changes nothing but its selector.\<close>

lemma disarm_armed:
  assumes "armed w tid" "tab_wf (w_thds w)"
  shows "\<exists>w1. disarm tid w = Inr w1 \<and> \<not> armed w1 tid \<and> w_sud w1 = w_sud w \<and>
    w_global w1 = w_global w \<and> rearm tid w1 = Inr w"
proof -
  obtain n where st: "tab_find (w_thds w) tid = Some \<lparr>ts_on = Block, ts_sem = n\<rparr>"
    using assms(1) by (auto simp: armed_def) (metis thd_state.cases thd_state.select_convs(1))
  have same: "tab_update tid \<lparr>ts_on = Block, ts_sem = n\<rparr> (w_thds w) = w_thds w"
    using st assms(2)
    by (auto simp: tab_update_def tab_find_set intro!: map_idI dest: eq_key_imp_eq_value simp: tab_wf_def)
  from st same show ?thesis
    by (simp add: disarm_def rearm_def set_on_def thd_mod_def armed_def)
qed

section \<open>The monitor's handler\<close>

text \<open>Tracking a thread is a handler as the monitor needs one.\<close>

definition trk_ok :: "(pid \<Rightarrow> bool) \<Rightarrow> env \<Rightarrow> world \<Rightarrow> world \<Rightarrow> bool" where
  "trk_ok alive env w0 w =
     (responsive alive env \<and> world_ok alive w \<and> same_config w0 w \<and> (thds_on alive w0 \<longrightarrow> thds_on alive w))"

lemma trk_ok_refl: "responsive alive env \<Longrightarrow> world_ok alive w \<Longrightarrow> trk_ok alive env w w"
  by (simp add: trk_ok_def same_config_def)

interpretation trk: evt_handler "thd_track env" "trk_ok alive env w0" tracked selected
  for env alive w0
proof
  fix w tid st
  assume w: "trk_ok alive env w0 w"
  have "abs_ctl (selected w) (Track tid st) (tracked w) = track_set (selected w) tid st (tracked w)"
    by (cases st) (simp_all add: abs_add_def)
  with thd_track_step [of alive w env tid st] w obtain w' where
    "thd_track env tid st w = Inr w'" "world_ok alive w'" "same_config w w'" "thds_on alive w \<longrightarrow> thds_on alive w'"
    "tracked w' = track_set (selected w) tid st (tracked w)"
    by (auto simp: step_ok_def trk_ok_def)
  moreover from this(3) have "selected w' = selected w" by (rule same_config_selected)
  ultimately show "\<exists>w'. thd_track env tid st w = Inr w' \<and> trk_ok alive env w0 w' \<and>
      tracked w' = track_set (selected w) tid st (tracked w) \<and> selected w' = selected w"
    using w by (auto simp: trk_ok_def same_config_def)
qed

section \<open>Properties\<close>

text \<open>
  C12. Any sequence of additions, removals and discovery events, in an environment that answers,
  runs to its end without blocking or failing, keeps the invariant, and leaves in the table
  exactly the threads that the plain set-level reading of the sequence gives.
\<close>

theorem ctl_run_refines:
  assumes "world_ok alive w" "responsive alive env" "\<forall>op \<in> set ops. ctl_alive alive op"
  shows "\<exists>w'. rfold (run_ctl env) ops w = Inr w' \<and> world_ok alive w' \<and>
    tracked w' = fold (abs_ctl (selected w)) ops (tracked w)"
  using run_ctls [OF assms] by (auto simp: step_ok_def)

theorem ctl_run_refines_witness:
  "\<exists>w'. rfold (run_ctl demo_env) [Add 1, Add_self 2, Add 3, Remove 1] demo_world = Inr w' \<and>
     world_ok (\<lambda>_. True) w' \<and> tracked w' = {2}"
  using ctl_run_refines [of "\<lambda>_. True" demo_world demo_env "[Add 1, Add_self 2, Add 3, Remove 1]"]
  by (auto simp: abs_add_def)

text \<open>
  Only threads the plan's selector accepts are ever added.
\<close>

lemma selector_respected:
  assumes "world_ok alive w" "responsive alive env" "\<forall>op \<in> set ops. ctl_alive alive op"
    and "rfold (run_ctl env) ops w = Inr w'" "tid \<in> tracked w'" "tid \<notin> tracked w"
  shows "pl_selector (ap_p (w_plan w)) tid"
proof -
  have "tid \<in> fold (abs_ctl sel) ops T \<Longrightarrow> tid \<in> T \<or> sel tid" for sel T
  proof (induction ops arbitrary: T)
    case (Cons op ops)
    have "tid \<in> abs_ctl sel op T \<Longrightarrow> tid \<in> T \<or> sel tid"
      by (cases "(sel, op, T)" rule: abs_ctl.cases) (auto simp: abs_add_def split: if_splits)
    with Cons show ?case by auto
  qed simp
  with run_ctls [OF assms(1-3)] assms(4-6) show ?thesis
    by (auto simp: step_ok_def selected_def [abs_def])
qed

text \<open>
  The kernel never keeps a pointer into the table for a thread that was taken out of it: after
  any sequence of operations, a living thread whose system calls are dispatched has its state in
  the table, and the range that is exempt is the library's text.
\<close>

lemma no_dangling_selector:
  assumes "world_ok alive w" "responsive alive env" "\<forall>op \<in> set ops. ctl_alive alive op"
    and "rfold (run_ctl env) ops w = Inr w'" "alive tid" "w_sud w' tid = Some d"
  shows "tid \<in> tracked w' \<and> d = text_range (w_self_text w)"
  using run_ctls [OF assms(1-3)] assms(4-6)
  by (auto simp: step_ok_def world_ok_def tracked_iff same_config_def split: if_splits)

text \<open>
  Enabling a living thread that the plan selects and that is not yet tracked arms it, leaves
  its semaphore free for the next signal, and changes nothing of any other thread.
\<close>

lemma thd_enable_arms:
  assumes "world_ok alive w" "responsive alive env" "alive tid" "selected w tid" "tid \<notin> tracked w"
  shows "\<exists>w'. thd_enable env tid w = Inr w' \<and> armed w' tid \<and>
    tab_find (w_thds w') tid = Some \<lparr>ts_on = Block, ts_sem = 1\<rparr> \<and>
    (\<forall>t. t \<noteq> tid \<longrightarrow> tab_find (w_thds w') t = tab_find (w_thds w) t \<and> w_sud w' t = w_sud w t)"
proof -
  have "w_global w" using assms(1) by (simp add: world_ok_def)
  from thd_enable_alive [OF this assms(2-5)] assms(5) show ?thesis
    by (simp add: armed_def tracked_iff)
qed

text \<open>
  Enabling a thread and disabling it again restores the session exactly, whether the thread
  lives or has died in between its discovery and the signal.
\<close>

lemma enable_disable_roundtrip:
  assumes "world_ok alive w" "responsive alive env" "selected w tid" "tid \<notin> tracked w"
  shows "rbind (thd_enable env tid w) (thd_disable env tid) = Inr w"
proof -
  have g: "w_global w" and sud: "alive tid \<Longrightarrow> w_sud w tid = None"
    using assms(1,4) by (auto simp: world_ok_def tracked_iff)
  show ?thesis
  proof (cases "alive tid")
    case True
    let ?w = "w\<lparr>w_thds := tab_insert tid \<lparr>ts_on = Block, ts_sem = 1\<rparr> (w_thds w),
            w_sud := (w_sud w)(tid \<mapsto> text_range (w_self_text w))\<rparr>"
    have "thd_disable env tid ?w =
        Inr (?w\<lparr>w_thds := tab_erase tid (w_thds ?w), w_sud := (w_sud ?w)(tid := None)\<rparr>)"
      by (rule thd_disable_alive [OF _ assms(2) True, where st = "\<lparr>ts_on = Block, ts_sem = 1\<rparr>"])
        (use g assms(4) in \<open>simp_all add: tracked_iff\<close>)
    then show ?thesis
      using thd_enable_alive [OF g assms(2) True assms(3,4)] assms(4) sud [OF True]
      by (simp add: tracked_iff tab_erase_insert fun_upd_idem)
  next
    case False
    let ?w = "w\<lparr>w_thds := tab_insert tid ThdState (w_thds w)\<rparr>"
    have "thd_disable env tid ?w = Inr (?w\<lparr>w_thds := tab_erase tid (w_thds ?w)\<rparr>)"
      by (rule thd_disable_dead [OF assms(2) False, where st = ThdState])
        (use assms(4) in \<open>simp_all add: tracked_iff ThdState_def\<close>)
    then show ?thesis
      using thd_enable_dead [OF assms(2) False assms(3,4)] assms(4)
      by (simp add: tracked_iff tab_erase_insert)
  qed
qed

text \<open>
  The wait for the handler has no way out but the handler or \<open>ESRCH\<close>: when the signal is
  queued and the thread never runs it, because it keeps the signal blocked or ends first, enabling
  the thread blocks for good.
\<close>

lemma thd_enable_blocks:
  assumes "world_ok alive w" "selected w tid" "tid \<notin> tracked w"
    and "e_tgsig env tid SIG_ENABLE = 0" "\<not> e_runs env tid SIG_ENABLE"
  shows "thd_enable env tid w = Inl Blocked"
  using assms by (intro thd_enable_silent) (simp_all add: world_ok_def)

end
