(* ===== verification/Handshake.thy ===== *)
theory Handshake
  imports Thread_Ctl
begin

text \<open>
  The handshake behind \<open>thd_enable\<close> and \<open>thd_disable\<close> of \<open>src/session.cc\<close>, as two threads
  that interleave. \<open>Thread_Ctl\<close> runs the handler of the target at the moment the signal is sent;
  here the controlling thread and the target take their steps in any order, the target may end at
  any time before its handler starts, and a semaphore at zero makes the controller wait. The steps
  are made of the same operations, so what is proved here justifies the sequential reading. A target
  may take as long as it likes to take a queued signal (a mask that it lifts again is such a delay),
  but no step keeps the signal blocked for good and no other handler runs on top of the one of the
  handshake; that is theory \<open>Masked_Removal\<close>.
\<close>

section \<open>States\<close>

datatype mode = Enabling | Disabling

text \<open>The controller: in front of the first acquire, the send, the second acquire, the release, the
  erase (when disabling), or done.\<close>

datatype cpc = C_Acq1 | C_Send | C_Acq2 | C_Rel | C_Erase | C_Done

text \<open>The target: running, with the signal pending, in front of \<open>prctl\<close>, of the selector byte (when
  enabling), of the release, back from the handler, ended, or ended with the signal pending.\<close>

datatype tpc = T_Run | T_Pending | T_Prctl | T_On | T_Rel | T_Back | T_Dead | T_Lost

record hs =
  hs_w :: world
  hs_c :: cpc
  hs_t :: tpc

section \<open>Steps\<close>

text \<open>
  \<open>enable\<close> is taken apart into its two writes. A thread ends with its dispatch setting; while the
  handler runs it does not end.
\<close>

inductive hstep :: "mode \<Rightarrow> pid \<Rightarrow> hs \<Rightarrow> hs \<Rightarrow> bool" for md tid where
  acq1: "hs_c s = C_Acq1 \<Longrightarrow> acquire tid (hs_w s) = Inr w \<Longrightarrow> hstep md tid s (s\<lparr>hs_w := w, hs_c := C_Send\<rparr>)"
| send: "hs_c s = C_Send \<Longrightarrow> hs_t s = T_Run \<Longrightarrow>
    send_signal 0 (Some (release tid)) (hs_w s) = Inr (True, w) \<Longrightarrow>
    hstep md tid s (s\<lparr>hs_w := w, hs_c := C_Acq2, hs_t := T_Pending\<rparr>)"
| esrch: "hs_c s = C_Send \<Longrightarrow> hs_t s = T_Dead \<Longrightarrow>
    send_signal (- ESRCH) (Some (release tid)) (hs_w s) = Inr (False, w) \<Longrightarrow>
    hstep md tid s (s\<lparr>hs_w := w, hs_c := C_Acq2\<rparr>)"
| acq2: "hs_c s = C_Acq2 \<Longrightarrow> acquire tid (hs_w s) = Inr w \<Longrightarrow> hstep md tid s (s\<lparr>hs_w := w, hs_c := C_Rel\<rparr>)"
| rel: "hs_c s = C_Rel \<Longrightarrow> release tid (hs_w s) = Inr w \<Longrightarrow>
    hstep md tid s (s\<lparr>hs_w := w, hs_c := if md = Enabling then C_Done else C_Erase\<rparr>)"
| erase: "hs_c s = C_Erase \<Longrightarrow>
    hstep md tid s (s\<lparr>hs_w := (hs_w s)\<lparr>w_thds := tab_erase tid (w_thds (hs_w s))\<rparr>, hs_c := C_Done\<rparr>)"
| deliver: "hs_t s = T_Pending \<Longrightarrow> hstep md tid s (s\<lparr>hs_t := T_Prctl\<rparr>)"
| prctl_on: "md = Enabling \<Longrightarrow> hs_t s = T_Prctl \<Longrightarrow>
    hstep md tid s (s\<lparr>hs_w := (hs_w s)\<lparr>w_sud := (w_sud (hs_w s))(tid \<mapsto> text_range (w_self_text (hs_w s)))\<rparr>,
      hs_t := T_On\<rparr>)"
| byte_on: "hs_t s = T_On \<Longrightarrow> set_on tid Block (hs_w s) = Inr w \<Longrightarrow>
    hstep md tid s (s\<lparr>hs_w := w, hs_t := T_Rel\<rparr>)"
| prctl_off: "md = Disabling \<Longrightarrow> hs_t s = T_Prctl \<Longrightarrow>
    hstep md tid s (s\<lparr>hs_w := (hs_w s)\<lparr>w_sud := (w_sud (hs_w s))(tid := None)\<rparr>, hs_t := T_Rel\<rparr>)"
| notify: "hs_t s = T_Rel \<Longrightarrow> release tid (hs_w s) = Inr w \<Longrightarrow>
    hstep md tid s (s\<lparr>hs_w := w, hs_t := T_Back\<rparr>)"
| ends: "hs_t s = T_Run \<Longrightarrow> hs_c s \<noteq> C_Done \<Longrightarrow> hstep md tid s (s\<lparr>hs_t := T_Dead\<rparr>)"
| lost: "hs_t s = T_Pending \<Longrightarrow> hstep md tid s (s\<lparr>hs_t := T_Lost\<rparr>)"

section \<open>The invariant\<close>

text \<open>The count of the semaphore at each pair of positions that occurs.\<close>

fun sem_at :: "cpc \<Rightarrow> tpc \<Rightarrow> nat option" where
  "sem_at C_Acq1 t = (if t \<in> {T_Run, T_Dead} then Some 1 else None)"
| "sem_at C_Send t = (if t \<in> {T_Run, T_Dead} then Some 0 else None)"
| "sem_at C_Acq2 t = (if t = T_Run then None else if t \<in> {T_Back, T_Dead} then Some 1 else Some 0)"
| "sem_at C_Rel t = (if t \<in> {T_Back, T_Dead} then Some 0 else None)"
| "sem_at C_Erase t = (if t \<in> {T_Back, T_Dead} then Some 1 else None)"
| "sem_at C_Done t = (if t \<in> {T_Back, T_Dead} then Some 1 else None)"

definition on_at :: "mode \<Rightarrow> disp \<Rightarrow> tpc \<Rightarrow> disp" where
  "on_at md d t = (if md = Enabling \<and> t \<in> {T_Rel, T_Back} then Block else d)"

definition sud_at :: "mode \<Rightarrow> pid \<Rightarrow> world \<Rightarrow> tpc \<Rightarrow> pid \<Rightarrow> sud option" where
  "sud_at md tid w t =
     (if md = Enabling
      then if t \<in> {T_On, T_Rel, T_Back} then (w_sud w)(tid \<mapsto> text_range (w_self_text w)) else w_sud w
      else if t \<in> {T_Rel, T_Back} then (w_sud w)(tid := None) else w_sud w)"

text \<open>
  The world a state must have, when \<open>w\<close> is the session without the thread and \<open>d\<close> the selector
  the thread's entry began with.
\<close>

definition entry :: "pid \<Rightarrow> world \<Rightarrow> disp \<Rightarrow> nat \<Rightarrow> (pid \<Rightarrow> sud option) \<Rightarrow> world" where
  "entry tid w d n x = w\<lparr>w_thds := tab_insert tid \<lparr>ts_on = d, ts_sem = n\<rparr> (w_thds w), w_sud := x\<rparr>"

definition hs_expected :: "mode \<Rightarrow> pid \<Rightarrow> world \<Rightarrow> disp \<Rightarrow> cpc \<Rightarrow> tpc \<Rightarrow> world" where
  "hs_expected md tid w d c t =
     (if md = Disabling \<and> c = C_Done then w\<lparr>w_sud := sud_at md tid w t\<rparr>
      else entry tid w (on_at md d t) (the (sem_at c t)) (sud_at md tid w t))"

definition hs_ok :: "mode \<Rightarrow> pid \<Rightarrow> world \<Rightarrow> disp \<Rightarrow> hs \<Rightarrow> bool" where
  "hs_ok md tid w d s =
     (tid \<notin> tracked w \<and> sem_at (hs_c s) (hs_t s) \<noteq> None \<and>
      (hs_t s = T_On \<longrightarrow> md = Enabling) \<and> (hs_c s = C_Erase \<longrightarrow> md = Disabling) \<and>
      hs_w s = hs_expected md tid w d (hs_c s) (hs_t s))"

text \<open>How far the two threads have to go.\<close>

primrec c_left :: "cpc \<Rightarrow> nat" where
  "c_left C_Acq1 = 5" | "c_left C_Send = 4" | "c_left C_Acq2 = 3" | "c_left C_Rel = 2" | "c_left C_Erase = 1"
| "c_left C_Done = 0"

primrec t_left :: "tpc \<Rightarrow> nat" where
  "t_left T_Run = 6" | "t_left T_Pending = 5" | "t_left T_Prctl = 4" | "t_left T_On = 3" | "t_left T_Rel = 2"
| "t_left T_Back = 0" | "t_left T_Dead = 0" | "t_left T_Lost = 0"

definition hs_left :: "hs \<Rightarrow> nat" where
  "hs_left s = c_left (hs_c s) + t_left (hs_t s)"

lemma entry_ops:
  assumes "tid \<notin> tracked w"
  shows "acquire tid (entry tid w d n x) = (if n = 0 then Inl Blocked else Inr (entry tid w d (n - 1) x))"
    and "release tid (entry tid w d n x) =
      (if n \<ge> 1 then Inl (Undefined ''binary_semaphore: release'') else Inr (entry tid w d 1 x))"
    and "set_on tid e (entry tid w d n x) = Inr (entry tid w e n x)"
    and "(entry tid w d n x)\<lparr>w_sud := y\<rparr> = entry tid w d n y"
    and "(entry tid w d n x)\<lparr>w_thds := tab_erase tid (w_thds (entry tid w d n x))\<rparr> = w\<lparr>w_sud := x\<rparr>"
    and "w_sud (entry tid w d n x) = x" "w_self_text (entry tid w d n x) = w_self_text w"
  using assms
  by (simp_all add: entry_def ptr_defs thd_mod_def sem_defs tracked_iff tab_update_insert tab_erase_insert
      not_le less_Suc_eq)

lemma tpc_simps: "on_at md d T_Run = d" "on_at md d T_Pending = d" "on_at md d T_Prctl = d" "on_at md d T_On = d"
  "on_at md d T_Dead = d" "on_at md d T_Lost = d"
  "sud_at md tid w T_Run = w_sud w" "sud_at md tid w T_Pending = w_sud w" "sud_at md tid w T_Prctl = w_sud w"
  "sud_at md tid w T_Dead = w_sud w" "sud_at md tid w T_Lost = w_sud w"
  "on_at md d T_Rel = on_at md d T_Back" "sud_at md tid w T_Rel = sud_at md tid w T_Back"
  "sud_at Enabling tid w T_On = sud_at Enabling tid w T_Back"
  "sud_at Enabling tid w T_Back = (w_sud w)(tid \<mapsto> text_range (w_self_text w))"
  "sud_at Disabling tid w T_Back = (w_sud w)(tid := None)"
  "on_at Enabling d T_Back = Block" "on_at Disabling d t = d"
  by (simp_all add: on_at_def sud_at_def)

lemma hs_ok_step:
  assumes "hs_ok md tid w d s" "hstep md tid s s'"
  shows "hs_ok md tid w d s'"
proof -
  have fresh: "tid \<notin> tracked w" and s: "sem_at (hs_c s) (hs_t s) \<noteq> None" "hs_t s = T_On \<longrightarrow> md = Enabling"
    "hs_c s = C_Erase \<longrightarrow> md = Disabling" "hs_w s = hs_expected md tid w d (hs_c s) (hs_t s)"
    using assms(1) by (auto simp: hs_ok_def)
  note ops = entry_ops [OF fresh]
  show ?thesis
    using assms(2)
  proof cases
    case (acq1 w1)
    with s fresh show ?thesis by (auto simp: hs_ok_def hs_expected_def ops split: if_splits)
  next
    case (send w1)
    with s fresh show ?thesis by (auto simp: hs_ok_def hs_expected_def send_signal_0 tpc_simps)
  next
    case (esrch w1)
    with s fresh show ?thesis by (auto simp: hs_ok_def hs_expected_def send_signal_esrch ops)
  next
    case (acq2 w1)
    with s fresh show ?thesis by (auto simp: hs_ok_def hs_expected_def ops split: if_splits)
  next
    case (rel w1)
    with s fresh show ?thesis by (auto simp: hs_ok_def hs_expected_def ops split: if_splits) (cases md; simp)+
  next
    case erase
    with s fresh show ?thesis by (auto simp: hs_ok_def hs_expected_def ops split: if_splits)
  next
    case deliver
    with s fresh show ?thesis
      by (cases "hs_c s") (auto simp: hs_ok_def hs_expected_def tpc_simps)
  next
    case prctl_on
    with s fresh show ?thesis
      by (cases "hs_c s") (auto simp: hs_ok_def hs_expected_def tpc_simps ops)
  next
    case (byte_on w1)
    with s fresh show ?thesis
      by (cases "hs_c s") (auto simp: hs_ok_def hs_expected_def tpc_simps ops)
  next
    case prctl_off
    with s fresh show ?thesis
      by (cases "hs_c s") (auto simp: hs_ok_def hs_expected_def tpc_simps ops)
  next
    case (notify w1)
    with s fresh show ?thesis
      by (cases "hs_c s") (auto simp: hs_ok_def hs_expected_def tpc_simps ops)
  next
    case ends
    with s fresh show ?thesis
      by (cases "hs_c s") (auto simp: hs_ok_def hs_expected_def tpc_simps)
  next
    case lost
    with s fresh show ?thesis
      by (cases "hs_c s") (auto simp: hs_ok_def hs_expected_def tpc_simps)
  qed
qed

inductive_cases hstepE: "hstep md tid s s'"

lemma hs_left_step: "hstep md tid s s' \<Longrightarrow> hs_left s' < hs_left s"
  by (elim hstepE) (auto simp: hs_left_def)

interpretation hand: step_measure "hstep md tid" "hs_ok md tid w d" hs_left
  for md tid w d
  by unfold_locales (blast intro: hs_ok_step hs_left_step)+

text \<open>The state in which the controller has the entry and goes for the semaphore.\<close>

definition hs_init :: "pid \<Rightarrow> world \<Rightarrow> disp \<Rightarrow> hs" where
  "hs_init tid w d = \<lparr>hs_w = w\<lparr>w_thds := tab_insert tid \<lparr>ts_on = d, ts_sem = 1\<rparr> (w_thds w)\<rparr>, hs_c = C_Acq1, hs_t = T_Run\<rparr>"

lemma hs_init_ok: "tid \<notin> tracked w \<Longrightarrow> hs_ok md tid w d (hs_init tid w d)"
  by (simp add: hs_ok_def hs_init_def hs_expected_def entry_def tpc_simps)

lemma hs_reach_ok: "tid \<notin> tracked w \<Longrightarrow> (hstep md tid)\<^sup>*\<^sup>* (hs_init tid w d) s \<Longrightarrow> hs_ok md tid w d s"
  by (rule hand.reach_inv [OF _ hs_init_ok])

text \<open>Some thread can move, but in one case.\<close>

lemma hs_progress:
  assumes "hs_ok md tid w d s" "hs_c s \<noteq> C_Done"
  shows "hs_c s = C_Acq2 \<and> hs_t s = T_Lost \<or> (\<exists>s'. hstep md tid s s')"
proof -
  have fresh: "tid \<notin> tracked w" and s: "sem_at (hs_c s) (hs_t s) \<noteq> None"
    "hs_w s = hs_expected md tid w d (hs_c s) (hs_t s)"
    using assms(1) by (auto simp: hs_ok_def)
  note ops = entry_ops [OF fresh]
  show ?thesis
  proof (cases "hs_c s")
    case C_Acq1
    with s have "\<exists>w1. acquire tid (hs_w s) = Inr w1" by (auto simp: hs_expected_def ops split: if_splits)
    with C_Acq1 show ?thesis by (blast intro: hstep.acq1)
  next
    case C_Send
    then consider "hs_t s = T_Run" | "hs_t s = T_Dead" using s(1) by (auto split: if_splits)
    then show ?thesis
    proof cases
      case 1
      with C_Send hstep.send [OF C_Send 1 send_signal_0] show ?thesis by blast
    next
      case 2
      have "send_signal (- ESRCH) (Some (release tid)) (hs_w s) = Inr (False, entry tid w d 1 (w_sud w))"
        using 2 C_Send s(2) by (simp add: hs_expected_def send_signal_esrch ops tpc_simps)
      from hstep.esrch [OF C_Send 2 this] show ?thesis by blast
    qed
  next
    case C_Acq2
    have go: "hs_t s \<in> {T_Back, T_Dead} \<Longrightarrow> \<exists>w1. acquire tid (hs_w s) = Inr w1"
      "hs_t s = T_On \<Longrightarrow> \<exists>w1. set_on tid Block (hs_w s) = Inr w1"
      "hs_t s = T_Rel \<Longrightarrow> \<exists>w1. release tid (hs_w s) = Inr w1"
      using C_Acq2 s by (auto simp: hs_expected_def ops)
    show ?thesis
    proof (cases "hs_t s")
      case T_Prctl
      then show ?thesis using hstep.prctl_on hstep.prctl_off by (cases md) blast+
    next
      case T_Pending
      then show ?thesis by (blast intro: hstep.deliver)
    next
      case T_On
      with go(2) show ?thesis by (blast intro: hstep.byte_on)
    next
      case T_Rel
      with go(3) show ?thesis by (blast intro: hstep.notify)
    qed (use C_Acq2 s(1) go(1) in \<open>auto intro: hstep.acq2\<close>)
  next
    case C_Rel
    with s have "\<exists>w1. release tid (hs_w s) = Inr w1" by (auto simp: hs_expected_def ops split: if_splits)
    with C_Rel show ?thesis by (blast intro: hstep.rel)
  next
    case C_Erase
    then show ?thesis by (blast intro: hstep.erase)
  next
    case C_Done
    with assms(2) show ?thesis by simp
  qed
qed

lemma hs_stuck:
  assumes "hs_ok md tid w d s" "hs_c s = C_Done \<or> hs_c s = C_Acq2 \<and> hs_t s = T_Lost"
  shows "\<not> hstep md tid s s'"
proof
  assume "hstep md tid s s'"
  with assms show False
    by (elim hstepE) (auto simp: hs_ok_def hs_expected_def entry_ops split: if_splits)
qed

text \<open>The run in which both threads do their part.\<close>

definition hs_at :: "mode \<Rightarrow> pid \<Rightarrow> world \<Rightarrow> disp \<Rightarrow> cpc \<Rightarrow> tpc \<Rightarrow> hs" where
  "hs_at md tid w d c t = \<lparr>hs_w = hs_expected md tid w d c t, hs_c = c, hs_t = t\<rparr>"

lemma hs_at_init: "hs_init tid w d = hs_at md tid w d C_Acq1 T_Run"
  by (simp add: hs_at_def hs_init_def hs_expected_def entry_def tpc_simps)

lemma hs_run:
  assumes "tid \<notin> tracked w"
  shows "hstep md tid (hs_at md tid w d C_Acq1 T_Run) (hs_at md tid w d C_Send T_Run)"
    and "hstep md tid (hs_at md tid w d C_Send T_Run) (hs_at md tid w d C_Acq2 T_Pending)"
    and "hstep md tid (hs_at md tid w d C_Acq2 T_Pending) (hs_at md tid w d C_Acq2 T_Prctl)"
    and "hstep Enabling tid (hs_at Enabling tid w d C_Acq2 T_Prctl) (hs_at Enabling tid w d C_Acq2 T_On)"
    and "hstep Enabling tid (hs_at Enabling tid w d C_Acq2 T_On) (hs_at Enabling tid w d C_Acq2 T_Rel)"
    and "hstep md tid (hs_at md tid w d C_Acq2 T_Rel) (hs_at md tid w d C_Acq2 T_Back)"
    and "hstep md tid (hs_at md tid w d C_Acq2 T_Back) (hs_at md tid w d C_Rel T_Back)"
    and "hstep Enabling tid (hs_at Enabling tid w d C_Rel T_Back) (hs_at Enabling tid w d C_Done T_Back)"
  using assms
  by (simp_all add: hstep.simps hs_at_def hs_expected_def entry_ops tpc_simps send_signal_0)

lemma hs_full_run:
  assumes "tid \<notin> tracked w"
  shows "(hstep Enabling tid)\<^sup>*\<^sup>* (hs_init tid w d) (hs_at Enabling tid w d C_Done T_Back)"
  unfolding hs_at_init [of _ _ _ Enabling]
  by (meson hs_run [OF assms] rtranclp.rtrancl_into_rtrancl rtranclp.rtrancl_refl)

section \<open>Properties\<close>

text \<open>
  C6. In every interleaving of the handshake, the semaphore is only released when it is taken and the
  thread's entry is there whenever controller or handler touch it: no release of a free semaphore,
  no access to an erased entry, neither by the release of the handler nor by the one for a thread
  that is gone.
\<close>

theorem handshake_safe:
  assumes "tid \<notin> tracked w" "(hstep md tid)\<^sup>*\<^sup>* (hs_init tid w d) s"
  shows "(hs_c s = C_Rel \<or> hs_t s = T_Rel \<or> hs_c s = C_Send \<and> hs_t s = T_Dead \<longrightarrow>
      (\<exists>w'. release tid (hs_w s) = Inr w')) \<and>
    (hs_t s = T_On \<longrightarrow> (\<exists>w'. set_on tid Block (hs_w s) = Inr w')) \<and>
    (hs_c s \<in> {C_Acq1, C_Acq2} \<longrightarrow> acquire tid (hs_w s) = Inl Blocked \<or> (\<exists>w'. acquire tid (hs_w s) = Inr w'))"
  using hs_reach_ok [OF assms]
  by (cases "hs_c s") (auto simp: hs_ok_def hs_expected_def entry_ops split: if_splits)

theorem handshake_safe_witness:
  "\<exists>s. (hstep Enabling 1)\<^sup>*\<^sup>* (hs_init 1 demo_world Allow) s \<and> hs_t s = T_Dead \<and> hs_c s = C_Send \<and>
     (\<exists>w'. release 1 (hs_w s) = Inr w')"
proof -
  let ?s0 = "hs_init 1 demo_world Allow"
  let ?s1 = "?s0\<lparr>hs_t := T_Dead\<rparr>"
  have "hstep Enabling 1 ?s0 ?s1" by (rule hstep.ends) (simp_all add: hs_init_def)
  moreover obtain w where "acquire 1 (hs_w ?s1) = Inr w"
    by (simp add: hs_init_def ptr_defs thd_mod_def sem_defs demo_world_def)
  then have "hstep Enabling 1 ?s1 (?s1\<lparr>hs_w := w, hs_c := C_Send\<rparr>)"
    by (intro hstep.acq1) (simp_all add: hs_init_def)
  ultimately have "(hstep Enabling 1)\<^sup>*\<^sup>* ?s0 (?s1\<lparr>hs_w := w, hs_c := C_Send\<rparr>)" by auto
  with handshake_safe [OF _ this] show ?thesis by fastforce
qed

text \<open>
  C5. Every interleaving that completes gives what the sequential \<open>thd_enable\<close> and
  \<open>thd_disable\<close> give: the result for a living thread if the handler has run, and the result for
  a missing one if the thread ended first. In particular the handler is out of the entry before
  the entry is erased.
\<close>

theorem handshake_refines:
  assumes "tid \<notin> tracked w" "w_global w" "selected w tid"
    and "(hstep md tid)\<^sup>*\<^sup>* (hs_init tid w d) s" "hs_c s = C_Done"
    and "responsive alive env" "alive tid = (hs_t s = T_Back)"
  shows "hs_t s \<in> {T_Back, T_Dead} \<and>
    (md = Enabling \<and> d = Allow \<longrightarrow> thd_enable env tid w = Inr (hs_w s)) \<and>
    (md = Disabling \<longrightarrow> thd_disable env tid (hs_w (hs_init tid w d)) = Inr (hs_w s))"
proof -
  have s: "hs_t s \<in> {T_Back, T_Dead}" "hs_w s = hs_expected md tid w d C_Done (hs_t s)"
    using hs_reach_ok [OF assms(1,4)] assms(5) by (auto simp: hs_ok_def split: if_splits)
  have fresh: "tab_find (w_thds w) tid = None" using assms(1) by (simp add: tracked_iff)
  show ?thesis
  proof (cases "hs_t s = T_Back")
    case True
    then have "alive tid" using assms(7) by simp
    with True s fresh thd_enable_alive [OF assms(2,6) _ assms(3,1)]
      thd_disable_alive [OF _ assms(6), of "hs_w (hs_init tid w d)" tid "\<lparr>ts_on = d, ts_sem = 1\<rparr>"] assms(2)
    show ?thesis
      by (auto simp: hs_expected_def entry_def hs_init_def tpc_simps tab_erase_insert)
  next
    case False
    then have dead: "\<not> alive tid" "hs_t s = T_Dead" using assms(7) s(1) by auto
    with s fresh thd_enable_dead [OF assms(6) _ assms(3,1)]
      thd_disable_dead [OF assms(6) dead(1), of "hs_w (hs_init tid w d)" "\<lparr>ts_on = d, ts_sem = 1\<rparr>"]
    show ?thesis
      by (auto simp: hs_expected_def entry_def hs_init_def tpc_simps tab_erase_insert ThdState_def)
  qed
qed

theorem handshake_refines_witness:
  "thd_enable demo_env 1 demo_world = Inr (hs_expected Enabling 1 demo_world Allow C_Done T_Back)"
proof -
  let ?s = "hs_at Enabling 1 demo_world Allow C_Done T_Back"
  have "(hstep Enabling 1)\<^sup>*\<^sup>* (hs_init 1 demo_world Allow) ?s" by (rule hs_full_run) simp
  from handshake_refines [OF _ _ _ this, of "\<lambda>_. True" demo_env] show ?thesis
    by (simp add: hs_at_def) (simp add: demo_world_def)
qed

text \<open>
  C27. The handshake with a target that, once the signal is queued, either takes it or ends, and whose
  handler is not interrupted by another one, has no endless run: eleven steps at most. Where it
  cannot go on, it is done or it is in one situation, in which the thread ended with the signal
  pending: then the controller waits for a release that no one will make. As long as the target has
  not come back from its handler the controller waits, so there are two other ways to wait for ever,
  outside these steps: a target that keeps the signal blocked (\<open>thd_enable_silent\<close> of
  \<open>Thread_Ctl\<close>), and a nested handler that asks for the accessor (theory \<open>Masked_Removal\<close>).
\<close>

theorem handshake_ends:
  assumes "tid \<notin> tracked w" "(hstep md tid ^^ n) (hs_init tid w d) s"
  shows "n \<le> 11 \<and> ((\<forall>s'. \<not> hstep md tid s s') \<longleftrightarrow> hs_c s = C_Done \<or> hs_c s = C_Acq2 \<and> hs_t s = T_Lost) \<and>
    (hs_c s = C_Acq2 \<and> hs_t s \<notin> {T_Back, T_Dead} \<longrightarrow> acquire tid (hs_w s) = Inl Blocked)"
proof -
  from hand.run_bound [OF assms(2) hs_init_ok [OF assms(1)]]
  have ok: "hs_ok md tid w d s" and n: "n \<le> 11" by (auto simp: hs_init_def hs_left_def)
  have "acquire tid (hs_w s) = Inl Blocked" if "hs_c s = C_Acq2" "hs_t s \<notin> {T_Back, T_Dead}"
    using ok that assms(1) by (auto simp: hs_ok_def hs_expected_def entry_ops split: if_splits)
  with n hs_progress [OF ok] hs_stuck [OF ok] show ?thesis by blast
qed

theorem handshake_ends_witness:
  "\<exists>s. (hstep Enabling 1 ^^ 3) (hs_init 1 demo_world Allow) s \<and> (\<forall>s'. \<not> hstep Enabling 1 s s')"
proof -
  let ?at = "hs_at Enabling 1 demo_world Allow"
  have "hstep Enabling 1 (?at C_Acq2 T_Pending) (?at C_Acq2 T_Lost)"
    using hstep.lost [of "?at C_Acq2 T_Pending" Enabling 1] by (simp add: hs_at_def hs_expected_def tpc_simps)
  with hs_run(1-2) [of 1 demo_world Enabling Allow]
  have "(hstep Enabling 1 ^^ 3) (hs_init 1 demo_world Allow) (?at C_Acq2 T_Lost)"
    unfolding hs_at_init [of _ _ _ Enabling] by (simp add: numeral_3_eq_3 relcompp_apply) blast
  from this handshake_ends [OF _ this] show ?thesis by (auto simp: hs_at_def)
qed

end
