(* ===== verification/Controllers.thy ===== *)
theory Controllers
  imports Handshake
begin

text \<open>
  Several threads that control threads at the same time: users of the API, the poller and threads
  that act on themselves. The accessor of \<open>tbb::concurrent_hash_map\<close> lets one operation at a time at
  the entry of a thread; operations on different threads run at the same time, each by the steps of
  the handshake of theory \<open>Handshake\<close>, on one shared table. The operations that have ended are
  collected in the order in which they ended.
\<close>

section \<open>States\<close>

text \<open>What is going on at the entry of a thread.\<close>

datatype job = Idle | Job mode cpc tpc

text \<open>
  An operation that has ended: by another thread, where the flag says whether the handler up, or by
  the thread itself.
\<close>

datatype cop = Ctl mode pid bool | Own mode pid

record mc =
  mc_w :: world
  mc_job :: "pid \<Rightarrow> job"
  mc_alive :: "pid \<Rightarrow> bool"
  mc_log :: "cop list"

definition target_at :: "mc \<Rightarrow> pid \<Rightarrow> tpc" where
  "target_at s tid = (if mc_alive s tid then T_Run else T_Dead)"

text \<open>The same operations one after the other: signals are answered as they were.\<close>

definition env_ran :: "bool \<Rightarrow> env" where
  "env_ran up =
     \<lparr>e_tgsig = (\<lambda>_ _. if up then 0 else - ESRCH), e_runs = (\<lambda>_ _. True), e_prctl_on = (\<lambda>_. True),
      e_prctl_off = (\<lambda>_. True)\<rparr>"

fun run_cop :: "cop \<Rightarrow> world \<Rightarrow> world result" where
  "run_cop (Ctl Enabling tid up) w = thd_enable (env_ran up) tid w"
| "run_cop (Ctl Disabling tid up) w = thd_disable (env_ran up) tid w"
| "run_cop (Own Enabling tid) w = thd_enable_self (env_ran True) tid w"
| "run_cop (Own Disabling tid) w = thd_disable_self (env_ran True) tid w"

section \<open>Steps\<close>

text \<open>An operation that returns before it has the accessor, or finds nothing to do with it.\<close>

definition skips :: "mc \<Rightarrow> mode \<Rightarrow> pid \<Rightarrow> bool" where
  "skips s md tid =
     (if md = Enabling
      then \<not> selected (mc_w s) tid \<or> mc_job s tid = Idle \<and> tab_find (w_thds (mc_w s)) tid \<noteq> None
      else mc_job s tid = Idle \<and> tab_find (w_thds (mc_w s)) tid = None)"

inductive mcstep :: "mc \<Rightarrow> mc \<Rightarrow> bool" where
  skip: "skips s md tid \<Longrightarrow> mcstep s (s\<lparr>mc_log := mc_log s @ [Ctl md tid up]\<rparr>)"
| begin_on: "mc_job s tid = Idle \<Longrightarrow> selected (mc_w s) tid \<Longrightarrow> tab_find (w_thds (mc_w s)) tid = None \<Longrightarrow>
    mcstep s (s\<lparr>mc_w := (mc_w s)\<lparr>w_thds := tab_insert tid ThdState (w_thds (mc_w s))\<rparr>,
      mc_job := (mc_job s)(tid := Job Enabling C_Acq1 (target_at s tid))\<rparr>)"
| begin_off: "mc_job s tid = Idle \<Longrightarrow> tab_find (w_thds (mc_w s)) tid \<noteq> None \<Longrightarrow>
    mcstep s (s\<lparr>mc_job := (mc_job s)(tid := Job Disabling C_Acq1 (target_at s tid))\<rparr>)"
| work: "mc_job s tid = Job md c t \<Longrightarrow> hstep md tid \<lparr>hs_w = mc_w s, hs_c = c, hs_t = t\<rparr> h \<Longrightarrow>
    mcstep s (s\<lparr>mc_w := hs_w h, mc_job := (mc_job s)(tid := Job md (hs_c h) (hs_t h))\<rparr>)"
| finish: "mc_job s tid = Job md C_Done t \<Longrightarrow>
    mcstep s (s\<lparr>mc_job := (mc_job s)(tid := Idle), mc_alive := (mc_alive s)(tid := t = T_Back),
      mc_log := mc_log s @ [Ctl md tid (t = T_Back)]\<rparr>)"
| own: "mc_job s tid = Idle \<Longrightarrow> mc_alive s tid \<Longrightarrow> run_cop (Own md tid) (mc_w s) = Inr w \<Longrightarrow>
    mcstep s (s\<lparr>mc_w := w, mc_log := mc_log s @ [Own md tid]\<rparr>)"
| dies: "mc_job s tid = Idle \<Longrightarrow> mcstep s (s\<lparr>mc_alive := (mc_alive s)(tid := False)\<rparr>)"

definition mc_start :: "world \<Rightarrow> (pid \<Rightarrow> bool) \<Rightarrow> mc" where
  "mc_start w alive = \<lparr>mc_w = w, mc_job = (\<lambda>_. Idle), mc_alive = alive, mc_log = []\<rparr>"

section \<open>One entry at a time\<close>

text \<open>Two worlds that agree but for the order of the table.\<close>

definition same_world :: "world \<Rightarrow> world \<Rightarrow> bool" where
  "same_world w v =
     (same_config w v \<and> w_global w = w_global v \<and> tab_find (w_thds w) = tab_find (w_thds v) \<and> w_sud w = w_sud v)"

text \<open>The dispatch setting of the target, which began with \<open>x\<close>.\<close>

definition sud_of :: "mode \<Rightarrow> addr_range \<Rightarrow> tpc \<Rightarrow> sud option \<Rightarrow> sud option" where
  "sud_of md self t x =
     (if md = Enabling then if t \<in> {T_On, T_Rel, T_Back} then Some (text_range self) else x
      else if t \<in> {T_Rel, T_Back} then None else x)"

text \<open>The entry and the setting of a thread while the handshake is at it.\<close>

definition job_at ::
    "mode \<Rightarrow> disp \<Rightarrow> addr_range \<Rightarrow> sud option \<Rightarrow> cpc \<Rightarrow> tpc \<Rightarrow> thd_state option \<Rightarrow> sud option \<Rightarrow> bool" where
  "job_at md d self x c t e y =
     (sem_at c t \<noteq> None \<and> (t = T_On \<longrightarrow> md = Enabling) \<and> (c = C_Erase \<longrightarrow> md = Disabling) \<and>
      e = (if md = Disabling \<and> c = C_Done then None else Some \<lparr>ts_on = on_at md d t, ts_sem = the (sem_at c t)\<rparr>) \<and>
      y = sud_of md self t x)"

text \<open>A step of the handshake leaves the other threads alone, and depends on nothing of them.\<close>

lemma thd_mod_Inr:
  "thd_mod tid f w = Inr w' \<longleftrightarrow>
    (\<exists>st st'. tab_find (w_thds w) tid = Some st \<and> f st = Inr st' \<and> w' = w\<lparr>w_thds := tab_update tid st' (w_thds w)\<rparr>)"
  by (auto simp: thd_mod_def rbind_Inr_conv split: option.splits)

lemma ptr_Inr:
  "acquire tid w = Inr w' \<longleftrightarrow> (\<exists>st. tab_find (w_thds w) tid = Some st \<and> ts_sem st \<noteq> 0 \<and>
    w' = w\<lparr>w_thds := tab_update tid (st\<lparr>ts_sem := ts_sem st - 1\<rparr>) (w_thds w)\<rparr>)"
  "release tid w = Inr w' \<longleftrightarrow> (\<exists>st. tab_find (w_thds w) tid = Some st \<and> ts_sem st = 0 \<and>
    w' = w\<lparr>w_thds := tab_update tid (st\<lparr>ts_sem := 1\<rparr>) (w_thds w)\<rparr>)"
  "set_on tid d w = Inr w' \<longleftrightarrow> (\<exists>st. tab_find (w_thds w) tid = Some st \<and>
    w' = w\<lparr>w_thds := tab_update tid (st\<lparr>ts_on := d\<rparr>) (w_thds w)\<rparr>)"
  by (auto simp: ptr_defs thd_mod_Inr sem_defs Suc_le_eq split: if_splits)

lemma hstep_frame:
  assumes "hstep md tid s s'"
  shows "same_config (hs_w s) (hs_w s')" "w_global (hs_w s') = w_global (hs_w s)"
    "j \<noteq> tid \<Longrightarrow> tab_find (w_thds (hs_w s')) j = tab_find (w_thds (hs_w s)) j"
    "j \<noteq> tid \<Longrightarrow> w_sud (hs_w s') j = w_sud (hs_w s) j"
  using assms
  by (cases; auto simp: same_config_def ptr_Inr send_signal_0 send_signal_esrch rbind_Inr_conv)+

lemma hstep_at:
  assumes "hstep md tid s s'" "w_self_text (hs_w s) = self"
    and "job_at md d self x (hs_c s) (hs_t s) (tab_find (w_thds (hs_w s)) tid) (w_sud (hs_w s) tid)"
  shows "job_at md d self x (hs_c s') (hs_t s') (tab_find (w_thds (hs_w s')) tid) (w_sud (hs_w s') tid)"
  using assms(1)
proof cases
  case (rel w)
  then show ?thesis using assms(3) by (cases md) (auto simp: job_at_def ptr_Inr split: if_splits)
qed (use assms(2,3) in \<open>cases "hs_c s"; auto simp: job_at_def ptr_Inr send_signal_0 send_signal_esrch rbind_Inr_conv
    on_at_def sud_of_def split: if_splits\<close>)+

section \<open>The invariant\<close>

text \<open>
  The entry of a thread compared with the world \<open>v\<close> that the operations that have ended make, one
  after the other.
\<close>

fun at_ok :: "world \<Rightarrow> world \<Rightarrow> pid \<Rightarrow> job \<Rightarrow> bool" where
  "at_ok v w tid Idle = (tab_find (w_thds w) tid = tab_find (w_thds v) tid \<and> w_sud w tid = w_sud v tid)"
| "at_ok v w tid (Job md c t) =
     (\<exists>d. tab_find (w_thds v) tid = (if md = Enabling then None else Some \<lparr>ts_on = d, ts_sem = 1\<rparr>) \<and>
        (md = Enabling \<longrightarrow> selected v tid \<and> d = Allow) \<and>
        job_at md d (w_self_text v) (w_sud v tid) c t (tab_find (w_thds w) tid) (w_sud w tid))"

definition seq_ok :: "world \<Rightarrow> bool" where
  "seq_ok v = (w_global v \<and> (\<forall>tid st. tab_find (w_thds v) tid = Some st \<longrightarrow> ts_sem st = 1))"

definition follows :: "world \<Rightarrow> mc \<Rightarrow> bool" where
  "follows v s =
     (seq_ok v \<and> same_config v (mc_w s) \<and> w_global (mc_w s) \<and> (\<forall>tid. at_ok v (mc_w s) tid (mc_job s tid)))"

definition mc_ok :: "world \<Rightarrow> mc \<Rightarrow> bool" where
  "mc_ok w0 s = (\<exists>v. rfold run_cop (mc_log s) w0 = Inr v \<and> follows v s)"

lemma at_ok_cong:
  assumes "at_ok v w tid j" "tab_find (w_thds w') tid = tab_find (w_thds w) tid" "w_sud w' tid = w_sud w tid"
    and "tab_find (w_thds v') tid = tab_find (w_thds v) tid" "w_sud v' tid = w_sud v tid" "same_config v v'"
  shows "at_ok v' w' tid j"
  using assms same_config_selected [OF assms(6)] by (cases j) (auto simp: same_config_def)

lemma responsive_up: "responsive (\<lambda>_. up) (env_ran up)"
  by (simp add: responsive_def env_ran_def)

text \<open>An operation of which only one thread's entry and setting are affected.\<close>

lemma follows_local:
  assumes "follows v s" "seq_ok v'" "same_config v v'" "same_config (mc_w s) (mc_w s')" "w_global (mc_w s')"
    and "\<And>j. j \<noteq> tid \<Longrightarrow> mc_job s' j = mc_job s j \<and>
      tab_find (w_thds (mc_w s')) j = tab_find (w_thds (mc_w s)) j \<and> w_sud (mc_w s') j = w_sud (mc_w s) j \<and>
      tab_find (w_thds v') j = tab_find (w_thds v) j \<and> w_sud v' j = w_sud v j"
    and "at_ok v' (mc_w s') tid (mc_job s' tid)"
  shows "follows v' s'"
proof -
  have "at_ok v' (mc_w s') j (mc_job s' j)" for j
  proof (cases "j = tid")
    case False
    from assms(1) have "at_ok v (mc_w s) j (mc_job s' j)" using assms(6) [OF False] by (simp add: follows_def)
    then show ?thesis by (rule at_ok_cong) (use assms(3) assms(6) [OF False] in auto)
  qed (use assms(7) in simp)
  then show ?thesis using assms(1-5) by (simp add: follows_def same_config_def)
qed

text \<open>The end of an operation is its effect.\<close>

lemma finish_follows:
  assumes "follows v s" "mc_job s tid = Job md C_Done t"
  shows "\<exists>v'. run_cop (Ctl md tid (t = T_Back)) v = Inr v' \<and> follows v' (s\<lparr>mc_job := (mc_job s)(tid := Idle)\<rparr>)"
proof -
  have v: "w_global v" "seq_ok v" using assms(1) by (simp_all add: follows_def seq_ok_def)
  obtain d where d: "tab_find (w_thds v) tid = (if md = Enabling then None else Some \<lparr>ts_on = d, ts_sem = 1\<rparr>)"
      "md = Enabling \<longrightarrow> selected v tid \<and> d = Allow"
      "job_at md d (w_self_text v) (w_sud v tid) C_Done t (tab_find (w_thds (mc_w s)) tid) (w_sud (mc_w s) tid)"
    using assms unfolding follows_def by (metis at_ok.simps(2))
  have t: "t = T_Back \<or> t = T_Dead" using d(3) by (auto simp: job_at_def split: if_splits)
  define v' where "v' = (if md = Enabling
      then if t = T_Back then v\<lparr>w_thds := tab_insert tid \<lparr>ts_on = Block, ts_sem = 1\<rparr> (w_thds v),
          w_sud := (w_sud v)(tid \<mapsto> text_range (w_self_text v))\<rparr>
        else v\<lparr>w_thds := tab_insert tid ThdState (w_thds v)\<rparr>
      else if t = T_Back then v\<lparr>w_thds := tab_erase tid (w_thds v), w_sud := (w_sud v)(tid := None)\<rparr>
        else v\<lparr>w_thds := tab_erase tid (w_thds v)\<rparr>)"
  have "run_cop (Ctl md tid (t = T_Back)) v = Inr v'"
    using t d(1,2) v(1) thd_enable_alive [where w = v and tid = tid, OF _ responsive_up [of True]]
      thd_enable_dead [where w = v and tid = tid, OF responsive_up [of False]]
      thd_disable_alive [where w = v and tid = tid, OF _ responsive_up [of True]]
      thd_disable_dead [where w = v and tid = tid, OF responsive_up [of False]]
    by (cases md) (auto simp: v'_def tracked_iff)
  moreover have "follows v' (s\<lparr>mc_job := (mc_job s)(tid := Idle)\<rparr>)"
  proof (rule follows_local [OF assms(1), where tid = tid])
    show "seq_ok v'" using v by (auto simp: seq_ok_def v'_def ThdState_def split: if_splits)
    show "at_ok v' (mc_w (s\<lparr>mc_job := (mc_job s)(tid := Idle)\<rparr>)) tid (mc_job (s\<lparr>mc_job := (mc_job s)(tid := Idle)\<rparr>) tid)"
      using t d by (cases md) (auto simp: job_at_def v'_def on_at_def sud_of_def ThdState_def)
  qed (use assms(1) in \<open>auto simp: v'_def same_config_def follows_def\<close>)
  ultimately show ?thesis by blast
qed

text \<open>What a thread does to itself is the same on both worlds.\<close>

definition own_res :: "mode \<Rightarrow> pid \<Rightarrow> world \<Rightarrow> world" where
  "own_res md tid w =
     (if md = Enabling
      then if \<not> selected w tid \<or> tab_find (w_thds w) tid \<noteq> None then w
        else w\<lparr>w_thds := tab_insert tid \<lparr>ts_on = Block, ts_sem = 1\<rparr> (w_thds w),
               w_sud := (w_sud w)(tid \<mapsto> text_range (w_self_text w))\<rparr>
      else if tab_find (w_thds w) tid = None then w
        else w\<lparr>w_thds := tab_erase tid (w_thds w), w_sud := (w_sud w)(tid := None)\<rparr>)"

lemma own_eq: "run_cop (Own md tid) w = Inr (own_res md tid w)"
  by (cases md)
    (auto simp: own_res_def thd_enable_self_def thd_disable_self_def enable_def disable_def env_ran_def set_on_def
      thd_mod_def tab_update_insert ThdState_def)

lemma own_res_frame:
  "same_config w (own_res md tid w)" "w_global (own_res md tid w) = w_global w" "seq_ok w \<Longrightarrow> seq_ok (own_res md tid w)"
  "j \<noteq> tid \<Longrightarrow> tab_find (w_thds (own_res md tid w)) j = tab_find (w_thds w) j"
  "j \<noteq> tid \<Longrightarrow> w_sud (own_res md tid w) j = w_sud w j"
  by (auto simp: own_res_def same_config_def seq_ok_def)

lemma own_res_at:
  assumes "tab_find (w_thds w) tid = tab_find (w_thds v) tid" "w_sud w tid = w_sud v tid" "same_config v w"
  shows "at_ok (own_res md tid v) (own_res md tid w) tid Idle"
  using assms same_config_selected [OF assms(3)]
  by (cases "tab_find (w_thds v) tid") (simp_all add: own_res_def same_config_def)

lemma idle_at:
  assumes "follows v s" "mc_job s tid = Idle"
  shows "tab_find (w_thds (mc_w s)) tid = tab_find (w_thds v) tid" "w_sud (mc_w s) tid = w_sud v tid"
  using assms unfolding follows_def by (metis at_ok.simps(1))+

lemma own_follows:
  assumes "follows v s" "mc_job s tid = Idle"
  shows "follows (own_res md tid v) (s\<lparr>mc_w := own_res md tid (mc_w s)\<rparr>)" (is "follows _ ?s")
proof (rule follows_local [OF assms(1), where tid = tid])
  have "same_config v (mc_w s)" using assms(1) by (simp add: follows_def)
  from own_res_at [OF idle_at [OF assms] this] show "at_ok (own_res md tid v) (mc_w ?s) tid (mc_job ?s tid)"
    by (simp add: assms(2) del: at_ok.simps)
qed (use assms(1) own_res_frame in \<open>simp_all add: follows_def\<close>)

lemma skip_follows:
  assumes "follows v s" "skips s md tid"
  shows "run_cop (Ctl md tid up) v = Inr v"
proof -
  have "selected (mc_w s) = selected v" using assms(1) same_config_selected by (auto simp: follows_def)
  moreover have "mc_job s tid = Idle \<Longrightarrow> tab_find (w_thds v) tid = tab_find (w_thds (mc_w s)) tid"
    using idle_at(1) [OF assms(1)] by simp
  ultimately show ?thesis
    using assms(2) thd_enable_noop [of v tid] thd_disable_noop [of tid v]
    by (cases md) (auto simp: skips_def tracked_iff)
qed

text \<open>An operation that begins is the handshake at its start.\<close>

lemma begin_follows:
  assumes "follows v s" "mc_job s tid = Idle"
    and "if md = Enabling then selected (mc_w s) tid \<and> tab_find (w_thds (mc_w s)) tid = None
      else tab_find (w_thds (mc_w s)) tid \<noteq> None"
  shows "follows v (s\<lparr>mc_w := if md = Enabling then (mc_w s)\<lparr>w_thds := tab_insert tid ThdState (w_thds (mc_w s))\<rparr> else mc_w s,
    mc_job := (mc_job s)(tid := Job md C_Acq1 (target_at s tid))\<rparr>)" (is "follows v ?s")
proof -
  note i = idle_at [OF assms(1,2)]
  have sel: "selected (mc_w s) = selected v" using assms(1) same_config_selected by (auto simp: follows_def)
  show ?thesis
  proof (rule follows_local [OF assms(1), where tid = tid])
    show "at_ok v (mc_w ?s) tid (mc_job ?s tid)"
    proof (cases md)
      case Enabling
      then show ?thesis using assms(3) i sel
        by (auto simp: job_at_def target_at_def on_at_def sud_of_def ThdState_def)
    next
      case Disabling
      then obtain st where st: "tab_find (w_thds v) tid = Some st" using assms(3) i by auto
      moreover have "ts_sem st = 1" using assms(1) st by (simp add: follows_def seq_ok_def)
      then have "st = \<lparr>ts_on = ts_on st, ts_sem = 1\<rparr>" by simp
      ultimately show ?thesis using Disabling i
        by (auto simp: job_at_def target_at_def on_at_def sud_of_def)
    qed
  qed (use assms(1) in \<open>auto simp: follows_def same_config_def\<close>)
qed

lemma work_follows:
  assumes "follows v s" "mc_job s tid = Job md c t" "hstep md tid \<lparr>hs_w = mc_w s, hs_c = c, hs_t = t\<rparr> h"
  shows "follows v (s\<lparr>mc_w := hs_w h, mc_job := (mc_job s)(tid := Job md (hs_c h) (hs_t h))\<rparr>)" (is "follows v ?s")
proof (rule follows_local [OF assms(1), where tid = tid])
  have "w_self_text (mc_w s) = w_self_text v" using assms(1) by (simp add: follows_def same_config_def)
  moreover have "at_ok v (mc_w s) tid (Job md c t)" using assms(1,2) unfolding follows_def by metis
  ultimately show "at_ok v (mc_w ?s) tid (mc_job ?s tid)"
    using hstep_at [OF assms(3), of "w_self_text v"] by auto
qed (use assms(1) hstep_frame [OF assms(3)] in \<open>auto simp: follows_def same_config_def\<close>)

lemma follows_frame: "follows v (s\<lparr>mc_alive := a\<rparr>) = follows v s" "follows v (s\<lparr>mc_log := l\<rparr>) = follows v s"
  by (simp_all add: follows_def)

lemma mc_ok_step:
  assumes "mc_ok w0 s" "mcstep s s'"
  shows "mc_ok w0 s'"
proof -
  obtain v where v: "rfold run_cop (mc_log s) w0 = Inr v" "follows v s" using assms(1) by (auto simp: mc_ok_def)
  show ?thesis
    using assms(2)
  proof cases
    case (skip md tid up)
    with v skip_follows [OF v(2)] show ?thesis by (auto simp: mc_ok_def rfold_append follows_frame)
  next
    case (begin_on tid)
    with v begin_follows [OF v(2), of tid Enabling] show ?thesis by (auto simp: mc_ok_def)
  next
    case (begin_off tid)
    with v begin_follows [OF v(2), of tid Disabling] show ?thesis by (auto simp: mc_ok_def)
  next
    case (work tid md c t h)
    with v work_follows [OF v(2)] show ?thesis by (auto simp: mc_ok_def)
  next
    case (finish tid md t)
    then obtain v' where "run_cop (Ctl md tid (t = T_Back)) v = Inr v'" "follows v' (s\<lparr>mc_job := (mc_job s)(tid := Idle)\<rparr>)"
      using finish_follows [OF v(2)] by blast
    with v(1) show ?thesis unfolding finish(1) mc_ok_def
      by (intro exI [of _ v']) (simp add: rfold_append follows_def)
  next
    case (own tid md w)
    then have "follows (own_res md tid v) (s\<lparr>mc_w := w\<rparr>)"
      using own_follows [OF v(2) own(2), of md] by (simp add: own_eq del: run_cop.simps)
    with v(1) show ?thesis unfolding own(1) mc_ok_def
      by (intro exI [of _ "own_res md tid v"]) (simp add: rfold_append follows_def own_eq del: run_cop.simps)
  next
    case (dies tid)
    with v show ?thesis by (auto simp: mc_ok_def follows_frame)
  qed
qed

interpretation many: step_inv mcstep "mc_ok w0" for w0
  by unfold_locales (rule mc_ok_step)

lemma mc_start_ok: "seq_ok w0 \<Longrightarrow> mc_ok w0 (mc_start w0 alive)"
  by (simp add: mc_ok_def mc_start_def follows_def seq_ok_def same_config_def)

text \<open>The handshake at an entry goes on whatever the other entries are, but in one situation.\<close>

lemma job_goes_on:
  assumes "job_at md d self x c t (tab_find (w_thds w) tid) (w_sud w tid)" "c \<noteq> C_Done" "\<not> (c = C_Acq2 \<and> t = T_Lost)"
  shows "\<exists>h. hstep md tid \<lparr>hs_w = w, hs_c = c, hs_t = t\<rparr> h"
proof -
  have e: "tab_find (w_thds w) tid = Some \<lparr>ts_on = on_at md d t, ts_sem = the (sem_at c t)\<rparr>" "sem_at c t \<noteq> None"
    "t = T_On \<longrightarrow> md = Enabling"
    using assms(1,2) by (auto simp: job_at_def)
  let ?s = "\<lparr>hs_w = w, hs_c = c, hs_t = t\<rparr>"
  have acq: "\<exists>w'. acquire tid w = Inr w'" if "the (sem_at c t) \<noteq> 0" using e(1) that by (simp add: ptr_Inr)
  have rel: "\<exists>w'. release tid w = Inr w'" if "the (sem_at c t) = 0" using e(1) that by (simp add: ptr_Inr)
  have on: "\<exists>w'. set_on tid Block w = Inr w'" using e(1) by (simp add: ptr_Inr)
  show ?thesis
  proof (cases c)
    case C_Acq1
    with e(2) acq obtain w' where "acquire tid w = Inr w'" by (auto split: if_splits)
    from hstep.acq1 [of ?s, OF _ _, of tid w'] this C_Acq1 show ?thesis by auto
  next
    case C_Send
    show ?thesis
    proof (cases "t = T_Run")
      case True
      with hstep.send [of ?s tid w] C_Send show ?thesis by (auto simp: send_signal_0)
    next
      case False
      with C_Send e(2) have t: "t = T_Dead" by (auto split: if_splits)
      with C_Send rel obtain w' where "release tid w = Inr w'" by auto
      with hstep.esrch [of ?s tid w'] C_Send t show ?thesis by (auto simp: send_signal_esrch)
    qed
  next
    case C_Acq2
    show ?thesis
    proof (cases t)
      case T_Pending
      with hstep.deliver [of ?s] show ?thesis by auto
    next
      case T_Prctl
      then have "hs_t ?s = T_Prctl" by simp
      then show ?thesis using hstep.prctl_on [of md ?s tid] hstep.prctl_off [of md ?s tid] by (cases md) blast+
    next
      case T_On
      with on hstep.byte_on [of ?s tid] show ?thesis by auto
    next
      case T_Rel
      with C_Acq2 rel hstep.notify [of ?s tid] show ?thesis by auto
    qed (use C_Acq2 assms(3) e(2) acq hstep.acq2 [of ?s tid] in \<open>auto split: if_splits\<close>)
  next
    case C_Rel
    with e(2) rel obtain w' where "release tid w = Inr w'" by (auto split: if_splits)
    with hstep.rel [of ?s tid w' md] C_Rel show ?thesis by auto
  next
    case C_Erase
    with hstep.erase [of ?s] show ?thesis by auto
  qed (use assms(2) in simp)
qed

text \<open>For concrete runs: thread 2 adds itself while thread 1 is being added.\<close>

definition demo_mc :: mc where
  "demo_mc =
     \<lparr>mc_w = own_res Enabling 2 (demo_world\<lparr>w_thds := tab_insert 1 ThdState (w_thds demo_world)\<rparr>),
      mc_job = (\<lambda>_. Idle)(1 := Job Enabling C_Acq1 T_Run), mc_alive = (\<lambda>_. True), mc_log = [Own Enabling 2]\<rparr>"

lemma demo_seq: "seq_ok demo_world"
  by (simp add: seq_ok_def demo_world_def)

lemma demo_mc_reach: "mcstep\<^sup>*\<^sup>* (mc_start demo_world (\<lambda>_. True)) demo_mc"
proof -
  let ?s0 = "mc_start demo_world (\<lambda>_. True)"
  let ?w = "demo_world\<lparr>w_thds := tab_insert 1 ThdState (w_thds demo_world)\<rparr>"
  let ?s1 = "?s0\<lparr>mc_w := ?w, mc_job := (\<lambda>_. Idle)(1 := Job Enabling C_Acq1 T_Run)\<rparr>"
  have "mcstep ?s0 ?s1"
    using mcstep.begin_on [of ?s0 1]
    by (simp add: mc_start_def target_at_def) (simp add: demo_world_def selected_def ActivePlan_def)
  moreover have "mcstep ?s1 demo_mc"
    using mcstep.own [of ?s1 2 Enabling] by (simp add: own_eq mc_start_def demo_mc_def del: run_cop.simps)
  ultimately show ?thesis by auto
qed

section \<open>Properties\<close>

text \<open>
  C7. Whatever the number of controllers, threads that act on themselves and threads that end: in
  every interleaving the operations that have ended have the effect they have one after the other in
  the order in which they ended. Every thread at which no operation is in progress has the entry and
  the dispatch setting of that sequence, and when none is in progress the sessions are the same but
  for the order of the table.
\<close>

theorem controllers_serialise:
  assumes "seq_ok w0" "mcstep\<^sup>*\<^sup>* (mc_start w0 alive) s"
  shows "\<exists>v. rfold run_cop (mc_log s) w0 = Inr v \<and>
    (\<forall>tid. mc_job s tid = Idle \<longrightarrow>
       tab_find (w_thds (mc_w s)) tid = tab_find (w_thds v) tid \<and> w_sud (mc_w s) tid = w_sud v tid) \<and>
    ((\<forall>tid. mc_job s tid = Idle) \<longrightarrow> same_world (mc_w s) v)"
proof -
  from many.reach_inv [OF assms(2) mc_start_ok [OF assms(1)]]
  obtain v where v: "rfold run_cop (mc_log s) w0 = Inr v" "follows v s" by (auto simp: mc_ok_def)
  note i = idle_at [OF v(2)]
  then have "same_world (mc_w s) v" if "\<forall>tid. mc_job s tid = Idle"
    using v(2) that by (auto simp: same_world_def follows_def same_config_def seq_ok_def fun_eq_iff)
  with v(1) i show ?thesis by blast
qed

theorem controllers_serialise_witness:
  "\<exists>v. rfold run_cop [Own Enabling 2] demo_world = Inr v \<and> tab_find (w_thds (mc_w demo_mc)) 2 = tab_find (w_thds v) 2 \<and>
     mc_job demo_mc 1 \<noteq> Idle"
  using controllers_serialise [OF demo_seq demo_mc_reach] by (auto simp: demo_mc_def simp del: run_cop.simps)

text \<open>
  C8. No operation waits for one at another thread: an operation in progress is done or can take its
  next step, alone, in every state, unless its own thread ended with the signal pending; and at a
  thread without an operation in progress each operation can begin or has nothing to do.
\<close>

theorem controllers_independent:
  assumes "seq_ok w0" "mcstep\<^sup>*\<^sup>* (mc_start w0 alive) s"
  shows "case mc_job s tid of
      Job md c t \<Rightarrow> c = C_Done \<or> c = C_Acq2 \<and> t = T_Lost \<or>
        (\<exists>h. hstep md tid \<lparr>hs_w = mc_w s, hs_c = c, hs_t = t\<rparr> h \<and>
          mcstep s (s\<lparr>mc_w := hs_w h, mc_job := (mc_job s)(tid := Job md (hs_c h) (hs_t h))\<rparr>) \<and>
          (\<forall>j. j \<noteq> tid \<longrightarrow> tab_find (w_thds (hs_w h)) j = tab_find (w_thds (mc_w s)) j \<and> w_sud (hs_w h) j = w_sud (mc_w s) j))
    | Idle \<Rightarrow> \<forall>md. skips s md tid \<or> (\<exists>s' t. mcstep s s' \<and> mc_job s' tid = Job md C_Acq1 t)"
proof -
  from many.reach_inv [OF assms(2) mc_start_ok [OF assms(1)]] obtain v where v: "follows v s" by (auto simp: mc_ok_def)
  show ?thesis
  proof (cases "mc_job s tid")
    case Idle
    have "skips s md tid \<or> (\<exists>s' t. mcstep s s' \<and> mc_job s' tid = Job md C_Acq1 t)" for md
      using mcstep.begin_on [OF Idle] mcstep.begin_off [OF Idle] Idle by (cases md) (fastforce simp: skips_def)+
    with Idle show ?thesis by simp
  next
    case (Job md c t)
    then obtain d where "job_at md d (w_self_text v) (w_sud v tid) c t (tab_find (w_thds (mc_w s)) tid) (w_sud (mc_w s) tid)"
      using v unfolding follows_def by (metis at_ok.simps(2))
    note go = job_goes_on [OF this]
    show ?thesis
    proof (cases "c = C_Done \<or> c = C_Acq2 \<and> t = T_Lost")
      case False
      then obtain h where h: "hstep md tid \<lparr>hs_w = mc_w s, hs_c = c, hs_t = t\<rparr> h" using go by blast
      with mcstep.work [OF Job h] hstep_frame(3,4) [OF h] Job show ?thesis by auto
    qed (use Job in auto)
  qed
qed

theorem controllers_independent_witness:
  "\<exists>h. hstep Enabling 1 \<lparr>hs_w = mc_w demo_mc, hs_c = C_Acq1, hs_t = T_Run\<rparr> h \<and>
     tab_find (w_thds (hs_w h)) 2 = tab_find (w_thds (mc_w demo_mc)) 2"
proof -
  have "mc_job demo_mc 1 = Job Enabling C_Acq1 T_Run" by (simp add: demo_mc_def)
  with controllers_independent [OF demo_seq demo_mc_reach, of 1] show ?thesis by auto
qed

end
