(* ===== verification/Poller.thy ===== *)
theory Poller
  imports Thread_Ctl
begin

text \<open>
  The polling thread of \<open>src/thdmon.cc\<close> and those who synchronise with it: the constructor of
  \<open>ThdMon\<close>, which waits on a semaphore for the first scan, the destructor, which sets the stop flag,
  notifies the condition variable and joins, and the users that rescan under the same mutex. What a
  scan does is in theory \<open>Thd_Mon\<close>; here it is one step, and the steps of \<open>process\<close> around it are
  taken apart down to the wait on the condition variable, which may end by the notification, by the
  interval or for no reason.
\<close>

section \<open>States\<close>

text \<open>
  \<open>process\<close>: before the mutex, in front of it, of the scan, of the release of the semaphore, of the
  test of the stop flag, waiting, awake and in front of the mutex again (with the interval over or
  not), past the wait, and ended.
\<close>

datatype qpc = Q_Start | Q_Lock | Q_Scan | Q_Init | Q_Test | Q_Wait | Q_Woken bool | Q_Next | Q_Gone

text \<open>Constructor and destructor.\<close>

datatype mpc = M_Acq | M_Made | M_Stop | M_Locked | M_Join | M_Gone

text \<open>A user in \<open>rescan_threads\<close>.\<close>

datatype spc = S_Out | S_In

datatype owner = O_Poller | O_Maker | O_User nat

text \<open>
  Three fields that the code does not have: \<open>po_scans\<close> counts the scans of the poller, \<open>po_gens\<close> the
  increments of the generation without its wrap, \<open>po_bad\<close> says that a free semaphore was released.
\<close>

record po =
  po_sem :: nat
  po_mtx :: "owner option"
  po_stop :: bool
  po_gen :: "32 word"
  po_q :: qpc
  po_m :: mpc
  po_s :: "nat \<Rightarrow> spc"
  po_scans :: nat
  po_gens :: nat
  po_bad :: bool

definition po_start :: po where
  "po_start =
     \<lparr>po_sem = 0, po_mtx = None, po_stop = False, po_gen = 0, po_q = Q_Start, po_m = M_Acq, po_s = (\<lambda>_. S_Out),
      po_scans = 0, po_gens = 0, po_bad = False\<rparr>"

section \<open>Steps\<close>

text \<open>The release of the semaphore, if this is the first generation.\<close>

definition poll_release :: "po \<Rightarrow> po" where
  "poll_release s =
     (if po_gen s \<noteq> 0 then s
      else case sem_release (po_sem s) of Inl _ \<Rightarrow> s\<lparr>po_bad := True\<rparr> | Inr n \<Rightarrow> s\<lparr>po_sem := n\<rparr>)"

inductive qstep :: "po \<Rightarrow> po \<Rightarrow> bool" where
  q_self: "po_q s = Q_Start \<Longrightarrow> qstep s (s\<lparr>po_q := Q_Lock\<rparr>)"
| q_lock: "po_q s = Q_Lock \<Longrightarrow> po_mtx s = None \<Longrightarrow> qstep s (s\<lparr>po_mtx := Some O_Poller, po_q := Q_Scan\<rparr>)"
| q_scan: "po_q s = Q_Scan \<Longrightarrow> qstep s (s\<lparr>po_scans := po_scans s + 1, po_q := Q_Init\<rparr>)"
| q_init: "po_q s = Q_Init \<Longrightarrow> qstep s (poll_release s\<lparr>po_q := Q_Test\<rparr>)"
| q_stop: "po_q s = Q_Test \<Longrightarrow> po_stop s \<Longrightarrow> qstep s (s\<lparr>po_q := Q_Next\<rparr>)"
| q_wait: "po_q s = Q_Test \<Longrightarrow> \<not> po_stop s \<Longrightarrow> qstep s (s\<lparr>po_mtx := None, po_q := Q_Wait\<rparr>)"
| q_relock: "po_q s = Q_Woken over \<Longrightarrow> po_mtx s = None \<Longrightarrow>
    qstep s (s\<lparr>po_mtx := Some O_Poller, po_q := if over then Q_Next else Q_Test\<rparr>)"
| q_next: "po_q s = Q_Next \<Longrightarrow> \<not> po_stop s \<Longrightarrow> qstep s (s\<lparr>po_gen := po_gen s + 1, po_gens := po_gens s + 1, po_q := Q_Scan\<rparr>)"
| q_end: "po_q s = Q_Next \<Longrightarrow> po_stop s \<Longrightarrow>
    qstep s (s\<lparr>po_gen := po_gen s + 1, po_gens := po_gens s + 1, po_mtx := None, po_q := Q_Gone\<rparr>)"

text \<open>The wait ends with the interval, or for no reason.\<close>

inductive wstep :: "po \<Rightarrow> po \<Rightarrow> bool" where
  wake: "po_q s = Q_Wait \<Longrightarrow> wstep s (s\<lparr>po_q := Q_Woken over\<rparr>)"

text \<open>The notification reaches a thread that waits, and no other.\<close>

definition notify_one :: "po \<Rightarrow> po" where
  "notify_one s = (if po_q s = Q_Wait then s\<lparr>po_q := Q_Woken False\<rparr> else s)"

inductive mkstep :: "po \<Rightarrow> po \<Rightarrow> bool" where
  m_made: "po_m s = M_Acq \<Longrightarrow> sem_acquire (po_sem s) = Inr n \<Longrightarrow> mkstep s (s\<lparr>po_sem := n, po_m := M_Made\<rparr>)"
| m_destroy: "po_m s = M_Made \<Longrightarrow> mkstep s (s\<lparr>po_m := M_Stop\<rparr>)"
| m_stop: "po_m s = M_Stop \<Longrightarrow> po_mtx s = None \<Longrightarrow>
    mkstep s (notify_one (s\<lparr>po_mtx := Some O_Maker, po_stop := True, po_m := M_Locked\<rparr>))"
| m_unlock: "po_m s = M_Locked \<Longrightarrow> mkstep s (s\<lparr>po_mtx := None, po_m := M_Join\<rparr>)"
| m_join: "po_m s = M_Join \<Longrightarrow> po_q s = Q_Gone \<Longrightarrow> mkstep s (s\<lparr>po_m := M_Gone\<rparr>)"

text \<open>Users can rescan once the monitor is made.\<close>

inductive sstep :: "po \<Rightarrow> po \<Rightarrow> bool" where
  s_lock: "po_s s k = S_Out \<Longrightarrow> po_m s = M_Made \<Longrightarrow> po_mtx s = None \<Longrightarrow>
    sstep s (s\<lparr>po_mtx := Some (O_User k), po_gen := po_gen s + 1, po_gens := po_gens s + 1, po_s := (po_s s)(k := S_In)\<rparr>)"
| s_unlock: "po_s s k = S_In \<Longrightarrow> sstep s (s\<lparr>po_mtx := None, po_s := (po_s s)(k := S_Out)\<rparr>)"

definition postep :: "po \<Rightarrow> po \<Rightarrow> bool" where
  "postep s s' = (qstep s s' \<or> wstep s s' \<or> mkstep s s' \<or> sstep s s')"

section \<open>The invariant\<close>

definition q_holds :: "qpc \<Rightarrow> bool" where
  "q_holds q = (q \<in> {Q_Scan, Q_Init, Q_Test, Q_Next})"

text \<open>Each holds the mutex where its position says so, and no one else does.\<close>

definition mtx_ok :: "po \<Rightarrow> bool" where
  "mtx_ok s =
     ((po_mtx s = Some O_Poller) = q_holds (po_q s) \<and> (po_mtx s = Some O_Maker) = (po_m s = M_Locked) \<and>
      (\<forall>k. (po_mtx s = Some (O_User k)) = (po_s s k = S_In)))"

definition flags_ok :: "po \<Rightarrow> bool" where
  "flags_ok s =
     (po_stop s = (po_m s \<in> {M_Locked, M_Join, M_Gone}) \<and> (po_stop s \<longrightarrow> po_q s \<noteq> Q_Wait) \<and>
      (po_q s = Q_Gone \<longrightarrow> po_stop s) \<and> (po_m s = M_Gone \<longrightarrow> po_q s = Q_Gone) \<and>
      (po_m s = M_Acq \<longrightarrow> (\<forall>k. po_s s k = S_Out)))"

definition scans_ok :: "po \<Rightarrow> bool" where
  "scans_ok s =
     ((po_m s \<noteq> M_Acq \<or> po_sem s \<noteq> 0 \<or> po_q s \<notin> {Q_Start, Q_Lock, Q_Scan} \<longrightarrow> 1 \<le> po_scans s) \<and>
      (po_q s \<in> {Q_Start, Q_Lock} \<longrightarrow> po_scans s = 0 \<and> po_m s = M_Acq) \<and>
      (po_m s = M_Acq \<longrightarrow> po_sem s \<noteq> 0 \<or> po_gen s = 0 \<and> po_q s \<in> {Q_Start, Q_Lock, Q_Scan, Q_Init}))"

definition po_ok :: "po \<Rightarrow> bool" where
  "po_ok s = (mtx_ok s \<and> flags_ok s \<and> scans_ok s)"

lemmas po_defs = po_ok_def mtx_ok_def flags_ok_def scans_ok_def q_holds_def

lemma poll_release_simps [simp]:
  "po_mtx (poll_release s) = po_mtx s" "po_stop (poll_release s) = po_stop s" "po_gen (poll_release s) = po_gen s"
  "po_q (poll_release s) = po_q s" "po_m (poll_release s) = po_m s" "po_s (poll_release s) = po_s s"
  "po_scans (poll_release s) = po_scans s" "po_gens (poll_release s) = po_gens s"
  "po_bad (poll_release s) = (po_bad s \<or> po_gen s = 0 \<and> po_sem s \<noteq> 0)"
  "po_sem (poll_release s) = (if po_gen s = 0 \<and> po_sem s = 0 then 1 else po_sem s)"
  by (auto simp: poll_release_def sem_release_def)

lemma po_q_ok: "qstep s s' \<Longrightarrow> po_ok s \<Longrightarrow> po_ok s'"
  by (cases rule: qstep.cases, assumption) (auto simp: po_defs split: if_splits)

lemma po_w_ok: "wstep s s' \<Longrightarrow> po_ok s \<Longrightarrow> po_ok s'"
  by (cases rule: wstep.cases, assumption) (auto simp: po_defs)

lemma po_m_ok: "mkstep s s' \<Longrightarrow> po_ok s \<Longrightarrow> po_ok s'"
  by (cases rule: mkstep.cases, assumption) (auto simp: po_defs notify_one_def sem_acquire_def split: if_splits)

lemma po_s_ok:
  assumes "sstep s s'" "po_ok s"
  shows "po_ok s'"
proof -
  have m: "mtx_ok s" "flags_ok s" "scans_ok s" using assms(2) by (simp_all add: po_ok_def)
  from assms(1) have "mtx_ok s'"
  proof cases
    case (s_lock k)
    then have "po_s s j \<noteq> S_In" "\<not> q_holds (po_q s)" for j using m(1) unfolding mtx_ok_def by (metis option.distinct(1))+
    with s_lock show ?thesis by (simp add: mtx_ok_def)
  next
    case (s_unlock k)
    then have h: "po_mtx s = Some (O_User k)" using m(1) by (simp add: mtx_ok_def)
    then have "j \<noteq> k \<Longrightarrow> po_s s j \<noteq> S_In" "\<not> q_holds (po_q s)" "po_m s \<noteq> M_Locked" for j
      using m(1) unfolding mtx_ok_def by (metis option.inject owner.inject owner.distinct)+
    with s_unlock show ?thesis by (simp add: mtx_ok_def)
  qed
  moreover from assms(1) m(2) have "flags_ok s'" by cases (auto simp: flags_ok_def)
  moreover from assms(1) m(3) have "scans_ok s'" by cases (simp_all add: scans_ok_def)
  ultimately show ?thesis by (simp add: po_ok_def)
qed

interpretation poll: step_inv postep po_ok
  by unfold_locales (auto simp: postep_def intro: po_q_ok po_w_ok po_m_ok po_s_ok)

text \<open>The generation without its wrap: nothing goes wrong with the semaphore before the first one.\<close>

definition gens_ok :: "po \<Rightarrow> bool" where
  "gens_ok s =
     (po_gen s = of_nat (po_gens s) \<and> (po_bad s \<longrightarrow> 2 ^ 32 \<le> po_gens s) \<and>
      (po_gens s = 0 \<and> po_q s \<in> {Q_Start, Q_Lock, Q_Scan, Q_Init} \<longrightarrow> po_sem s = 0))"

lemma gen_zero: "(of_nat n :: 32 word) = 0 \<Longrightarrow> n = 0 \<or> 2 ^ 32 \<le> n"
proof (cases "n < 2 ^ 32")
  case True
  assume "(of_nat n :: 32 word) = 0"
  moreover have "unat (of_nat n :: 32 word) = n" using True by (simp add: unat_of_nat)
  ultimately show ?thesis by simp
qed simp

interpretation gens: step_inv postep gens_ok
proof
  fix s s'
  assume g: "gens_ok s" and "postep s s'"
  then consider "qstep s s'" | "wstep s s'" | "mkstep s s'" | "sstep s s'" by (auto simp: postep_def)
  then show "gens_ok s'"
  proof cases
    case 1
    then show ?thesis using g gen_zero [of "po_gens s"] by cases (auto simp: gens_ok_def add.commute)
  next
    case 2
    then show ?thesis using g by cases (auto simp: gens_ok_def)
  next
    case 3
    then show ?thesis using g by cases (auto simp: gens_ok_def notify_one_def sem_acquire_def split: if_splits)
  next
    case 4
    then show ?thesis using g by cases (auto simp: gens_ok_def add.commute)
  qed
qed

lemma po_start_ok: "po_ok po_start"
  by (simp add: po_defs po_start_def)

text \<open>What the invariant says, in parts.\<close>

lemma mtx_at:
  assumes "po_ok s"
  shows "po_mtx s = Some O_Poller \<longleftrightarrow> q_holds (po_q s)" "po_mtx s = Some O_Maker \<longleftrightarrow> po_m s = M_Locked"
    "po_mtx s = Some (O_User k) \<longleftrightarrow> po_s s k = S_In"
  using assms by (simp_all add: po_ok_def mtx_ok_def)

lemma stop_at:
  assumes "po_ok s" "po_stop s"
  shows "po_m s \<in> {M_Locked, M_Join, M_Gone}" "po_q s \<noteq> Q_Wait" "po_q s \<noteq> Q_Start" "po_q s \<noteq> Q_Lock"
proof -
  show m: "po_m s \<in> {M_Locked, M_Join, M_Gone}" using assms by (simp add: po_ok_def flags_ok_def)
  show "po_q s \<noteq> Q_Wait" using assms by (simp add: po_ok_def flags_ok_def)
  have "po_m s \<noteq> M_Acq" using m by auto
  then show "po_q s \<noteq> Q_Start" "po_q s \<noteq> Q_Lock" using assms(1) unfolding po_ok_def scans_ok_def by blast+
qed

lemma acq_at:
  assumes "po_ok s" "po_m s = M_Acq" "po_sem s = 0"
  shows "po_q s \<in> {Q_Start, Q_Lock, Q_Scan, Q_Init}" "po_gen s = 0" "po_s s k = S_Out"
  using assms unfolding po_ok_def flags_ok_def scans_ok_def by blast+

text \<open>The steps of the poller up to the release of the semaphore, and up to its end once it is stopped.\<close>

definition init_left :: "qpc \<Rightarrow> nat" where
  "init_left q = (case q of Q_Start \<Rightarrow> 4 | Q_Lock \<Rightarrow> 3 | Q_Scan \<Rightarrow> 2 | Q_Init \<Rightarrow> 1 | _ \<Rightarrow> 0)"

definition stop_left :: "qpc \<Rightarrow> nat" where
  "stop_left q = (case q of Q_Scan \<Rightarrow> 4 | Q_Init \<Rightarrow> 3 | Q_Woken over \<Rightarrow> if over then 2 else 3 | Q_Test \<Rightarrow> 2 | Q_Next \<Rightarrow> 1 | _ \<Rightarrow> 0)"

text \<open>The constructor waits: the poller is in front of the release, and nothing else moves.\<close>

lemma init_step:
  assumes "po_ok s" "po_m s = M_Acq" "po_sem s = 0"
  shows "\<exists>s'. qstep s s'"
proof -
  note q = acq_at [OF assms]
  have "po_mtx s = None" if "po_q s = Q_Lock"
  proof (cases "po_mtx s")
    case (Some w)
    then show ?thesis using mtx_at [OF assms(1)] q(3) assms(2) that by (cases w) (simp_all add: q_holds_def)
  qed simp
  with q(1) show ?thesis using q_self q_lock q_scan q_init by blast
qed

lemma init_down:
  assumes "po_ok s" "po_m s = M_Acq" "po_sem s = 0" "postep s s'"
  shows "po_m s' = M_Acq \<and> (po_sem s' \<noteq> 0 \<or> init_left (po_q s') < init_left (po_q s))"
proof -
  note q = acq_at [OF assms(1-3)]
  from assms(4) consider "qstep s s'" | "wstep s s'" | "mkstep s s'" | "sstep s s'" by (auto simp: postep_def)
  then show ?thesis
  proof cases
    case 1
    then show ?thesis using assms(2,3) q(1,2) by cases (simp_all add: init_left_def)
  next
    case 2
    then show ?thesis using q(1) by cases simp
  next
    case 3
    then show ?thesis using assms(2,3) by cases (simp_all add: sem_acquire_def)
  next
    case 4
    then show ?thesis using assms(2) q(3) by cases simp_all
  qed
qed

text \<open>The destructor waits: the poller is on its way out, unless someone who will leave has the mutex.\<close>

lemma stop_step:
  assumes "po_ok s" "po_stop s" "po_q s \<noteq> Q_Gone"
  shows "(\<exists>s'. qstep s s') \<or> (\<exists>s'. mkstep s s' \<and> po_m s = M_Locked) \<or> (\<exists>k s'. sstep s s' \<and> po_s s k = S_In)"
proof (cases "po_mtx s")
  case None
  then have "\<not> q_holds (po_q s)" using mtx_at(1) [OF assms(1)] by simp
  with stop_at [OF assms(1,2)] assms(3) obtain over where "po_q s = Q_Woken over"
    by (cases "po_q s") (simp_all add: q_holds_def)
  with None show ?thesis using q_relock by blast
next
  case (Some w)
  show ?thesis
  proof (cases w)
    case O_Poller
    then have "q_holds (po_q s)" using Some mtx_at(1) [OF assms(1)] by simp
    then show ?thesis unfolding q_holds_def using assms(2) q_scan q_init q_stop q_end by blast
  next
    case O_Maker
    then have "po_m s = M_Locked" using Some mtx_at(2) [OF assms(1)] by simp
    then show ?thesis using m_unlock by blast
  next
    case (O_User k)
    then have "po_s s k = S_In" using Some mtx_at(3) [OF assms(1)] by simp
    then show ?thesis using s_unlock by blast
  qed
qed

lemma stop_down:
  assumes "po_ok s" "po_stop s" "postep s s'"
  shows "po_stop s' \<and> stop_left (po_q s') \<le> stop_left (po_q s) \<and> (qstep s s' \<longrightarrow> stop_left (po_q s') < stop_left (po_q s))"
proof -
  note q = stop_at [OF assms(1,2)]
  from assms(3) consider "qstep s s'" | "wstep s s'" | "mkstep s s'" | "sstep s s'" by (auto simp: postep_def)
  then show ?thesis
  proof cases
    case 1
    then have "stop_left (po_q s') < stop_left (po_q s) \<and> po_stop s'"
      using q assms(2) by cases (simp_all add: stop_left_def)
    then show ?thesis by simp
  next
    case 2
    then show ?thesis using q(2) by cases simp
  next
    case 3
    then have "po_q s' = po_q s \<and> po_stop s'" using q assms(2) by cases (simp_all add: notify_one_def)
    then show ?thesis using q by (auto elim!: qstep.cases simp: stop_left_def split: if_splits)
  next
    case 4
    then have "po_q s' = po_q s \<and> po_stop s'" using assms(2) by cases simp_all
    then show ?thesis using q by (auto elim!: qstep.cases simp: stop_left_def split: if_splits)
  qed
qed

lemma po_cons:
  "qstep s s1 \<Longrightarrow> postep\<^sup>*\<^sup>* s1 s' \<Longrightarrow> postep\<^sup>*\<^sup>* s s'" "wstep s s1 \<Longrightarrow> postep\<^sup>*\<^sup>* s1 s' \<Longrightarrow> postep\<^sup>*\<^sup>* s s'"
  "mkstep s s1 \<Longrightarrow> postep\<^sup>*\<^sup>* s1 s' \<Longrightarrow> postep\<^sup>*\<^sup>* s s'"
  by (erule converse_rtranclp_into_rtranclp [rotated], simp add: postep_def)+

text \<open>A poller that waits, and one turn of its loop by the interval.\<close>

definition waits :: "po \<Rightarrow> bool" where
  "waits s = (po_q s = Q_Wait \<and> po_mtx s = None \<and> \<not> po_stop s \<and> po_m s = M_Made)"

lemma turn_around:
  assumes "waits s"
  shows "\<exists>s'. postep\<^sup>*\<^sup>* s s' \<and> waits s' \<and> po_gen s' = po_gen s + 1 \<and> po_gens s' = po_gens s + 1 \<and>
    po_sem s' = (if po_gen s + 1 = 0 \<and> po_sem s = 0 then 1 else po_sem s) \<and>
    (po_bad s' \<longleftrightarrow> po_bad s \<or> po_gen s + 1 = 0 \<and> po_sem s \<noteq> 0)"
proof -
  define a where "a = s\<lparr>po_q := Q_Woken True\<rparr>"
  define b where "b = a\<lparr>po_mtx := Some O_Poller, po_q := Q_Next\<rparr>"
  define c where "c = b\<lparr>po_gen := po_gen b + 1, po_gens := po_gens b + 1, po_q := Q_Scan\<rparr>"
  define d where "d = c\<lparr>po_scans := po_scans c + 1, po_q := Q_Init\<rparr>"
  define e where "e = poll_release d\<lparr>po_q := Q_Test\<rparr>"
  define f where "f = e\<lparr>po_mtx := None, po_q := Q_Wait\<rparr>"
  have s: "po_q s = Q_Wait" "po_mtx s = None" "\<not> po_stop s" "po_m s = M_Made" using assms by (simp_all add: waits_def)
  have "wstep s a" unfolding a_def by (rule wake [OF s(1)])
  moreover have "qstep a b" using q_relock [of a True] s by (simp add: a_def b_def)
  moreover have "qstep b c" using q_next [of b] s by (simp add: a_def b_def c_def)
  moreover have "qstep c d" using q_scan [of c] by (simp add: c_def d_def)
  moreover have "qstep d e" using q_init [of d] by (simp add: d_def e_def)
  moreover have "qstep e f" using q_wait [of e] s by (simp add: a_def b_def c_def d_def e_def f_def)
  ultimately have "postep\<^sup>*\<^sup>* s f" by (meson po_cons rtranclp.rtrancl_refl)
  moreover have "waits f" "po_gen f = po_gen s + 1" "po_gens f = po_gens s + 1"
    "po_sem f = (if po_gen s + 1 = 0 \<and> po_sem s = 0 then 1 else po_sem s)"
    "po_bad f \<longleftrightarrow> po_bad s \<or> po_gen s + 1 = 0 \<and> po_sem s \<noteq> 0"
    using s by (simp_all add: waits_def a_def b_def c_def d_def e_def f_def)
  ultimately show ?thesis by blast
qed

text \<open>Fewer turns than the counter has values leave the semaphore alone.\<close>

lemma turns_around:
  assumes "waits s" "po_gen s = 0" "n < 2 ^ 32"
  shows "\<exists>s'. postep\<^sup>*\<^sup>* s s' \<and> waits s' \<and> po_gen s' = of_nat n \<and> po_gens s' = po_gens s + n \<and>
    po_sem s' = po_sem s \<and> po_bad s' = po_bad s"
  using assms(3)
proof (induction n)
  case 0
  with assms(1,2) show ?case by auto
next
  case (Suc n)
  then obtain s1 where s1: "postep\<^sup>*\<^sup>* s s1" "waits s1" "po_gen s1 = of_nat n" "po_gens s1 = po_gens s + n"
    "po_sem s1 = po_sem s" "po_bad s1 = po_bad s" by auto
  have "(of_nat (Suc n) :: 32 word) \<noteq> 0" using gen_zero [of "Suc n"] Suc.prems by fastforce
  then have ne: "po_gen s1 + 1 \<noteq> 0" "po_gen s1 + 1 = of_nat (Suc n)" using s1(3) by (simp_all add: add.commute)
  from turn_around [OF s1(2)] ne(1) obtain s2 where
    "postep\<^sup>*\<^sup>* s1 s2" "waits s2" "po_gen s2 = po_gen s1 + 1" "po_gens s2 = po_gens s1 + 1" "po_sem s2 = po_sem s1"
    "po_bad s2 = po_bad s1"
    by auto
  with s1 ne(2) show ?case by (intro exI [of _ s2]) (simp add: rtranclp_trans [OF s1(1)])
qed

lemma all_around:
  assumes "waits s" "po_gen s = 0" "po_sem s \<le> 1"
  shows "\<exists>s'. postep\<^sup>*\<^sup>* s s' \<and> waits s' \<and> po_gen s' = 0 \<and> po_gens s' = po_gens s + 2 ^ 32 \<and> po_sem s' = 1 \<and>
    (po_bad s' \<longleftrightarrow> po_bad s \<or> po_sem s \<noteq> 0)"
proof -
  obtain s1 where s1: "postep\<^sup>*\<^sup>* s s1" "waits s1" "po_gen s1 = of_nat (2 ^ 32 - 1)" "po_gens s1 = po_gens s + (2 ^ 32 - 1)"
    "po_sem s1 = po_sem s" "po_bad s1 = po_bad s"
    using turns_around [OF assms(1,2), of "2 ^ 32 - 1"] by auto
  have z: "po_gen s1 + 1 = 0" using s1(3) by simp
  from turn_around [OF s1(2)] z s1(4-6) obtain s2 where
    "postep\<^sup>*\<^sup>* s1 s2" "waits s2" "po_gen s2 = 0" "po_gens s2 = po_gens s + 2 ^ 32"
    "po_sem s2 = (if po_sem s = 0 then 1 else po_sem s)" "po_bad s2 \<longleftrightarrow> po_bad s \<or> po_sem s \<noteq> 0"
    by (auto simp: add.commute)
  with assms(3) show ?thesis by (intro exI [of _ s2]) (auto intro: rtranclp_trans [OF s1(1)])
qed

text \<open>The first scan, and the constructor's return.\<close>

lemma first_wait:
  "\<exists>s. postep\<^sup>*\<^sup>* po_start s \<and> waits s \<and> po_gen s = 0 \<and> po_gens s = 0 \<and> po_sem s = 0 \<and> \<not> po_bad s"
proof -
  define a where "a = po_start\<lparr>po_q := Q_Lock\<rparr>"
  define b where "b = a\<lparr>po_mtx := Some O_Poller, po_q := Q_Scan\<rparr>"
  define c where "c = b\<lparr>po_scans := po_scans b + 1, po_q := Q_Init\<rparr>"
  define d where "d = poll_release c\<lparr>po_q := Q_Test\<rparr>"
  define e where "e = d\<lparr>po_mtx := None, po_q := Q_Wait\<rparr>"
  define f where "f = e\<lparr>po_sem := 0, po_m := M_Made\<rparr>"
  note defs = a_def b_def c_def d_def e_def f_def po_start_def
  have "qstep po_start a" using q_self [of po_start] by (simp add: defs)
  moreover have "qstep a b" using q_lock [of a] by (simp add: defs)
  moreover have "qstep b c" using q_scan [of b] by (simp add: b_def c_def)
  moreover have "qstep c d" using q_init [of c] by (simp add: c_def d_def)
  moreover have "qstep d e" using q_wait [of d] by (simp add: defs poll_release_def sem_release_def)
  moreover have "mkstep e f" using m_made [of e 0] by (simp add: defs poll_release_def sem_release_def sem_acquire_def)
  ultimately have "postep\<^sup>*\<^sup>* po_start f" by (meson po_cons rtranclp.rtrancl_refl)
  moreover have "waits f" "po_gen f = 0" "po_gens f = 0" "po_sem f = 0" "\<not> po_bad f"
    by (simp_all add: waits_def defs poll_release_def sem_release_def)
  ultimately show ?thesis by blast
qed

section \<open>Properties\<close>

text \<open>
  C9. In every interleaving of constructor, poller, users and destructor: the constructor returns
  after the first scan, at most one of poller and users scans at a time, a poller that is told to
  stop does not wait on (the notification is not lost), and the destructor returns after the poller
  has ended.
\<close>

theorem poller_protocol:
  assumes "postep\<^sup>*\<^sup>* po_start s"
  shows "(po_m s \<noteq> M_Acq \<longrightarrow> 1 \<le> po_scans s) \<and> (po_stop s \<longrightarrow> po_q s \<noteq> Q_Wait) \<and>
    (po_q s = Q_Scan \<longrightarrow> (\<forall>k. po_s s k = S_Out)) \<and> (\<forall>j k. po_s s j = S_In \<and> po_s s k = S_In \<longrightarrow> j = k) \<and>
    (po_m s = M_Gone \<longrightarrow> po_q s = Q_Gone)"
proof -
  have ok: "po_ok s" by (rule poll.reach_inv [OF assms po_start_ok])
  have u: "po_s s k = S_In \<Longrightarrow> po_mtx s = Some (O_User k)" for k using mtx_at(3) [OF ok] by simp
  then have "po_s s j = S_In \<Longrightarrow> po_s s k = S_In \<Longrightarrow> j = k" for j k by (metis option.inject owner.inject)
  moreover have "po_s s k = S_Out" if "po_q s = Q_Scan" for k
    using u [of k] that mtx_at(1) [OF ok] by (cases "po_s s k") (simp_all add: q_holds_def)
  moreover have "po_m s \<noteq> M_Acq \<longrightarrow> 1 \<le> po_scans s" "po_stop s \<longrightarrow> po_q s \<noteq> Q_Wait" "po_m s = M_Gone \<longrightarrow> po_q s = Q_Gone"
    using ok unfolding po_ok_def flags_ok_def scans_ok_def by blast+
  ultimately show ?thesis by (intro conjI impI allI) simp_all
qed

text \<open>
  C10. Neither constructor nor destructor wait for the polling interval. While the constructor waits,
  every step leads to the release of the semaphore, within four. Once the destructor has set the
  flag the poller ends within four steps of its own, and until then it, or one who holds the mutex
  and will give it back, can move.
\<close>

theorem poller_prompt:
  assumes "postep\<^sup>*\<^sup>* po_start s"
  shows "(po_m s = M_Acq \<and> po_sem s = 0 \<longrightarrow> init_left (po_q s) \<le> 4 \<and> (\<exists>s'. qstep s s') \<and>
      (\<forall>s'. postep s s' \<longrightarrow> po_m s' = M_Acq \<and> (po_sem s' \<noteq> 0 \<or> init_left (po_q s') < init_left (po_q s)))) \<and>
    (po_stop s \<longrightarrow> stop_left (po_q s) \<le> 4 \<and>
      (po_q s \<noteq> Q_Gone \<longrightarrow>
        (\<exists>s'. qstep s s') \<or> (\<exists>s'. mkstep s s' \<and> po_m s = M_Locked) \<or> (\<exists>k s'. sstep s s' \<and> po_s s k = S_In)) \<and>
      (\<forall>s'. postep s s' \<longrightarrow> po_stop s' \<and> stop_left (po_q s') \<le> stop_left (po_q s) \<and>
        (qstep s s' \<longrightarrow> stop_left (po_q s') < stop_left (po_q s))))"
proof -
  have ok: "po_ok s" by (rule poll.reach_inv [OF assms po_start_ok])
  have four: "init_left q \<le> 4" "stop_left q \<le> 4" for q by (simp_all add: init_left_def stop_left_def split: qpc.split)
  note init = init_step [OF ok] init_down [OF ok] and stop = stop_step [OF ok] stop_down [OF ok]
  show ?thesis
  proof (intro conjI impI allI)
    assume "po_m s = M_Acq \<and> po_sem s = 0"
    then have a: "po_m s = M_Acq" "po_sem s = 0" by auto
    show "init_left (po_q s) \<le> 4" by (rule four)
    show "\<exists>s'. qstep s s'" by (rule init(1) [OF a])
    show "po_m s' = M_Acq" if "postep s s'" for s' using init(2) [OF a that] by blast
    show "po_sem s' \<noteq> 0 \<or> init_left (po_q s') < init_left (po_q s)" if "postep s s'" for s' using init(2) [OF a that] by blast
  next
    assume b: "po_stop s"
    show "stop_left (po_q s) \<le> 4" by (rule four)
    show "(\<exists>s'. qstep s s') \<or> (\<exists>s'. mkstep s s' \<and> po_m s = M_Locked) \<or> (\<exists>k s'. sstep s s' \<and> po_s s k = S_In)"
      if "po_q s \<noteq> Q_Gone" by (rule stop(1) [OF b that])
    fix s'
    assume st: "postep s s'"
    show "po_stop s'" "stop_left (po_q s') \<le> stop_left (po_q s)" using stop(2) [OF b st] by blast+
    show "stop_left (po_q s') < stop_left (po_q s)" if "qstep s s'" using stop(2) [OF b st] that by blast
  qed
qed

theorem poller_protocol_witness: "\<exists>s. postep\<^sup>*\<^sup>* po_start s \<and> po_m s = M_Made \<and> 1 \<le> po_scans s"
proof -
  obtain s where s: "postep\<^sup>*\<^sup>* po_start s" "po_m s = M_Made" using first_wait by (auto simp: waits_def)
  with poller_protocol [OF s(1)] show ?thesis by auto
qed

theorem poller_prompt_witness: "\<exists>s'. qstep po_start s'"
  using poller_prompt [OF rtranclp.rtrancl_refl] by (simp add: po_start_def)

text \<open>
  C39. The test for the first generation does not survive the wrap of the 32-bit counter. Before
  \<open>2 ^ 32\<close> increments no free semaphore is ever released. But in a run of a monitor that is just left
  to poll, the increment number \<open>2 ^ 32\<close> makes the poller release the semaphore again, for a
  constructor that returned long ago, and number \<open>2 * 2 ^ 32\<close> releases it while it is free, which its
  precondition forbids.
\<close>

theorem poller_semaphore_wraps:
  "(\<forall>s. postep\<^sup>*\<^sup>* po_start s \<and> po_bad s \<longrightarrow> 2 ^ 32 \<le> po_gens s) \<and>
   (\<exists>s1 s2. postep\<^sup>*\<^sup>* po_start s1 \<and> po_m s1 = M_Made \<and> po_gens s1 = 2 ^ 32 \<and> po_sem s1 = 1 \<and> \<not> po_bad s1 \<and>
      postep\<^sup>*\<^sup>* s1 s2 \<and> po_m s2 = M_Made \<and> po_gens s2 = 2 * 2 ^ 32 \<and> po_bad s2)"
proof (intro conjI allI impI)
  fix s
  assume "postep\<^sup>*\<^sup>* po_start s \<and> po_bad s"
  moreover have "gens_ok po_start" by (simp add: gens_ok_def po_start_def)
  ultimately have "gens_ok s" "po_bad s" using gens.reach_inv by blast+
  then show "2 ^ 32 \<le> po_gens s" by (simp add: gens_ok_def)
next
  obtain a where a: "postep\<^sup>*\<^sup>* po_start a" "waits a" "po_gen a = 0" "po_gens a = 0" "po_sem a = 0" "\<not> po_bad a"
    using first_wait by blast
  from all_around [OF a(2,3)] a(4-6) obtain b where
    b: "postep\<^sup>*\<^sup>* a b" "waits b" "po_gen b = 0" "po_gens b = 2 ^ 32" "po_sem b = 1" "\<not> po_bad b"
    by auto
  from all_around [OF b(2,3)] b(4,5) obtain c where
    "postep\<^sup>*\<^sup>* b c" "waits c" "po_gens c = 2 * 2 ^ 32" "po_bad c"
    by auto
  moreover have "postep\<^sup>*\<^sup>* po_start b" using a(1) b(1) by (rule rtranclp_trans)
  ultimately show "\<exists>s1 s2. postep\<^sup>*\<^sup>* po_start s1 \<and> po_m s1 = M_Made \<and> po_gens s1 = 2 ^ 32 \<and> po_sem s1 = 1 \<and>
      \<not> po_bad s1 \<and> postep\<^sup>*\<^sup>* s1 s2 \<and> po_m s2 = M_Made \<and> po_gens s2 = 2 * 2 ^ 32 \<and> po_bad s2"
    using b(2,4-6) by (auto simp: waits_def)
qed

text \<open>A run in which the precondition is broken, and the bound it obeys.\<close>

theorem poller_semaphore_wraps_witness: "\<exists>s. postep\<^sup>*\<^sup>* po_start s \<and> po_bad s \<and> 2 ^ 32 \<le> po_gens s"
  using poller_semaphore_wraps rtranclp_trans [of postep po_start] by blast

end
