(* ===== verification/Syscall.thy ===== *)
theory Syscall
  imports Registers
begin

text \<open>
  \<open>src/syscall.cc\<close>, \<open>continue_syscall\<close> of \<open>src/session.cc\<close> and \<open>src/log.cc\<close>: the raw
  system call, the one that installs a stack pointer first, the re-execution of an intercepted
  call, and the logger that writes with the raw call.
\<close>

section \<open>Raw system calls\<close>

definition exec_syscall :: "kernel \<Rightarrow> kreq \<Rightarrow> trace \<Rightarrow> u64 result \<times> trace" where
  "exec_syscall krn req tr =
     (case krn tr req of None \<Rightarrow> Inl No_return | Some r \<Rightarrow> Inr r, tr @ [Sys req])"

text \<open>
  The seven values go to \<open>rdi\<close>, \<open>rsi\<close>, \<open>rdx\<close>, \<open>r10\<close>, \<open>r8\<close>, \<open>r9\<close> and \<open>rax\<close>;
  the number is an \<open>int\<close> widened to the register.
\<close>

definition syscall ::
    "kernel \<Rightarrow> u64 \<Rightarrow> u64 \<Rightarrow> u64 \<Rightarrow> u64 \<Rightarrow> u64 \<Rightarrow> u64 \<Rightarrow> i32 \<Rightarrow> trace \<Rightarrow> u64 result \<times> trace" where
  "syscall krn arg1 arg2 arg3 arg4 arg5 arg6 nr tr =
     exec_syscall krn
       \<lparr>k_rax = to_long nr, k_rdi = arg1, k_rsi = arg2, k_rdx = arg3,
        k_r10 = arg4, k_r8 = arg5, k_r9 = arg6, k_rsp = None\<rparr> tr"

text \<open>The same call after \<open>mov\<close> of the given stack pointer into \<open>rsp\<close>.\<close>

definition set_rsp_and_exec_syscall ::
    "kernel \<Rightarrow> u64 \<Rightarrow> u64 \<Rightarrow> u64 \<Rightarrow> u64 \<Rightarrow> u64 \<Rightarrow> u64 \<Rightarrow> i32 \<Rightarrow> u64 \<Rightarrow> trace
     \<Rightarrow> u64 result \<times> trace" where
  "set_rsp_and_exec_syscall krn arg1 arg2 arg3 arg4 arg5 arg6 nr rsp tr =
     exec_syscall krn
       \<lparr>k_rax = to_long nr, k_rdi = arg1, k_rsi = arg2, k_rdx = arg3,
        k_r10 = arg4, k_r8 = arg5, k_r9 = arg6, k_rsp = Some rsp\<rparr> tr"

section \<open>Re-executing the intercepted call\<close>

text \<open>
  The saved \<open>rax\<close> passes through the \<open>int\<close> parameter of \<open>syscall\<close>, and the answer replaces it
  in the saved registers.
\<close>

definition continue_syscall :: "kernel \<Rightarrow> gregs \<Rightarrow> trace \<Rightarrow> gregs result \<times> trace" where
  "continue_syscall krn ctx tr =
     (case syscall krn (ctx REG_RDI) (ctx REG_RSI) (ctx REG_RDX) (ctx REG_R10)
             (ctx REG_R8) (ctx REG_R9) (to_int (ctx REG_RAX)) tr of
        (Inl e, tr') \<Rightarrow> (Inl e, tr')
      | (Inr rax, tr') \<Rightarrow> (Inr (ctx(REG_RAX := rax)), tr'))"

section \<open>The logger\<close>

text \<open>
  \<open>vsnprintf\<close> stores at most 511 characters of the formatted message \<open>s\<close> and a terminating
  zero in the 512-byte buffer, the rest of which keeps the bytes \<open>junk\<close> it had, and returns the
  length of the whole message.
\<close>

definition log_len :: nat where
  "log_len = 512"

definition vsnprintf_buffer :: "char list \<Rightarrow> char list \<Rightarrow> char list" where
  "vsnprintf_buffer junk s =
     (let kept = take (log_len - 1) s @ [CHR 0x00] in kept @ drop (length kept) junk)"

text \<open>The bytes \<open>log\<close> hands to \<open>write\<close>.\<close>

definition log_bytes :: "char list \<Rightarrow> char list \<Rightarrow> char list" where
  "log_bytes junk s =
     (let buffer = vsnprintf_buffer junk s;
          n = length s;
          n = (if n > log_len then log_len else n)
      in take n buffer)"

text \<open>The call itself: \<open>STDERR_FILENO\<close> is 2 and \<open>SYS_write\<close> is 1.\<close>

definition log_msg :: "kernel \<Rightarrow> u64 \<Rightarrow> char list \<Rightarrow> trace \<Rightarrow> u64 result \<times> trace" where
  "log_msg krn buffer s tr =
     (let n = length s;
          n = (if n > log_len then log_len else n)
      in syscall krn 2 buffer (of_nat n) 0 0 0 1 tr)"

section \<open>Properties\<close>

text \<open>The request that the intercepted registers stand for.\<close>

definition request_of :: "gregs \<Rightarrow> kreq" where
  "request_of ctx =
     \<lparr>k_rax = ctx REG_RAX, k_rdi = ctx REG_RDI, k_rsi = ctx REG_RSI, k_rdx = ctx REG_RDX,
      k_r10 = ctx REG_R10, k_r8 = ctx REG_R8, k_r9 = ctx REG_R9, k_rsp = None\<rparr>"

text \<open>The request \<open>continue_syscall\<close> really makes, whatever \<open>rax\<close> holds.\<close>

definition reissued :: "gregs \<Rightarrow> kreq" where
  "reissued ctx = (request_of ctx)\<lparr>k_rax := to_long (to_int (ctx REG_RAX))\<rparr>"

lemma continue_syscall_eq:
  "continue_syscall krn ctx tr =
     (case krn tr (reissued ctx) of
        None \<Rightarrow> (Inl No_return, tr @ [Sys (reissued ctx)])
      | Some r \<Rightarrow> (Inr (ctx(REG_RAX := r)), tr @ [Sys (reissued ctx)]))"
  by (simp add: continue_syscall_def syscall_def exec_syscall_def reissued_def request_of_def
      split: option.split)

lemma snd_continue_syscall [simp]:
  "snd (continue_syscall krn ctx tr) = tr @ [Sys (reissued ctx)]"
  by (simp add: continue_syscall_eq split: option.split)

lemma continue_syscall_Inl:
  "fst (continue_syscall krn ctx tr) = Inl e \<Longrightarrow> e = No_return"
  by (auto simp: continue_syscall_eq split: option.splits)

lemma continue_syscall_Inr:
  "fst (continue_syscall krn ctx tr) = Inr ctx' \<Longrightarrow>
   \<exists>r. krn tr (reissued ctx) = Some r \<and> ctx' = ctx(REG_RAX := r)"
  by (auto simp: continue_syscall_eq split: option.splits)

lemma reissued_fits [word_conv]: "fits_int (ctx REG_RAX) \<Longrightarrow> reissued ctx = request_of ctx"
  by (simp add: reissued_def request_of_def fits_int_def)

lemma length_vsnprintf_buffer:
  "length junk = log_len \<Longrightarrow> length (vsnprintf_buffer junk s) = log_len"
  by (simp add: vsnprintf_buffer_def log_len_def Let_def)

text \<open>
  Re-executing an intercepted call makes the very call the program made, once, and the program
  sees the kernel's answer in \<open>rax\<close> and no other difference, for every call number that is an
  \<open>int\<close>.
\<close>

lemma continue_syscall_transparent:
  assumes "fits_int (ctx REG_RAX)"
  shows "continue_syscall krn ctx tr =
    (case krn tr (request_of ctx) of
       None \<Rightarrow> (Inl No_return, tr @ [Sys (request_of ctx)])
     | Some a \<Rightarrow> (Inr (ctx(REG_RAX := a)), tr @ [Sys (request_of ctx)]))"
proof -
  have "reissued ctx = request_of ctx" by (rule reissued_fits) (rule assms)
  then show ?thesis by (simp add: continue_syscall_eq split: option.split)
qed

text \<open>
  The logger writes a message of at most 511 characters as it is. A longer one is cut to 511
  characters, and the terminating zero byte of the buffer is written after them.
\<close>

lemma log_writes:
  assumes "length junk = 512"
  shows "(length s \<le> 511 \<longrightarrow> log_bytes junk s = s) \<and>
    (512 \<le> length s \<longrightarrow> log_bytes junk s = take 511 s @ [CHR 0x00])"
  using assms by (auto simp: log_bytes_def vsnprintf_buffer_def log_len_def Let_def min_def)

end
