(* ===== verification/Fail_Maybe.thy ===== *)
theory Fail_Maybe
  imports Active_Plan Syscall
begin

text \<open>
  \<open>ActiveSession::fail_maybe\<close> of \<open>src/session.cc\<close>: the decision, for one intercepted call,
  whether to delay it, before or after, and whether to fail it, before or after. The random
  engine of the thread and its distributions are parameters: a uniform draw from the half-open
  unit interval and a uniform draw of an integer between zero and a bound.
\<close>

record 'g rt =
  rt_krn :: kernel
  rt_p :: "'g \<Rightarrow> rat \<times> 'g"
  rt_int :: "int \<Rightarrow> 'g \<Rightarrow> int \<times> 'g"
  rt_seed :: 'g

definition p_dist :: "'g rt \<Rightarrow> 'g \<Rightarrow> dbl \<times> 'g" where
  "p_dist rt g = (case rt_p rt g of (u, g') \<Rightarrow> (Fin u, g'))"

text \<open>
  The upper end of \<open>uniform_int_distribution<int>\<close>: the 64-bit microsecond count narrowed to
  \<open>int\<close>. The distribution requires it not to be negative.
\<close>

definition delay_bound :: "active_outcome \<Rightarrow> int" where
  "delay_bound ou = sint (to_int (ao_max_delay ou))"

text \<open>
  A sleep is one effect. The code uses \<open>nanosleep\<close> of the C library, a system call that is itself
  intercepted while the thread is armed, as the comment at \<open>sleep\<close> says; what a plan that names
  \<open>nanosleep\<close> does to it is not modelled.
\<close>

definition sleep :: "int \<Rightarrow> trace \<Rightarrow> trace" where
  [simp]: "sleep dur tr = tr @ [Sleep dur]"

text \<open>The first block: sleep now, or return the time to sleep after the call.\<close>

definition delay_phase ::
    "'g rt \<Rightarrow> active_outcome \<Rightarrow> 'g \<Rightarrow> trace \<Rightarrow> int result \<times> 'g \<times> trace" where
  "delay_phase rt ou g tr =
     (if dlt (Fin 0) (pr_p (ao_delay ou)) then
        (case p_dist rt g of (u, g) \<Rightarrow>
          if dlt u (pr_p (ao_delay ou)) then
            (case p_dist rt g of (after_p, g) \<Rightarrow>
              let bias = pr_after_bias (ao_delay ou) in
              if delay_bound ou < 0
              then (Inl (Undefined ''uniform_int_distribution: a > b''), g, tr)
              else (case rt_int rt (delay_bound ou) g of (delay, g) \<Rightarrow>
                if dtrue bias \<and> dlt after_p bias then (Inr delay, g, tr)
                else (Inr 0, g, sleep delay tr)))
          else (Inr 0, g, tr))
      else (Inr 0, g, tr))"

text \<open>
  The second block: fail at once with an error, or go on with the error to present after the call
  (zero for none). The iterator is dereferenced without a check on the path that fails after.
\<close>

datatype decision = Fail_now i32 | Go_on i32

definition fail_phase :: "'g rt \<Rightarrow> active_outcome \<Rightarrow> 'g \<Rightarrow> decision result \<times> 'g" where
  "fail_phase rt ou g =
     (if dlt (Fin 0) (pr_p (ao_fail ou)) then
        (case p_dist rt g of (u, g) \<Rightarrow>
          if dlt u (pr_p (ao_fail ou)) then
            (case p_dist rt g of (err_p, g) \<Rightarrow>
              let e = omap_lower_bound dlt (ao_errors ou) err_p in
              (case p_dist rt g of (after_p, g) \<Rightarrow>
                let bias = pr_after_bias (ao_fail ou) in
                if dtrue bias \<and> dlt after_p bias then
                  (case e of None \<Rightarrow> Inl (Undefined ''dereference of end()'')
                   | Some (_, err) \<Rightarrow> Inr (Go_on err), g)
                else
                  (case e of None \<Rightarrow> Inr (Go_on 0) | Some (_, err) \<Rightarrow> Inr (Fail_now err), g)))
          else (Inr (Go_on 0), g))
      else (Inr (Go_on 0), g))"

text \<open>The registers with \<open>-err\<close> in \<open>rax\<close>: an \<open>int\<close> negated, then widened.\<close>

definition with_error :: "gregs \<Rightarrow> i32 \<Rightarrow> gregs" where
  "with_error regs err = regs(REG_RAX := to_long (- err))"

text \<open>The last block: the call, the delay after it, the error after it.\<close>

definition finish_call ::
    "kernel \<Rightarrow> gregs \<Rightarrow> int \<Rightarrow> i32 \<Rightarrow> trace \<Rightarrow> gregs result \<times> trace" where
  "finish_call krn ctx delay_after fail_with tr =
     (case continue_syscall krn ctx tr of
        (Inl e, tr) \<Rightarrow> (Inl e, tr)
      | (Inr ctx, tr) \<Rightarrow>
          (Inr (if fail_with \<noteq> 0 then with_error ctx fail_with else ctx),
           if delay_after \<noteq> 0 then sleep delay_after tr else tr))"

text \<open>The engine is made, from the random device, when a call first needs it.\<close>

definition fail_maybe ::
    "'g rt \<Rightarrow> active_plan \<Rightarrow> gregs \<Rightarrow> 'g option \<Rightarrow> trace \<Rightarrow> gregs result \<times> 'g option \<times> trace" where
  "fail_maybe rt plan ctx eng tr =
     (case tab_find (ap_outcomes plan) (to_int (ctx REG_RAX)) of
        None \<Rightarrow> (case continue_syscall (rt_krn rt) ctx tr of (r, tr) \<Rightarrow> (r, eng, tr))
      | Some ou \<Rightarrow>
          if \<not> eligible ou ctx
          then (case continue_syscall (rt_krn rt) ctx tr of (r, tr) \<Rightarrow> (r, eng, tr))
          else
            (let g = (case eng of None \<Rightarrow> rt_seed rt | Some g \<Rightarrow> g) in
             case delay_phase rt ou g tr of
               (Inl e, g, tr) \<Rightarrow> (Inl e, Some g, tr)
             | (Inr delay_after, g, tr) \<Rightarrow>
                 (case fail_phase rt ou g of
                    (Inl e, g) \<Rightarrow> (Inl e, Some g, tr)
                  | (Inr (Fail_now err), g) \<Rightarrow> (Inr (with_error ctx err), Some g, tr)
                  | (Inr (Go_on fail_with), g) \<Rightarrow>
                      (case finish_call (rt_krn rt) ctx delay_after fail_with tr of
                         (r, tr) \<Rightarrow> (r, Some g, tr)))))"

section \<open>The phases\<close>

text \<open>What the distributions promise about a draw.\<close>

definition rt_ok :: "'g rt \<Rightarrow> bool" where
  "rt_ok rt = ((\<forall>g. 0 \<le> fst (rt_p rt g) \<and> fst (rt_p rt g) < 1) \<and>
     (\<forall>n g. 0 \<le> n \<longrightarrow> 0 \<le> fst (rt_int rt n g) \<and> fst (rt_int rt n g) \<le> n))"

text \<open>Every draw finds an error: some cumulative weight is not below one.\<close>

definition covers_unit :: "(dbl, i32) table \<Rightarrow> bool" where
  "covers_unit m = (\<exists>k \<in> fst ` set m. \<not> dlt k (Fin 1))"

lemma p_dist_range:
  "rt_ok rt \<Longrightarrow> p_dist rt g = (d, g') \<Longrightarrow> \<exists>u. d = Fin u \<and> 0 \<le> u \<and> u < 1"
  by (auto simp: rt_ok_def p_dist_def split: prod.splits dest: spec [of _ g])

lemma p_dist_Fin: "p_dist rt g = (Fin (fst (rt_p rt g)), snd (rt_p rt g))"
  by (simp add: p_dist_def split: prod.split)

lemma covers_unit_found:
  assumes "covers_unit m" "u < 1"
  obtains k e where "omap_lower_bound dlt m (Fin u) = Some (k, e)" "e \<in> snd ` set m"
proof -
  from assms obtain k where k: "k \<in> fst ` set m" "\<not> dlt k (Fin u)"
    by (metis covers_unit_def dlt.simps(1) dlt_trans)
  then have "omap_lower_bound dlt m (Fin u) \<noteq> None"
    by (auto simp: omap_lower_bound_None)
  with omap_lower_bound_in [of dlt m "Fin u"] that show ?thesis
    by (metis image_eqI option.exhaust prod.exhaust_sel snd_conv)
qed

text \<open>A delay is drawn between zero and the bound, and is slept at most once.\<close>

lemma delay_phase_spec:
  assumes "rt_ok rt" and "delay_phase rt ou g tr = (r, g', tr')"
  shows "(r = Inl (Undefined ''uniform_int_distribution: a > b'') \<and> tr' = tr \<and> delay_bound ou < 0)
    \<or> (\<exists>d. r = Inr d \<and> tr' = tr \<and> 0 \<le> d \<and> d \<le> max 0 (delay_bound ou))
    \<or> (\<exists>d. r = Inr 0 \<and> tr' = tr @ [Sleep d] \<and> 0 \<le> d \<and> d \<le> max 0 (delay_bound ou))"
proof -
  have "0 \<le> fst (rt_int rt (delay_bound ou) h) \<and> fst (rt_int rt (delay_bound ou) h) \<le> delay_bound ou"
    if "0 \<le> delay_bound ou" for h
    using assms(1) that by (simp add: rt_ok_def)
  then show ?thesis
    using assms(2)
    by (simp add: delay_phase_def p_dist_Fin case_prod_beta Let_def split: if_splits) fastforce+
qed

lemma delay_phase_off: "\<not> dlt (Fin 0) (pr_p (ao_delay ou)) \<Longrightarrow> delay_phase rt ou g tr = (Inr 0, g, tr)"
  by (simp add: delay_phase_def)

lemma fail_phase_off: "\<not> dlt (Fin 0) (pr_p (ao_fail ou)) \<Longrightarrow> fail_phase rt ou g = (Inr (Go_on 0), g)"
  by (simp add: fail_phase_def)

text \<open>An injected error is one of the outcome's errors.\<close>

lemma fail_phase_errors:
  assumes "fail_phase rt ou g = (r, g')"
  shows "r = Inl (Undefined ''dereference of end()'') \<or> r = Inr (Go_on 0) \<or>
    (\<exists>err \<in> snd ` set (ao_errors ou). r = Inr (Go_on err) \<or> r = Inr (Fail_now err))"
proof -
  have "err \<in> snd ` set (ao_errors ou)"
    if "omap_lower_bound dlt (ao_errors ou) d = Some (k, err)" for k d err
    using omap_lower_bound_in [OF that] by force
  with assms show ?thesis
    by (auto simp: fail_phase_def p_dist_Fin Let_def simp del: bex_simps split: if_splits option.splits)
qed

lemma fail_phase_defined:
  assumes "rt_ok rt" "covers_unit (ao_errors ou)"
  shows "fst (fail_phase rt ou g) \<noteq> Inl e"
proof -
  have "fst (rt_p rt h) < 1" for h
    using assms(1) by (simp add: rt_ok_def)
  then obtain k err where
    "omap_lower_bound dlt (ao_errors ou) (Fin (fst (rt_p rt (snd (rt_p rt g))))) = Some (k, err)"
    using covers_unit_found [OF assms(2)] by metis
  then show ?thesis by (auto simp: fail_phase_def p_dist_Fin Let_def)
qed

lemma fail_phase_certain:
  assumes "rt_ok rt" "covers_unit (ao_errors ou)" "pr_p (ao_fail ou) = Fin 1"
  shows "\<exists>err \<in> snd ` set (ao_errors ou).
    (pr_after_bias (ao_fail ou) = Fin 0 \<longrightarrow> fst (fail_phase rt ou g) = Inr (Fail_now err)) \<and>
    (pr_after_bias (ao_fail ou) = Fin 1 \<longrightarrow> fst (fail_phase rt ou g) = Inr (Go_on err))"
proof -
  have lt1: "fst (rt_p rt h) < 1" for h
    using assms(1) by (simp add: rt_ok_def)
  obtain k err where
    "omap_lower_bound dlt (ao_errors ou) (Fin (fst (rt_p rt (snd (rt_p rt g))))) = Some (k, err)"
    "err \<in> snd ` set (ao_errors ou)"
    using covers_unit_found [OF assms(2) lt1] by metis
  with assms(3) lt1 show ?thesis
    by (auto simp: fail_phase_def p_dist_Fin Let_def dtrue_def intro!: bexI [of _ err])
qed

section \<open>One call, at most once\<close>

lemma finish_call_spec:
  assumes "finish_call krn ctx d w tr = (r, tr')"
  shows "(r = Inl No_return \<and> tr' = tr @ [Sys (reissued ctx)]) \<or>
    (\<exists>a. krn tr (reissued ctx) = Some a \<and>
       r = Inr (if w \<noteq> 0 then with_error ctx w else ctx(REG_RAX := a)) \<and>
       tr' = tr @ Sys (reissued ctx) # (if d \<noteq> 0 then [Sleep d] else []))"
  using assms
  by (auto simp: finish_call_def continue_syscall_eq with_error_def split: option.splits)

text \<open>What an intercepted call may do: the effects it adds, and its result.\<close>

definition call_effect :: "active_outcome \<Rightarrow> kernel \<Rightarrow> gregs \<Rightarrow> trace \<Rightarrow> trace \<Rightarrow> gregs result \<Rightarrow> bool" where
  "call_effect ou krn ctx tr effs r =
     (set (sys_calls effs) \<subseteq> {reissued ctx} \<and> length (sys_calls effs) \<le> 1 \<and>
      0 \<le> slept effs \<and> slept effs \<le> max 0 (delay_bound ou) \<and>
      (\<forall>ctx'. r = Inr ctx' \<longrightarrow>
         (\<exists>err \<in> snd ` set (ao_errors ou). ctx' = with_error ctx err) \<or>
         (sys_calls effs = [reissued ctx] \<and>
          (\<exists>pre a. krn (tr @ pre) (reissued ctx) = Some a \<and> ctx' = ctx(REG_RAX := a)))))"

lemma finish_call_effect:
  assumes "finish_call krn ctx d w (tr @ pre) = (r, tr')"
    and "w = 0 \<or> w \<in> snd ` set (ao_errors ou)"
    and "sys_calls pre = []" "0 \<le> slept pre" "0 \<le> d" "slept pre + d \<le> max 0 (delay_bound ou)"
  shows "\<exists>effs. tr' = tr @ effs \<and> call_effect ou krn ctx tr effs r"
proof -
  from finish_call_spec [OF assms(1)] consider
      "r = Inl No_return" "tr' = tr @ pre @ [Sys (reissued ctx)]"
    | a where "krn (tr @ pre) (reissued ctx) = Some a"
       "r = Inr (if w \<noteq> 0 then with_error ctx w else ctx(REG_RAX := a))"
       "tr' = tr @ pre @ Sys (reissued ctx) # (if d \<noteq> 0 then [Sleep d] else [])"
    by auto
  then show ?thesis
  proof cases
    case 1
    then show ?thesis using assms by (auto simp: call_effect_def)
  next
    case 2
    then show ?thesis using assms
      by (intro exI [of _ "pre @ Sys (reissued ctx) # (if d \<noteq> 0 then [Sleep d] else [])"])
        (auto simp: call_effect_def)
  qed
qed

text \<open>The two ways past the plan's filter.\<close>

definition skips :: "active_plan \<Rightarrow> gregs \<Rightarrow> bool" where
  "skips plan ctx = (case tab_find (ap_outcomes plan) (to_int (ctx REG_RAX)) of
     None \<Rightarrow> True | Some ou \<Rightarrow> \<not> eligible ou ctx)"

lemma fail_maybe_skips:
  "skips plan ctx \<Longrightarrow> fail_maybe rt plan ctx eng tr =
     (fst (continue_syscall (rt_krn rt) ctx tr), eng, tr @ [Sys (reissued ctx)])"
  by (auto simp: skips_def fail_maybe_def continue_syscall_eq split: option.splits)

lemma fail_maybe_selected:
  assumes "tab_find (ap_outcomes plan) (to_int (ctx REG_RAX)) = Some ou" "eligible ou ctx"
  shows "fail_maybe rt plan ctx eng tr =
    (case delay_phase rt ou (case eng of None \<Rightarrow> rt_seed rt | Some g \<Rightarrow> g) tr of
       (Inl e, g, tr) \<Rightarrow> (Inl e, Some g, tr)
     | (Inr delay_after, g, tr) \<Rightarrow>
         (case fail_phase rt ou g of
            (Inl e, g) \<Rightarrow> (Inl e, Some g, tr)
          | (Inr (Fail_now err), g) \<Rightarrow> (Inr (with_error ctx err), Some g, tr)
          | (Inr (Go_on fail_with), g) \<Rightarrow>
              (case finish_call (rt_krn rt) ctx delay_after fail_with tr of (r, tr) \<Rightarrow> (r, Some g, tr))))"
  using assms by (simp add: fail_maybe_def Let_def)

text \<open>
  A runtime for concrete runs: every uniform draw is the given number, every delay the longest
  possible, and the kernel answers every call with 7.
\<close>

definition demo_rt :: "rat \<Rightarrow> unit rt" where
  "demo_rt u = \<lparr>rt_krn = (\<lambda>_ _. Some 7), rt_p = (\<lambda>g. (u, g)), rt_int = (\<lambda>n g. (n, g)), rt_seed = ()\<rparr>"

definition demo_outcome :: "rat \<Rightarrow> rat \<Rightarrow> rat \<Rightarrow> rat \<Rightarrow> outcome" where
  "demo_outcome dp p bias wt =
     \<lparr>o_fail = \<lparr>pr_p = Fin p, pr_after_bias = Fin bias\<rparr>,
      o_delay = \<lparr>pr_p = Fin dp, pr_after_bias = Fin bias\<rparr>,
      o_max_delay = 1000, o_error_weights = [(4, Fin wt)], o_eligible = None\<rparr>"

definition demo_plan :: "rat \<Rightarrow> rat \<Rightarrow> rat \<Rightarrow> rat \<Rightarrow> plan" where
  "demo_plan dp p bias wt =
     \<lparr>pl_outcomes = [(1, demo_outcome dp p bias wt)], pl_selector = (\<lambda>_. True),
      pl_thd_disc = NoDiscovery\<rparr>"

definition demo_regs :: gregs where
  "demo_regs = (\<lambda>_. 0)(REG_RAX := 1, REG_RDI := 2)"

lemma demo_rt_ok [simp]: "0 \<le> u \<Longrightarrow> u < 1 \<Longrightarrow> rt_ok (demo_rt u)"
  by (simp add: rt_ok_def demo_rt_def)

lemma demo_find [simp]:
  "tab_find (ap_outcomes (ActivePlan rnd (demo_plan dp p bias wt))) (to_int (demo_regs REG_RAX)) =
     Some (ActiveOutcome rnd (demo_outcome dp p bias wt))"
  by (simp add: ActivePlan_def demo_plan_def demo_regs_def to_int_def tab_find_def tab_insert_def)

lemma demo_eligible [simp]: "eligible (ActiveOutcome rnd (demo_outcome dp p bias wt)) r"
  by (simp add: eligible_def ActiveOutcome_def demo_outcome_def)

lemma fail_maybe_call:
  assumes ok: "rt_ok rt"
    and sel: "tab_find (ap_outcomes plan) (to_int (ctx REG_RAX)) = Some ou" "eligible ou ctx"
    and run: "fail_maybe rt plan ctx eng tr = (r, eng', tr')"
  shows "\<exists>effs. tr' = tr @ effs \<and> call_effect ou (rt_krn rt) ctx tr effs r"
proof -
  define g0 where "g0 = (case eng of None \<Rightarrow> rt_seed rt | Some g \<Rightarrow> g)"
  obtain r1 g1 tr1 where d: "delay_phase rt ou g0 tr = (r1, g1, tr1)"
    by (cases "delay_phase rt ou g0 tr") auto
  obtain r2 g2 where f: "fail_phase rt ou g1 = (r2, g2)"
    by (cases "fail_phase rt ou g1") auto
  note spec = delay_phase_spec [OF ok d]
  from spec obtain pre where pre: "tr1 = tr @ pre" "sys_calls pre = []" "0 \<le> slept pre"
      "slept pre \<le> max 0 (delay_bound ou)"
      "\<And>da. r1 = Inr da \<Longrightarrow> 0 \<le> da \<and> slept pre + da \<le> max 0 (delay_bound ou)"
    by (elim disjE exE conjE) auto
  note run' = run [unfolded fail_maybe_selected [OF sel] g0_def [symmetric] d prod.case]
  show ?thesis
  proof (cases r1)
    case (Inl e)
    with run' pre show ?thesis by (auto simp: call_effect_def)
  next
    case (Inr da)
    show ?thesis
    proof (cases r2)
      case (Inl e)
      with run' \<open>r1 = Inr da\<close> pre show ?thesis by (auto simp: f call_effect_def)
    next
      case (Inr dec)
      then show ?thesis
        using run' \<open>r1 = Inr da\<close> pre fail_phase_errors [OF f]
          finish_call_effect [of "rt_krn rt" ctx da _ tr pre r tr' ou]
        by (cases dec) (auto simp: f call_effect_def split: prod.splits)
    qed
  qed
qed

lemma fail_maybe_fails:
  assumes ok: "rt_ok rt"
    and sel: "tab_find (ap_outcomes plan) (to_int (ctx REG_RAX)) = Some ou" "eligible ou ctx"
    and ou: "pr_p (ao_fail ou) = Fin 1" "pr_after_bias (ao_fail ou) = Fin 0"
      "covers_unit (ao_errors ou)" "0 \<le> delay_bound ou"
  shows "\<exists>err \<in> snd ` set (ao_errors ou). \<exists>eng' tr'.
    fail_maybe rt plan ctx eng tr = (Inr (with_error ctx err), eng', tr') \<and>
    sys_calls tr' = sys_calls tr"
proof -
  define g0 where "g0 = (case eng of None \<Rightarrow> rt_seed rt | Some g \<Rightarrow> g)"
  obtain r1 g1 tr1 where d: "delay_phase rt ou g0 tr = (r1, g1, tr1)"
    by (cases "delay_phase rt ou g0 tr") auto
  from delay_phase_spec [OF ok d] ou(4) obtain da where da: "r1 = Inr da" "sys_calls tr1 = sys_calls tr"
    by auto
  from fail_phase_certain [OF ok ou(3,1), of g1] ou(2)
  obtain err where err: "err \<in> snd ` set (ao_errors ou)" "fst (fail_phase rt ou g1) = Inr (Fail_now err)"
    by auto
  with da d show ?thesis
    by (cases "fail_phase rt ou g1")
      (auto simp: fail_maybe_selected [OF sel] g0_def [symmetric] intro!: bexI [of _ err])
qed

section \<open>Properties of an intercepted call\<close>

text \<open>
  C2. A call selected for injection reaches the kernel at most once, and then with the arguments
  the program gave; the injected delay, before or after, lies between zero and the plan's bound;
  and when control returns to the program, only \<open>rax\<close> differs: it holds the negated number of one
  of the plan's errors, or the answer the kernel gave to that call.
\<close>

theorem fail_maybe_at_most_once:
  assumes ok: "rt_ok rt"
    and sel: "tab_find (ap_outcomes plan) (to_int (ctx REG_RAX)) = Some ou" "eligible ou ctx"
    and run: "fail_maybe rt plan ctx eng tr = (r, eng', tr')"
  shows "\<exists>effs. tr' = tr @ effs \<and> call_effect ou (rt_krn rt) ctx tr effs r"
  by (rule fail_maybe_call [OF assms])

theorem fail_maybe_at_most_once_witness:
  "\<exists>effs. snd (snd (fail_maybe (demo_rt (1/4)) (ActivePlan Fin (demo_plan 1 1 1 1)) demo_regs None []))
       = [] @ effs \<and>
     call_effect (ActiveOutcome Fin (demo_outcome 1 1 1 1)) (rt_krn (demo_rt (1/4))) demo_regs [] effs
       (fst (fail_maybe (demo_rt (1/4)) (ActivePlan Fin (demo_plan 1 1 1 1)) demo_regs None []))"
  by (rule fail_maybe_at_most_once [of "demo_rt (1/4)" "ActivePlan Fin (demo_plan 1 1 1 1)" demo_regs
        "ActiveOutcome Fin (demo_outcome 1 1 1 1)" None "[]" _
        "fst (snd (fail_maybe (demo_rt (1/4)) (ActivePlan Fin (demo_plan 1 1 1 1)) demo_regs None []))"])
    simp_all

text \<open>
  C26. A call without an outcome in the plan, or one its predicate excludes, or one whose outcome
  has both probabilities zero, is re-executed exactly as if there were no plan: same answer, no
  sleep.
\<close>

theorem fail_maybe_transparent:
  assumes "skips plan ctx \<or>
    (\<exists>ou. tab_find (ap_outcomes plan) (to_int (ctx REG_RAX)) = Some ou \<and>
       pr_p (ao_fail ou) = Fin 0 \<and> pr_p (ao_delay ou) = Fin 0)"
  shows "(\<lambda>(r, eng', tr'). (r, tr')) (fail_maybe rt plan ctx eng tr) =
    continue_syscall (rt_krn rt) ctx tr"
proof (cases "skips plan ctx")
  case True
  then show ?thesis
    by (simp add: fail_maybe_skips prod_eq_iff)
next
  case False
  with assms obtain ou where ou: "tab_find (ap_outcomes plan) (to_int (ctx REG_RAX)) = Some ou"
      "pr_p (ao_fail ou) = Fin 0" "pr_p (ao_delay ou) = Fin 0" "eligible ou ctx"
    by (auto simp: skips_def)
  then show ?thesis
    by (simp add: fail_maybe_selected delay_phase_off fail_phase_off finish_call_def
        continue_syscall_eq split: option.split)
qed

theorem fail_maybe_transparent_witness:
  "(\<lambda>(r, eng', tr'). (r, tr')) (fail_maybe (demo_rt (1/2)) (ActivePlan Fin (demo_plan 0 0 0 1)) demo_regs None [])
     = continue_syscall (rt_krn (demo_rt (1/2))) demo_regs []"
proof -
  have "skips (ActivePlan Fin (demo_plan 0 0 0 1)) demo_regs \<or>
    (\<exists>ou. tab_find (ap_outcomes (ActivePlan Fin (demo_plan 0 0 0 1))) (to_int (demo_regs REG_RAX)) = Some ou \<and>
       pr_p (ao_fail ou) = Fin 0 \<and> pr_p (ao_delay ou) = Fin 0)"
    by (simp add: ActiveOutcome_def demo_outcome_def)
  then show ?thesis by (rule fail_maybe_transparent)
qed

lemma demo_covers [simp]: "covers_unit [(Fin 1, e)]"
  by (simp add: covers_unit_def)

lemma demo_krn [simp]: "rt_krn (demo_rt u) t r = Some 7"
  by (simp add: demo_rt_def)

lemma demo_delay_bound [simp]: "delay_bound (ActiveOutcome Fin (demo_outcome dp p bias wt)) = 1000"
  by (simp add: delay_bound_def ActiveOutcome_def demo_outcome_def to_int_def)

lemma demo_errors [simp]:
  "ao_errors (ActiveOutcome Fin (demo_outcome dp p bias wt)) = [(Fin wt, 4)]"
  by (simp add: ActiveOutcome_def demo_outcome_def)

lemma demo_probs [simp]:
  "ao_fail (ActiveOutcome rnd (demo_outcome dp p bias wt)) = \<lparr>pr_p = Fin p, pr_after_bias = Fin bias\<rparr>"
  "ao_delay (ActiveOutcome rnd (demo_outcome dp p bias wt)) = \<lparr>pr_p = Fin dp, pr_after_bias = Fin bias\<rparr>"
  by (simp_all add: ActiveOutcome_def demo_outcome_def)

text \<open>
  A plan that always fails a call after it ran (probability one, bias one) lets the kernel
  execute it exactly once and then presents one of its errors in place of the answer.
\<close>

lemma fail_maybe_always_after:
  assumes ok: "rt_ok rt"
    and sel: "tab_find (ap_outcomes plan) (to_int (ctx REG_RAX)) = Some ou" "eligible ou ctx"
    and ou: "pr_p (ao_fail ou) = Fin 1" "pr_after_bias (ao_fail ou) = Fin 1"
      "covers_unit (ao_errors ou)" "0 \<le> delay_bound ou" "0 \<notin> snd ` set (ao_errors ou)"
    and returns: "\<And>t. rt_krn rt t (reissued ctx) \<noteq> None"
  shows "\<exists>err \<in> snd ` set (ao_errors ou). \<exists>eng' tr'.
    fail_maybe rt plan ctx eng tr = (Inr (with_error ctx err), eng', tr') \<and>
    sys_calls tr' = sys_calls tr @ [reissued ctx]"
proof -
  define g0 where "g0 = (case eng of None \<Rightarrow> rt_seed rt | Some g \<Rightarrow> g)"
  obtain r1 g1 tr1 where d: "delay_phase rt ou g0 tr = (r1, g1, tr1)"
    by (cases "delay_phase rt ou g0 tr") auto
  from delay_phase_spec [OF ok d] ou(4) obtain da where da: "r1 = Inr da" "sys_calls tr1 = sys_calls tr"
    by auto
  from fail_phase_certain [OF ok ou(3,1), of g1] ou(2)
  obtain err where err: "err \<in> snd ` set (ao_errors ou)" "fst (fail_phase rt ou g1) = Inr (Go_on err)"
    by auto
  then have "err \<noteq> 0" using ou(5) by auto
  obtain r3 tr3 where fc: "finish_call (rt_krn rt) ctx da err tr1 = (r3, tr3)"
    by (cases "finish_call (rt_krn rt) ctx da err tr1") auto
  from fc returns [of tr1] have "r3 = Inr (with_error ctx err)" "sys_calls tr3 = sys_calls tr1 @ [reissued ctx]"
    using \<open>err \<noteq> 0\<close>
    by (auto simp: finish_call_def continue_syscall_eq with_error_def split: if_splits)
  with da d err fc show ?thesis
    by (cases "fail_phase rt ou g1")
      (auto simp: fail_maybe_selected [OF sel] g0_def [symmetric] intro!: bexI [of _ err])
qed

section \<open>Plans on which the handler misbehaves\<close>

lemma light_weights_end:
  assumes "pos_weights (o_error_weights ou)" "total (o_error_weights ou) < u"
  shows "omap_lower_bound dlt (ao_errors (ActiveOutcome Fin ou)) (Fin u) = None"
proof (rule ccontr)
  assume "\<not> ?thesis"
  then obtain s e where "omap_lower_bound dlt (ao_errors (ActiveOutcome Fin ou)) (Fin u) = Some (s, e)"
    by auto
  then obtain pre w post where ws: "o_error_weights ou = pre @ (e, Fin w) # post" "u \<le> total pre + w"
    unfolding ao_errors_exact [OF assms(1)] lower_bound_exact [OF assms(1)] by auto
  with assms total_nonneg [of post] show False by simp
qed

text \<open>
  C35. Weights that do not reach one. When the errors of an outcome that is to fail with probability
  one have a total weight below the draw for the error: on the path after the call the handler reads
  the error through the end iterator, which is undefined behaviour, and on the path before it the
  failure is not injected and the call runs.
\<close>

theorem light_weights:
  assumes "rt_ok rt"
    and "tab_find (ap_outcomes plan) (to_int (ctx REG_RAX)) = Some (ActiveOutcome Fin ou)"
    and "eligible (ActiveOutcome Fin ou) ctx"
    and "pr_p (o_fail ou) = Fin 1" and "pr_p (o_delay ou) = Fin 0"
    and "pos_weights (o_error_weights ou)"
    and "total (o_error_weights ou) < fst (rt_p rt (snd (rt_p rt g)))"
  shows "(pr_after_bias (o_fail ou) = Fin 1 \<longrightarrow>
      fst (fail_maybe rt plan ctx (Some g) tr) = Inl (Undefined ''dereference of end()'')) \<and>
    (pr_after_bias (o_fail ou) = Fin 0 \<longrightarrow>
      (\<lambda>(r, eng', tr'). (r, tr')) (fail_maybe rt plan ctx (Some g) tr) = continue_syscall (rt_krn rt) ctx tr)"
proof -
  let ?ou = "ActiveOutcome Fin ou"
  have "fst (rt_p rt h) < 1" for h using assms(1) by (simp add: rt_ok_def)
  then have "pr_after_bias (o_fail ou) = Fin 1 \<Longrightarrow> fst (fail_phase rt ?ou g) = Inl (Undefined ''dereference of end()'')"
    "pr_after_bias (o_fail ou) = Fin 0 \<Longrightarrow> fst (fail_phase rt ?ou g) = Inr (Go_on 0)"
    using assms(4) light_weights_end [OF assms(6,7)]
    by (simp_all add: fail_phase_def p_dist_Fin Let_def dtrue_def ActiveOutcome_def)
  moreover have "delay_phase rt ?ou g tr = (Inr 0, g, tr)"
    using assms(5) by (simp add: delay_phase_off ActiveOutcome_def)
  ultimately show ?thesis
    by (cases "fail_phase rt ?ou g")
      (simp add: fail_maybe_selected [OF assms(2,3)] finish_call_def continue_syscall_eq split: option.split)
qed

theorem light_weights_witness:
  "fst (fail_maybe (demo_rt (1/2)) (ActivePlan Fin (demo_plan 0 1 1 (1/4))) demo_regs (Some ()) []) =
     Inl (Undefined ''dereference of end()'') \<and>
   (\<lambda>(r, eng', tr'). (r, tr'))
     (fail_maybe (demo_rt (1/2)) (ActivePlan Fin (demo_plan 0 1 0 (1/4))) demo_regs (Some ()) []) =
   continue_syscall (rt_krn (demo_rt (1/2))) demo_regs []"
proof -
  have ou: "pr_p (o_fail (demo_outcome 0 1 b (1/4))) = Fin 1" "pr_p (o_delay (demo_outcome 0 1 b (1/4))) = Fin 0"
    "pos_weights (o_error_weights (demo_outcome 0 1 b (1/4)))"
    "total (o_error_weights (demo_outcome 0 1 b (1/4))) < fst (rt_p (demo_rt (1/2)) (snd (rt_p (demo_rt (1/2)) ())))" for b
    by (simp_all add: demo_outcome_def demo_rt_def pos_weights_Fin del: pos_weights_simps(2))
  have rt: "rt_ok (demo_rt (1/2))" by simp
  note run = light_weights [where ctx = demo_regs and g = "()" and tr = "[]", OF rt demo_find demo_eligible ou]
  show ?thesis using run [of 1] run [of 0] by (simp add: demo_outcome_def)
qed

lemma sint_to_int_negative:
  assumes "2 ^ 31 \<le> uint m" "uint m < 2 ^ 32"
  shows "sint (to_int m) = uint m - 2 ^ 32"
proof -
  have "uint (to_int m) = uint m"
    using assms(2) by (simp add: to_int_def unsigned_ucast_eq take_bit_int_eq_self)
  then have "sint (to_int m) = signed_take_bit 31 (uint m)"
    by (simp add: sint_uint)
  also have "\<dots> = (uint m + 2 ^ 31) mod 2 ^ 32 - 2 ^ 31"
    by (simp add: signed_take_bit_eq_take_bit_shift take_bit_eq_mod)
  also have "(uint m + 2 ^ 31) mod 2 ^ 32 = (uint m + 2 ^ 31 - 2 ^ 32) mod 2 ^ 32"
    by (rule minus_mod_self2 [symmetric])
  also have "(uint m + 2 ^ 31 - 2 ^ 32) mod 2 ^ 32 = uint m + 2 ^ 31 - 2 ^ 32"
    using assms by (intro mod_pos_pos_trivial) auto
  finally show ?thesis by simp
qed

text \<open>
  A longest delay between \<open>2 ^ 31\<close> and \<open>2 ^ 32\<close> microseconds, which the C interface can
  express, turns negative when it is narrowed to \<open>int\<close>; a plan that always delays then gives the
  integer distribution an empty range: undefined behaviour.
\<close>

lemma long_delay_undefined:
  assumes "rt_ok rt"
    and "tab_find (ap_outcomes plan) (to_int (ctx REG_RAX)) = Some ou" and "eligible ou ctx"
    and "pr_p (ao_delay ou) = Fin 1"
    and "2 ^ 31 \<le> uint (ao_max_delay ou)" and "uint (ao_max_delay ou) < 2 ^ 32"
  shows "fst (fail_maybe rt plan ctx eng tr) =
    Inl (Undefined ''uniform_int_distribution: a > b'')"
proof -
  have "fst (rt_p rt h) < 1" for h using assms(1) by (simp add: rt_ok_def)
  moreover have "delay_bound ou < 0"
    using sint_to_int_negative [OF assms(5,6)] assms(6) by (simp add: delay_bound_def)
  ultimately have "fst (delay_phase rt ou g tr) =
      Inl (Undefined ''uniform_int_distribution: a > b'')" for g
    using assms(4) by (simp add: delay_phase_def p_dist_Fin Let_def)
  from this [of "case eng of None \<Rightarrow> rt_seed rt | Some g \<Rightarrow> g"] show ?thesis
    unfolding fail_maybe_selected [OF assms(2,3)]
    by (cases "delay_phase rt ou (case eng of None \<Rightarrow> rt_seed rt | Some g \<Rightarrow> g) tr") simp
qed

end
