(* ===== verification/Restore.thy ===== *)
theory Restore
  imports Registers
begin

unbundle bit_operations_syntax

text \<open>
  \<open>src/restore.S\<close>: the instructions of \<open>sysfail_restore\<close>, executed on a machine with the
  x86-64 registers and a byte-addressed memory. The routine leaves the signal handler: it loads
  the saved registers and continues at the saved program counter.
\<close>

section \<open>The machine\<close>

fun le_bytes :: "nat \<Rightarrow> u64 \<Rightarrow> 8 word list" where
  "le_bytes 0 v = []"
| "le_bytes (Suc n) v = ucast v # le_bytes n (drop_bit 8 v)"

fun le_word :: "8 word list \<Rightarrow> u64" where
  "le_word [] = 0"
| "le_word (b # bs) = ucast b OR push_bit 8 (le_word bs)"

type_synonym mem = "u64 \<Rightarrow> 8 word"

definition read64 :: "mem \<Rightarrow> u64 \<Rightarrow> u64" where
  "read64 m a = le_word (map (\<lambda>i. m (a + of_nat i)) [0..<8])"

definition write64 :: "mem \<Rightarrow> u64 \<Rightarrow> u64 \<Rightarrow> mem" where
  "write64 m a v = (\<lambda>x. let i = unat (x - a) in if i < 8 then le_bytes 8 v ! i else m x)"

record mach =
  mregs :: gregs
  mmem :: mem

text \<open>
  The flags a program can change with \<open>popfq\<close>: carry, parity, adjust, zero, sign, trap,
  direction, overflow, nested task, alignment check and identification. The resume flag is
  cleared, the others keep their value.
\<close>

definition user_flags :: u64 where
  "user_flags = 0x244DD5"

definition resume_flag :: u64 where
  "resume_flag = 0x10000"

definition popf :: "u64 \<Rightarrow> u64 \<Rightarrow> u64" where
  "popf old v = (v AND user_flags) OR (old AND NOT user_flags AND NOT resume_flag)"

datatype instr =
    Movq nat greg greg  \<comment> \<open>load from the displacement off the base register\<close>
  | Pushq greg
  | Popfq
  | Ret

fun exec_instr :: "instr \<Rightarrow> mach \<Rightarrow> mach" where
  "exec_instr (Movq d b r) s =
     s\<lparr>mregs := (mregs s)(r := read64 (mmem s) (mregs s b + of_nat d))\<rparr>"
| "exec_instr (Pushq r) s =
     (let sp = mregs s REG_RSP - 8
      in s\<lparr>mregs := (mregs s)(REG_RSP := sp), mmem := write64 (mmem s) sp (mregs s r)\<rparr>)"
| "exec_instr Popfq s =
     (let sp = mregs s REG_RSP
      in s\<lparr>mregs := (mregs s)(REG_EFL := popf (mregs s REG_EFL) (read64 (mmem s) sp),
                              REG_RSP := sp + 8)\<rparr>)"
| "exec_instr Ret s =
     (let sp = mregs s REG_RSP
      in s\<lparr>mregs := (mregs s)(REG_RIP := read64 (mmem s) sp, REG_RSP := sp + 8)\<rparr>)"

fun exec_all :: "instr list \<Rightarrow> mach \<Rightarrow> mach" where
  "exec_all [] s = s"
| "exec_all (i # is) s = exec_all is (exec_instr i s)"

definition sysfail_restore :: "instr list" where
  "sysfail_restore =
     [Movq 0 REG_RDI REG_R8, Movq 8 REG_RDI REG_R9, Movq 16 REG_RDI REG_R10,
      Movq 24 REG_RDI REG_R11, Movq 32 REG_RDI REG_R12, Movq 40 REG_RDI REG_R13,
      Movq 48 REG_RDI REG_R14, Movq 56 REG_RDI REG_R15,
      Movq 72 REG_RDI REG_RSI, Movq 80 REG_RDI REG_RBP, Movq 88 REG_RDI REG_RBX,
      Movq 96 REG_RDI REG_RDX, Movq 112 REG_RDI REG_RCX, Movq 120 REG_RDI REG_RSP,
      Movq 128 REG_RDI REG_RAX, Pushq REG_RAX,
      Movq 136 REG_RDI REG_RAX, Pushq REG_RAX,
      Movq 104 REG_RDI REG_RAX, Movq 64 REG_RDI REG_RDI,
      Popfq, Ret]"

text \<open>
  The array of saved registers lies in memory at \<open>base\<close>, and none of its bytes is among the
  sixteen below the saved stack pointer.
\<close>

definition saved_at :: "mem \<Rightarrow> u64 \<Rightarrow> gregs \<Rightarrow> bool" where
  "saved_at m base ctx = (\<forall>r. read64 m (base + of_nat (8 * greg_index r)) = ctx r)"

definition in_push_area :: "u64 \<Rightarrow> u64 \<Rightarrow> bool" where
  "in_push_area sp x = (unat (x - (sp - 16)) < 16)"

definition array_apart :: "u64 \<Rightarrow> u64 \<Rightarrow> bool" where
  "array_apart base sp = (\<forall>i < 144. \<not> in_push_area sp (base + of_nat i))"

text \<open>The memory after the routine pushed the program counter and the flags.\<close>

definition pushed :: "mem \<Rightarrow> gregs \<Rightarrow> mem" where
  "pushed m ctx =
     write64 (write64 m (ctx REG_RSP - 8) (ctx REG_RIP)) (ctx REG_RSP - 16) (ctx REG_EFL)"

section \<open>Memory\<close>

lemma length_le_bytes [simp]: "length (le_bytes n v) = n"
  by (induction n v rule: le_bytes.induct) auto

lemma le_word_bytes: "le_word (le_bytes n v) = take_bit (8 * n) v"
proof (induction n v rule: le_bytes.induct)
  case (2 n v)
  show ?case
    by (rule bit_word_eqI) (auto simp: 2 bit_simps)
qed simp

lemma map_write64_same:
  "map (\<lambda>i. write64 m a v (a + of_nat i)) [0..<8] = le_bytes 8 v"
proof (rule nth_equalityI)
  fix i assume "i < length (map (\<lambda>i. write64 m a v (a + of_nat i)) [0..<8])"
  then have i: "i < 8" by simp
  then have "unat (of_nat i :: u64) = i" by (simp add: unsigned_of_nat take_bit_nat_eq_self)
  with i show "map (\<lambda>i. write64 m a v (a + of_nat i)) [0..<8] ! i = le_bytes 8 v ! i"
    by (simp add: write64_def)
qed simp

lemma read64_write64_same: "read64 (write64 m a v) a = v"
proof -
  have "le_word (le_bytes 8 v) = v"
    unfolding le_word_bytes by (rule bit_word_eqI) (simp add: bit_simps)
  then show ?thesis by (simp only: read64_def map_write64_same)
qed

lemma write64_frame: "\<not> unat (x - a) < 8 \<Longrightarrow> write64 m a v x = m x"
  by (simp add: write64_def)

lemma read64_write64_other:
  assumes "\<And>i. i < 8 \<Longrightarrow> \<not> unat (b + of_nat i - a) < 8"
  shows "read64 (write64 m a v) b = read64 m b"
proof -
  have "map (\<lambda>i. write64 m a v (b + of_nat i)) [0..<8] = map (\<lambda>i. m (b + of_nat i)) [0..<8]"
    using assms by (intro map_cong) (auto simp: write64_frame)
  then show ?thesis by (simp only: read64_def)
qed

lemma unat_diff_near:
  fixes x a :: u64
  assumes "unat (x - a) < 8"
  shows "unat (x - (a - 8)) < 16"
proof -
  have "unat (x - (a - 8)) = unat ((x - a) + 8)"
    by (simp add: algebra_simps)
  also have "\<dots> = unat (x - a) + 8"
    using assms by (subst unat_add_lem [THEN iffD1]) simp_all
  finally show ?thesis using assms by simp
qed

lemma in_push_area_low: "unat (x - (sp - 16)) < 8 \<Longrightarrow> in_push_area sp x"
  by (simp add: in_push_area_def)

lemma in_push_area_high: "unat (x - (sp - 8)) < 8 \<Longrightarrow> in_push_area sp x"
  using unat_diff_near [of x "sp - 8"] by (simp add: in_push_area_def)

lemma pushed_frame: "\<not> in_push_area (ctx REG_RSP) x \<Longrightarrow> pushed m ctx x = m x"
  using in_push_area_low [of x "ctx REG_RSP"] in_push_area_high [of x "ctx REG_RSP"]
  by (simp only: pushed_def write64_frame not_False_eq_True) (simp add: write64_def Let_def, blast)

lemma array_byte:
  assumes "array_apart base sp" "d + 8 \<le> 144" "i < 8"
  shows "\<not> in_push_area sp (base + of_nat d + of_nat i)"
proof -
  have "\<not> in_push_area sp (base + of_nat (d + i))"
    using assms by (simp only: array_apart_def) (simp add: add.commute)
  then show ?thesis by (simp add: add.assoc)
qed

lemma read64_push1:
  assumes "array_apart base sp" "d + 8 \<le> 144"
  shows "read64 (write64 m (sp - 8) v) (base + of_nat d) = read64 m (base + of_nat d)"
  using array_byte [OF assms] by (intro read64_write64_other) (auto dest: in_push_area_high)

lemma read64_push2:
  assumes "array_apart base sp" "d + 8 \<le> 144"
  shows "read64 (write64 m (sp - 16) v) (base + of_nat d) = read64 m (base + of_nat d)"
  using array_byte [OF assms] by (intro read64_write64_other) (auto dest: in_push_area_low)

lemma read64_pushed_high: "read64 (pushed m ctx) (ctx REG_RSP - 8) = ctx REG_RIP"
proof -
  have "\<not> unat (ctx REG_RSP - 8 + of_nat i - (ctx REG_RSP - 16)) < 8" if "i < 8" for i
  proof -
    have "unat (8 + of_nat i :: u64) = 8 + i"
      using that by (simp add: unat_word_ariths unsigned_of_nat take_bit_nat_eq_self)
    moreover have "ctx REG_RSP - 8 + of_nat i - (ctx REG_RSP - 16) = 8 + of_nat i"
      by (simp add: algebra_simps)
    ultimately show ?thesis by simp
  qed
  then show ?thesis
    unfolding pushed_def by (subst read64_write64_other) (simp_all add: read64_write64_same)
qed

lemma read64_pushed_low: "read64 (pushed m ctx) (ctx REG_RSP - 16) = ctx REG_EFL"
  by (simp add: pushed_def read64_write64_same)

section \<open>What the routine does\<close>

lemma exec_restore:
  assumes "saved_at (mmem s) base ctx" "mregs s REG_RDI = base" "array_apart base (ctx REG_RSP)"
  shows "exec_all sysfail_restore s =
    s\<lparr>mregs := (\<lambda>r. if r \<le> REG_RIP then ctx r
                   else if r = REG_EFL then popf (mregs s REG_EFL) (ctx REG_EFL) else mregs s r),
      mmem := pushed (mmem s) ctx\<rparr>"
proof -
  have rd: "read64 (mmem s) (base + of_nat (8 * greg_index r)) = ctx r" for r
    using assms(1) by (simp add: saved_at_def)
  note at = rd [of REG_R8, simplified] rd [of REG_R9, simplified] rd [of REG_R10, simplified]
    rd [of REG_R11, simplified] rd [of REG_R12, simplified] rd [of REG_R13, simplified]
    rd [of REG_R14, simplified] rd [of REG_R15, simplified] rd [of REG_RDI, simplified]
    rd [of REG_RSI, simplified] rd [of REG_RBP, simplified] rd [of REG_RBX, simplified]
    rd [of REG_RDX, simplified] rd [of REG_RAX, simplified] rd [of REG_RCX, simplified]
    rd [of REG_RSP, simplified] rd [of REG_RIP, simplified] rd [of REG_EFL, simplified]
  note push1 = read64_push1 [OF assms(3), of 136, simplified] read64_push1 [OF assms(3), of 104, simplified]
    read64_push1 [OF assms(3), of 64, simplified]
  note push2 = read64_push2 [OF assms(3), of 104, simplified] read64_push2 [OF assms(3), of 64, simplified]
  have regs: "mregs (exec_all sysfail_restore s) r =
      (if r \<le> REG_RIP then ctx r
       else if r = REG_EFL then popf (mregs s REG_EFL) (ctx REG_EFL) else mregs s r)" for r
    using read64_pushed_high [of "mmem s" ctx] read64_pushed_low [of "mmem s" ctx]
    by (cases r)
      (simp_all add: sysfail_restore_def assms(2) at push1 push2 pushed_def Let_def)
  have "mmem (exec_all sysfail_restore s) = pushed (mmem s) ctx"
    by (simp add: sysfail_restore_def assms(2) at push1 push2 pushed_def Let_def)
  with regs show ?thesis by (cases "exec_all sysfail_restore s") (auto simp: fun_eq_iff)
qed

lemma popf_user_flags: "popf old v AND user_flags = v AND user_flags"
  by (rule bit_word_eqI) (auto simp: popf_def bit_simps)

text \<open>
  C14. Leaving the handler. When the saved registers lie in memory at the pointer given to
  \<open>sysfail_restore\<close>, apart from the sixteen bytes below the saved stack pointer, the routine ends with
  every general register, the stack pointer and the program counter as saved (the handler's changes
  to them included), with the flags a program can set as saved, and with the memory unchanged but
  for those sixteen bytes.
\<close>

theorem restore_resumes:
  assumes "saved_at (mmem s) base ctx" "mregs s REG_RDI = base" "array_apart base (ctx REG_RSP)"
  shows "(\<forall>r. r \<le> REG_RIP \<longrightarrow> mregs (exec_all sysfail_restore s) r = ctx r) \<and>
    mregs (exec_all sysfail_restore s) REG_EFL AND user_flags = ctx REG_EFL AND user_flags \<and>
    (\<forall>x. \<not> in_push_area (ctx REG_RSP) x \<longrightarrow> mmem (exec_all sysfail_restore s) x = mmem s x)"
  unfolding exec_restore [OF assms] by (simp add: popf_user_flags pushed_frame)

text \<open>
  The sixteen bytes are overwritten: the program counter and the flags are stored in the red
  zone of the interrupted function, which the x86-64 calling convention lets a leaf function use.
\<close>

lemma restore_clobbers_red_zone:
  assumes "saved_at (mmem s) base ctx" "mregs s REG_RDI = base" "array_apart base (ctx REG_RSP)"
  shows "read64 (mmem (exec_all sysfail_restore s)) (ctx REG_RSP - 8) = ctx REG_RIP \<and>
    read64 (mmem (exec_all sysfail_restore s)) (ctx REG_RSP - 16) = ctx REG_EFL"
  unfolding exec_restore [OF assms] by (simp add: read64_pushed_high read64_pushed_low)

text \<open>A machine for concrete runs: a saved program counter of 7 and a saved stack pointer of 0.\<close>

lemma demo_apart: "array_apart 4096 0"
proof -
  have "unat (4096 + of_nat i - (0 - 16) :: u64) = 4112 + i" if "i < 144" for i
    using that by (simp add: unat_word_ariths unsigned_of_nat take_bit_nat_eq_self)
  then show ?thesis by (simp add: array_apart_def in_push_area_def)
qed

lemma demo_saved:
  "saved_at ((\<lambda>_. 0)(4224 := 7)) 4096 ((\<lambda>_. 0)(REG_RIP := 7))"
proof -
  have "read64 ((\<lambda>_. 0)(4224 := 7)) (4096 + of_nat (8 * greg_index r)) =
      ((\<lambda>_. 0)(REG_RIP := 7)) r" for r
    by (cases r) (simp_all add: read64_def upt_rec)
  then show ?thesis by (simp add: saved_at_def)
qed

theorem restore_resumes_witness:
  "mregs (exec_all sysfail_restore
     \<lparr>mregs = (\<lambda>_. 1)(REG_RDI := 4096), mmem = (\<lambda>_. 0)(4224 := 7)\<rparr>) REG_RIP = 7"
  using restore_resumes [of "\<lparr>mregs = (\<lambda>_. 1)(REG_RDI := 4096), mmem = (\<lambda>_. 0)(4224 := 7)\<rparr>" 4096
      "(\<lambda>_. 0)(REG_RIP := 7)"] demo_apart demo_saved
  by simp

end
