(* ===== verification/Sigsys.thy ===== *)
theory Sigsys
  imports Fail_Maybe Restore Thread_Ctl
begin

text \<open>
  \<open>handle_sigsys\<close> of \<open>src/session.cc\<close>: what happens to a system call that the kernel intercepted.
  The handler works on the saved registers and leaves through \<open>sysfail_restore\<close>. The memory it
  reads is a byte array, the thread's id and the environment of \<open>Thread_Ctl\<close> are parameters.
\<close>

definition SYS_rt_sigprocmask :: u64 where "SYS_rt_sigprocmask = 14"
definition SYS_rt_sigreturn :: u64 where "SYS_rt_sigreturn = 15"
definition SYS_exit :: u64 where "SYS_exit = 60"
definition SIG_BLOCK :: u64 where "SIG_BLOCK = 0"
definition SIG_UNBLOCK :: u64 where "SIG_UNBLOCK = 1"
definition SIG_SETMASK :: u64 where "SIG_SETMASK = 2"

lemmas sys_numbers = SYS_rt_sigprocmask_def SYS_rt_sigreturn_def SYS_exit_def
  SIG_BLOCK_def SIG_UNBLOCK_def SIG_SETMASK_def

text \<open>
  \<open>sigismember\<close> of the C library: -1 for a null set, otherwise the bit of the signal, which for
  the signals up to 64 is in the first word of the set.
\<close>

definition sigismember :: "mem \<Rightarrow> u64 \<Rightarrow> int \<Rightarrow> int" where
  "sigismember mem sigset sig =
     (if sigset = 0 then - 1 else if bit (read64 mem sigset) (nat (sig - 1)) then 1 else 0)"

text \<open>
  The signal to rearm goes to the thread itself; when it is not blocked its handler runs. The calls
  made for it are \<open>getpid\<close> and \<open>getuid\<close>, the one that queues the signal, and \<open>gettid\<close> in the
  handler.
\<close>

definition send_rearm :: "env \<Rightarrow> pid \<Rightarrow> world \<Rightarrow> trace \<Rightarrow> world result \<times> trace" where
  "send_rearm env tid w tr =
     (let tr = tr @ [Libc Getpid, Libc Getuid, Queue tid SIG_REARM] in
      case send_signal (e_tgsig env tid SIG_REARM) None w of
        Inl e \<Rightarrow> (Inl e, tr)
      | Inr (queued, w) \<Rightarrow>
          if queued \<and> e_runs env tid SIG_REARM
          then (reenable_sysfail tid w, if w_global w then tr @ [Libc Gettid] else tr)
          else (Inr w, tr))"

text \<open>
  The result has the saved registers as \<open>sysfail_restore\<close> finds them and the session. The answer
  of \<open>rt_sigreturn\<close> is thrown away, should it come back at all.
\<close>

definition handle_sigsys ::
    "'g rt \<Rightarrow> env \<Rightarrow> mem \<Rightarrow> pid \<Rightarrow> gregs \<Rightarrow> world \<Rightarrow> 'g option \<Rightarrow> trace
     \<Rightarrow> (gregs \<times> world) result \<times> 'g option \<times> trace" where
  "handle_sigsys rt env mem tid ctx w eng tr =
     (let s = w_global w; nr = ctx REG_RAX in
      if s \<and> nr = SYS_rt_sigprocmask then
        (let sigset = ctx REG_RSI; sigsys_on = sigismember mem sigset SIGSYS in
         if sigsys_on \<noteq> 0 then
           (let cmd = ctx REG_RDI in
            if cmd = SIG_BLOCK \<or> cmd = SIG_SETMASK then
              (let tr = tr @ [Libc Gettid] in
               case disarm tid w of
                 Inl e \<Rightarrow> (Inl e, eng, tr)
               | Inr w \<Rightarrow>
                   (case continue_syscall (rt_krn rt) ctx tr of
                      (Inl e, tr) \<Rightarrow> (Inl e, eng, tr)
                    | (Inr ctx, tr) \<Rightarrow>
                        (case send_rearm env tid w tr of
                           (r, tr) \<Rightarrow> (rbind r (\<lambda>w. Inr (ctx, w)), eng, tr))))
            else (Inr (ctx, w), eng, tr))
         else (Inr (ctx, w), eng, tr))
      else if nr = SYS_rt_sigreturn then
        (case set_rsp_and_exec_syscall (rt_krn rt) (ctx REG_RDI) (ctx REG_RSI) (ctx REG_RDX)
                (ctx REG_R10) (ctx REG_R8) (ctx REG_R9) (to_int (ctx REG_RAX)) (ctx REG_RSP) tr of
           (Inl e, tr) \<Rightarrow> (Inl e, eng, tr)
         | (Inr rax, tr) \<Rightarrow> (Inr (ctx, w), eng, tr))
      else if s \<and> nr \<noteq> SYS_exit then
        (case fail_maybe rt (w_plan w) ctx eng tr of
           (r, eng, tr) \<Rightarrow> (rbind r (\<lambda>ctx. Inr (ctx, w)), eng, tr))
      else
        (case continue_syscall (rt_krn rt) ctx tr of
           (r, tr) \<Rightarrow> (rbind r (\<lambda>ctx. Inr (ctx, w)), eng, tr)))"

section \<open>Branches\<close>

lemma fits_small: "fits_int 14" "fits_int 15" "fits_int 60"
  by (simp_all add: fits_int_def to_long_def to_int_def)

lemma handle_injects:
  assumes "w_global w" "ctx REG_RAX \<notin> {SYS_rt_sigprocmask, SYS_rt_sigreturn, SYS_exit}"
  shows "handle_sigsys rt env mem tid ctx w eng tr =
    (case fail_maybe rt (w_plan w) ctx eng tr of (r, eng, tr) \<Rightarrow> (rbind r (\<lambda>ctx. Inr (ctx, w)), eng, tr))"
  using assms by (simp add: handle_sigsys_def Let_def)

lemma handle_plain:
  assumes "\<not> w_global w \<and> ctx REG_RAX \<noteq> SYS_rt_sigreturn \<or> ctx REG_RAX = SYS_exit"
  shows "handle_sigsys rt env mem tid ctx w eng tr =
    (rbind (fst (continue_syscall (rt_krn rt) ctx tr)) (\<lambda>ctx. Inr (ctx, w)), eng, tr @ [Sys (reissued ctx)])"
  using assms
  by (auto simp: handle_sigsys_def Let_def sys_numbers continue_syscall_eq split: option.splits)

text \<open>Blocking \<open>SIGSYS\<close> with a set that is given, or passing no set.\<close>

definition masks_sigsys :: "mem \<Rightarrow> gregs \<Rightarrow> bool" where
  "masks_sigsys mem ctx =
     (ctx REG_RAX = SYS_rt_sigprocmask \<and> sigismember mem (ctx REG_RSI) SIGSYS \<noteq> 0 \<and>
      (ctx REG_RDI = SIG_BLOCK \<or> ctx REG_RDI = SIG_SETMASK))"

lemma handle_drops:
  assumes "w_global w" "ctx REG_RAX = SYS_rt_sigprocmask" "\<not> masks_sigsys mem ctx"
  shows "handle_sigsys rt env mem tid ctx w eng tr = (Inr (ctx, w), eng, tr)"
  using assms by (auto simp: handle_sigsys_def masks_sigsys_def Let_def)

lemma handle_masks:
  assumes "w_global w" "masks_sigsys mem ctx" "disarm tid w = Inr w1"
    and "continue_syscall (rt_krn rt) ctx (tr @ [Libc Gettid]) = (Inr ctx', tr')"
  shows "handle_sigsys rt env mem tid ctx w eng tr =
    (case send_rearm env tid w1 tr' of (r, tr') \<Rightarrow> (rbind r (\<lambda>w. Inr (ctx', w)), eng, tr'))"
  using assms by (auto simp: handle_sigsys_def masks_sigsys_def Let_def)

lemma read64_const: "read64 (\<lambda>_. 0) a = 0" "read64 (\<lambda>_. 255) a = 0xFFFFFFFFFFFFFFFF"
proof -
  have "[0..<8] = [0, 1, 2, 3, 4, 5, 6, 7 :: nat]" by (simp add: upt_rec)
  then show "read64 (\<lambda>_. 0) a = 0" "read64 (\<lambda>_. 255) a = 0xFFFFFFFFFFFFFFFF"
    by (simp_all add: read64_def)
qed

text \<open>
  All that may differ is the selector of one thread: the table has the same threads in the same
  order with the same semaphores, the entries of the other threads are the same, and so is everything
  outside the table.
\<close>

definition quiet :: "pid \<Rightarrow> world \<Rightarrow> world \<Rightarrow> bool" where
  "quiet tid w w' =
     (w' = w\<lparr>w_thds := w_thds w'\<rparr> \<and> map fst (w_thds w') = map fst (w_thds w) \<and>
      (\<forall>t. t \<noteq> tid \<longrightarrow> tab_find (w_thds w') t = tab_find (w_thds w) t) \<and>
      map_option ts_sem (tab_find (w_thds w') tid) = map_option ts_sem (tab_find (w_thds w) tid))"

lemma quiet_set_on: "set_on tid d w = Inr w' \<Longrightarrow> quiet tid w w'"
  by (auto simp: set_on_def thd_mod_def quiet_def keys_tab_update split: option.splits)

lemma quiet_disarm: "disarm tid w = Inr w' \<Longrightarrow> quiet tid w w'"
  by (auto simp: disarm_def quiet_set_on split: option.splits)

lemma quiet_refl [simp]: "quiet tid w w"
  by (simp add: quiet_def)

lemma quiet_trans: "quiet tid w w' \<Longrightarrow> quiet tid w' w'' \<Longrightarrow> quiet tid w w''"
  unfolding quiet_def by (cases w; cases w'; cases w'') auto

lemma quiet_reenable: "reenable_sysfail tid w = Inr w' \<Longrightarrow> quiet tid w w'"
  by (auto simp: reenable_sysfail_def rearm_def quiet_set_on split: option.splits if_splits)

text \<open>What sending the signal does and which calls it makes.\<close>

lemma send_rearm_Inr:
  assumes "send_rearm env tid w tr = (Inr w', tr')"
  shows "quiet tid w w' \<and>
    (\<exists>more. tr' = tr @ [Libc Getpid, Libc Getuid, Queue tid SIG_REARM] @ more \<and> more \<in> {[], [Libc Gettid]})"
  using assms
  by (auto simp: send_rearm_def Let_def send_signal_def rbind_Inr_conv guard_def quiet_reenable
      split: sum.splits if_splits prod.splits)

definition same_but_rax :: "gregs \<Rightarrow> gregs \<Rightarrow> bool" where
  "same_but_rax ctx ctx' = (\<forall>r. r \<noteq> REG_RAX \<longrightarrow> ctx' r = ctx r)"

text \<open>The library makes no calls of its own for a call that may be injected.\<close>

lemma own_continue: "continue_syscall krn ctx tr = (r, tr') \<Longrightarrow> own_calls tr' = own_calls tr"
  by (auto simp: continue_syscall_eq split: option.splits)

lemma own_delay: "delay_phase rt ou g tr = (r, g', tr') \<Longrightarrow> own_calls tr' = own_calls tr"
  by (auto simp: delay_phase_def sleep_def p_dist_Fin case_prod_beta Let_def split: if_splits)

lemma own_finish: "finish_call krn ctx d e tr = (r, tr') \<Longrightarrow> own_calls tr' = own_calls tr"
  by (auto simp: finish_call_def sleep_def own_continue split: prod.splits sum.splits if_splits)

lemma own_fail_maybe: "fail_maybe rt plan ctx eng tr = (r, eng', tr') \<Longrightarrow> own_calls tr' = own_calls tr"
  by (auto simp: fail_maybe_def Let_def own_continue dest!: own_delay own_finish
      split: option.splits if_splits prod.splits sum.splits decision.splits)

lemma fail_maybe_effect:
  assumes "rt_ok rt" "fail_maybe rt plan ctx eng tr = (Inr ctx', eng', tr')"
  shows "\<exists>effs. tr' = tr @ effs \<and> length (sys_calls effs) \<le> 1 \<and> own_calls effs = [] \<and> same_but_rax ctx ctx'"
proof -
  have "\<exists>effs. tr' = tr @ effs \<and> length (sys_calls effs) \<le> 1 \<and> same_but_rax ctx ctx'"
  proof (cases "skips plan ctx")
    case True
    with assms(2) have "fst (continue_syscall (rt_krn rt) ctx tr) = Inr ctx'" "tr' = tr @ [Sys (reissued ctx)]"
      by (auto simp: fail_maybe_skips)
    with continue_syscall_Inr show ?thesis by (fastforce simp: same_but_rax_def)
  next
    case False
    then obtain ou where ou: "tab_find (ap_outcomes plan) (to_int (ctx REG_RAX)) = Some ou" "eligible ou ctx"
      by (auto simp: skips_def split: option.splits)
    from fail_maybe_call [OF assms(1) ou assms(2)] show ?thesis
      by (auto simp: call_effect_def same_but_rax_def with_error_def)
  qed
  with own_fail_maybe [OF assms(2)] show ?thesis by auto
qed

text \<open>Returning from a call that blocks \<open>SIGSYS\<close>, and from any other.\<close>

lemma handle_masks_Inr:
  assumes "w_global w" "masks_sigsys mem ctx"
    and "handle_sigsys rt env mem tid ctx w eng tr = (Inr (ctx', w'), eng', tr')"
  shows "quiet tid w w' \<and> same_but_rax ctx ctx' \<and> (\<exists>more \<in> {[], [Libc Gettid]}. tr' = tr @
    [Libc Gettid, Sys (reissued ctx), Libc Getpid, Libc Getuid, Queue tid SIG_REARM] @ more)"
proof -
  obtain w1 where w1: "disarm tid w = Inr w1"
    using assms by (auto simp: handle_sigsys_def masks_sigsys_def Let_def split: sum.splits)
  from assms w1 have s: "send_rearm env tid w1 (tr @ [Libc Gettid, Sys (reissued ctx)]) = (Inr w', tr')"
      "fst (continue_syscall (rt_krn rt) ctx (tr @ [Libc Gettid])) = Inr ctx'"
    by (auto simp: handle_sigsys_def masks_sigsys_def Let_def continue_syscall_eq rbind_Inr_conv
        split: option.splits prod.splits)
  have "quiet tid w w'" using quiet_trans [OF quiet_disarm [OF w1]] send_rearm_Inr [OF s(1)] by blast
  with send_rearm_Inr [OF s(1)] continue_syscall_Inr [OF s(2)] show ?thesis by (auto simp: same_but_rax_def)
qed

lemma handle_others_Inr:
  assumes "rt_ok rt" "\<not> (w_global w \<and> masks_sigsys mem ctx)"
    and "handle_sigsys rt env mem tid ctx w eng tr = (Inr (ctx', w'), eng', tr')"
  shows "w' = w \<and> same_but_rax ctx ctx' \<and> (\<exists>effs. tr' = tr @ effs \<and> length (sys_calls effs) \<le> 1 \<and> own_calls effs = [])"
proof -
  consider (inject) "w_global w" "ctx REG_RAX \<notin> {SYS_rt_sigprocmask, SYS_rt_sigreturn, SYS_exit}"
    | (plain) "\<not> w_global w \<and> ctx REG_RAX \<noteq> SYS_rt_sigreturn \<or> ctx REG_RAX = SYS_exit"
    | (ret) "ctx REG_RAX = SYS_rt_sigreturn"
    | (drop) "w_global w" "ctx REG_RAX = SYS_rt_sigprocmask" "\<not> masks_sigsys mem ctx"
    using assms(2) by auto
  then show ?thesis
  proof cases
    case inject
    with assms(3) have f: "w' = w" "fail_maybe rt (w_plan w) ctx eng tr = (Inr ctx', eng', tr')"
      by (auto simp: handle_injects rbind_Inr_conv split: prod.splits)
    with fail_maybe_effect [OF assms(1) f(2)] show ?thesis by blast
  next
    case plain
    have "handle_sigsys rt env mem tid ctx w eng tr =
        (rbind (fst (continue_syscall (rt_krn rt) ctx tr)) (\<lambda>ctx. Inr (ctx, w)), eng, tr @ [Sys (reissued ctx)])"
      by (rule handle_plain) (rule plain)
    with assms(3) show ?thesis by (auto simp: rbind_Inr_conv same_but_rax_def dest!: continue_syscall_Inr)
  next
    case ret
    with assms(3) have "w' = w \<and> ctx' = ctx \<and> (\<exists>q. tr' = tr @ [Sys q])"
      by (auto simp: handle_sigsys_def sys_numbers Let_def set_rsp_and_exec_syscall_def exec_syscall_def
          split: option.splits)
    then show ?thesis by (auto simp: same_but_rax_def)
  next
    case drop
    with assms(3) show ?thesis by (auto simp: handle_drops same_but_rax_def)
  qed
qed

section \<open>Properties\<close>



text \<open>
  The return from a signal handler of the program is never injected, with or without a session:
  the kernel gets the call with the stack pointer of the interrupted program, which is where the
  frame to restore is.
\<close>

lemma sigreturn_keeps_stack:
  assumes "ctx REG_RAX = SYS_rt_sigreturn"
  shows "\<exists>r. handle_sigsys rt env mem tid ctx w eng tr =
    (r, eng, tr @ [Sys ((request_of ctx)\<lparr>k_rsp := Some (ctx REG_RSP)\<rparr>)])"
proof -
  have "to_long (to_int 15) = 15" using fits_small(2) by (simp add: fits_int_def)
  with assms show ?thesis
    by (auto simp: handle_sigsys_def sys_numbers Let_def set_rsp_and_exec_syscall_def exec_syscall_def
        request_of_def split: option.splits)
qed

text \<open>
  A thread's \<open>exit\<close> is never failed nor delayed, whatever the plan says about it: the call
  is made, once, with the program's arguments, and the session and the random engine are untouched.
\<close>

lemma exit_never_injected:
  assumes "ctx REG_RAX = SYS_exit"
  shows "\<exists>r. handle_sigsys rt env mem tid ctx w eng tr = (r, eng, tr @ [Sys (request_of ctx)]) \<and>
    (\<forall>a. rt_krn rt tr (request_of ctx) = Some a \<longrightarrow> r = Inr (ctx(REG_RAX := a), w))"
proof -
  have "reissued ctx = request_of ctx"
    by (rule reissued_fits) (simp add: assms sys_numbers fits_small)
  then show ?thesis using handle_plain [of w ctx rt env mem tid eng tr] assms
    by (auto simp: continue_syscall_eq)
qed

text \<open>
  C34. A change of the signal mask that does not block \<open>SIGSYS\<close>, because the set does not have it or
  because the call unblocks, is not made at all: no system call happens, and the program continues
  with the number of the call, 14, as its result.
\<close>

theorem sigprocmask_dropped:
  assumes "w_global w" "ctx REG_RAX = SYS_rt_sigprocmask"
    and "sigismember mem (ctx REG_RSI) SIGSYS = 0 \<or> ctx REG_RDI = SIG_UNBLOCK"
  shows "\<exists>ctx'. handle_sigsys rt env mem tid ctx w eng tr = (Inr (ctx', w), eng, tr) \<and> ctx' REG_RAX = 14"
proof (intro exI conjI)
  show "handle_sigsys rt env mem tid ctx w eng tr = (Inr (ctx, w), eng, tr)"
    by (rule handle_drops) (use assms in \<open>auto simp: masks_sigsys_def sys_numbers\<close>)
  show "ctx REG_RAX = 14" using assms(2) by (simp add: sys_numbers)
qed

theorem sigprocmask_dropped_witness:
  "\<exists>ctx'. handle_sigsys (demo_rt 0) demo_env (\<lambda>_. 0) 1
      (demo_regs(REG_RAX := 14, REG_RDI := 0, REG_RSI := 0x1000)) demo_world None [] =
    (Inr (ctx', demo_world), None, []) \<and> ctx' REG_RAX = 14"
  by (rule sigprocmask_dropped)
    (simp_all add: sys_numbers demo_world_def sigismember_def read64_const)

text \<open>
  A tracked thread that blocks \<open>SIGSYS\<close> is disarmed first: the call is made with the program's
  arguments, all calls of the thread pass the dispatcher while the rearming signal is held back by
  the mask, and when that signal is delivered the session is as it was before.
\<close>

lemma masked_section_disarms:
  assumes "w_global w" "armed w tid" "tab_wf (w_thds w)" "masks_sigsys mem ctx"
    and "rt_krn rt (tr @ [Libc Gettid]) (request_of ctx) = Some a"
    and "e_tgsig env tid SIG_REARM = 0" "\<not> e_runs env tid SIG_REARM"
  shows "\<exists>w1. handle_sigsys rt env mem tid ctx w eng tr =
      (Inr (ctx(REG_RAX := a), w1), eng,
       tr @ [Libc Gettid, Sys (request_of ctx), Libc Getpid, Libc Getuid, Queue tid SIG_REARM]) \<and>
    \<not> armed w1 tid \<and> reenable_sysfail tid w1 = Inr w"
proof -
  have req: "reissued ctx = request_of ctx"
    by (rule reissued_fits) (use assms(4) in \<open>simp add: masks_sigsys_def sys_numbers fits_small\<close>)
  obtain w1 where w1: "disarm tid w = Inr w1" "\<not> armed w1 tid" "w_global w1" "rearm tid w1 = Inr w"
    using disarm_armed [OF assms(2,3)] assms(1) by auto
  have "continue_syscall (rt_krn rt) ctx (tr @ [Libc Gettid]) =
      (Inr (ctx(REG_RAX := a)), tr @ [Libc Gettid, Sys (request_of ctx)])"
    using assms(5) by (simp add: continue_syscall_eq req)
  from handle_masks [OF assms(1,4) w1(1) this] w1(2-4) assms(6,7) show ?thesis
    by (simp add: send_rearm_def send_signal_0 reenable_sysfail_def)
qed

end
