(* ===== verification/Masked_Removal.thy ===== *)
theory Masked_Removal
  imports Sigsys
begin

text \<open>
  Removing a thread that blocks its signals meanwhile. \<open>thd_disable\<close> keeps the accessor of the
  thread's entry, which the documentation of the table says is a lock, while it waits for the thread's handler; the handler of an
  intercepted \<open>rt_sigprocmask\<close> (\<open>disarm\<close>) and the handler of \<open>SIG_REARM\<close> (\<open>rearm\<close>) ask for the
  same accessor; and no handler of the library blocks any signal (theory \<open>Signals\<close>), so handlers
  nest. The remover and the thread, with its pending signals and its stack of handlers, take their
  steps in any order.
\<close>

section \<open>States\<close>

text \<open>The remover, \<open>thd_disable\<close>: in front of the look-up, the first acquire, the send, the second
  acquire, the release, the erase, or done.\<close>

datatype rpc = R_Find | R_Acq1 | R_Send | R_Acq2 | R_Rel | R_Erase | R_Done

text \<open>
  The handlers of the thread: \<open>disable_sysfail\<close> in front of \<open>prctl\<close> and of the release,
  \<open>reenable_sysfail\<close>, and \<open>handle_sigsys\<close> for a call that blocks \<open>SIGSYS\<close> in front of \<open>disarm\<close>, of
  the call and of the rearming signal.
\<close>

datatype frame = F_Off | F_Rel | F_Rearm | F_Disarm | F_Mask | F_Send

text \<open>
  \<open>mk_held\<close>: the remover has the accessor; \<open>mk_ctl\<close> and \<open>mk_rearm\<close>: \<open>SIG_DISABLE\<close> and \<open>SIG_REARM\<close>
  are pending; \<open>mk_blocked\<close>: the thread blocks its signals; \<open>mk_stack\<close>: its handlers, the running one
  first; \<open>mk_abort\<close>: the assertion in \<open>disarm\<close> has failed.
\<close>

record mk =
  mk_w :: world
  mk_r :: rpc
  mk_held :: bool
  mk_ctl :: bool
  mk_rearm :: bool
  mk_blocked :: bool
  mk_stack :: "frame list"
  mk_abort :: bool

section \<open>Steps\<close>

text \<open>The remover.\<close>

inductive rstep :: "pid \<Rightarrow> mk \<Rightarrow> mk \<Rightarrow> bool" for tid where
  r_none: "mk_r s = R_Find \<Longrightarrow> tab_find (w_thds (mk_w s)) tid = None \<Longrightarrow> rstep tid s (s\<lparr>mk_r := R_Done\<rparr>)"
| r_find: "mk_r s = R_Find \<Longrightarrow> tab_find (w_thds (mk_w s)) tid = Some st \<Longrightarrow>
    rstep tid s (s\<lparr>mk_r := R_Acq1, mk_held := True\<rparr>)"
| r_acq1: "mk_r s = R_Acq1 \<Longrightarrow> acquire tid (mk_w s) = Inr w \<Longrightarrow> rstep tid s (s\<lparr>mk_w := w, mk_r := R_Send\<rparr>)"
| r_send: "mk_r s = R_Send \<Longrightarrow> rstep tid s (s\<lparr>mk_r := R_Acq2, mk_ctl := True\<rparr>)"
| r_acq2: "mk_r s = R_Acq2 \<Longrightarrow> acquire tid (mk_w s) = Inr w \<Longrightarrow> rstep tid s (s\<lparr>mk_w := w, mk_r := R_Rel\<rparr>)"
| r_rel: "mk_r s = R_Rel \<Longrightarrow> release tid (mk_w s) = Inr w \<Longrightarrow> rstep tid s (s\<lparr>mk_w := w, mk_r := R_Erase\<rparr>)"
| r_erase: "mk_r s = R_Erase \<Longrightarrow>
    rstep tid s (s\<lparr>mk_w := (mk_w s)\<lparr>w_thds := tab_erase tid (w_thds (mk_w s))\<rparr>, mk_r := R_Done, mk_held := False\<rparr>)"

text \<open>
  The thread: its program blocks and unblocks its signals, which is intercepted if the thread is
  armed; signals that are not blocked are delivered at any time, on top of what runs; and the running
  handler goes on. A handler that needs the accessor waits while the remover has it.
\<close>

inductive tgt_step :: "pid \<Rightarrow> mk \<Rightarrow> mk \<Rightarrow> bool" for tid where
  g_mask: "mk_stack s = [] \<Longrightarrow> \<not> mk_blocked s \<Longrightarrow> armed (mk_w s) tid \<Longrightarrow> tgt_step tid s (s\<lparr>mk_stack := [F_Disarm]\<rparr>)"
| g_mask_plain: "mk_stack s = [] \<Longrightarrow> \<not> mk_blocked s \<Longrightarrow> \<not> armed (mk_w s) tid \<Longrightarrow> tgt_step tid s (s\<lparr>mk_blocked := True\<rparr>)"
| g_unmask: "mk_stack s = [] \<Longrightarrow> mk_blocked s \<Longrightarrow> \<not> armed (mk_w s) tid \<Longrightarrow> tgt_step tid s (s\<lparr>mk_blocked := False\<rparr>)"
| g_ctl: "mk_ctl s \<Longrightarrow> \<not> mk_blocked s \<Longrightarrow> tgt_step tid s (s\<lparr>mk_ctl := False, mk_stack := F_Off # mk_stack s\<rparr>)"
| g_rearm: "mk_rearm s \<Longrightarrow> \<not> mk_blocked s \<Longrightarrow> tgt_step tid s (s\<lparr>mk_rearm := False, mk_stack := F_Rearm # mk_stack s\<rparr>)"
| g_off: "mk_stack s = F_Off # fs \<Longrightarrow>
    tgt_step tid s (s\<lparr>mk_w := (mk_w s)\<lparr>w_sud := (w_sud (mk_w s))(tid := None)\<rparr>, mk_stack := F_Rel # fs\<rparr>)"
| g_rel: "mk_stack s = F_Rel # fs \<Longrightarrow> release tid (mk_w s) = Inr w \<Longrightarrow> tgt_step tid s (s\<lparr>mk_w := w, mk_stack := fs\<rparr>)"
| g_rearmed: "mk_stack s = F_Rearm # fs \<Longrightarrow> \<not> mk_held s \<Longrightarrow> rearm tid (mk_w s) = Inr w \<Longrightarrow>
    tgt_step tid s (s\<lparr>mk_w := w, mk_stack := fs\<rparr>)"
| g_disarm: "mk_stack s = F_Disarm # fs \<Longrightarrow> \<not> mk_held s \<Longrightarrow> disarm tid (mk_w s) = Inr w \<Longrightarrow>
    tgt_step tid s (s\<lparr>mk_w := w, mk_stack := F_Mask # fs\<rparr>)"
| g_assert: "mk_stack s = F_Disarm # fs \<Longrightarrow> \<not> mk_held s \<Longrightarrow> disarm tid (mk_w s) = Inl e \<Longrightarrow>
    tgt_step tid s (s\<lparr>mk_abort := True\<rparr>)"
| g_masked: "mk_stack s = F_Mask # fs \<Longrightarrow> tgt_step tid s (s\<lparr>mk_blocked := True, mk_stack := F_Send # fs\<rparr>)"
| g_send: "mk_stack s = F_Send # fs \<Longrightarrow> tgt_step tid s (s\<lparr>mk_rearm := True, mk_stack := fs\<rparr>)"

text \<open>A failed assertion ends the process.\<close>

definition mstep :: "pid \<Rightarrow> mk \<Rightarrow> mk \<Rightarrow> bool" where
  "mstep tid s s' = (\<not> mk_abort s \<and> (rstep tid s s' \<or> tgt_step tid s s'))"

section \<open>The invariant\<close>

text \<open>The handler of the remover's signal is still to come or on the stack.\<close>

definition busy :: "mk \<Rightarrow> bool" where
  "busy s = (mk_ctl s \<or> F_Off \<in> set (mk_stack s) \<or> F_Rel \<in> set (mk_stack s))"

fun sem_of :: "rpc \<Rightarrow> bool \<Rightarrow> nat" where
  "sem_of R_Send _ = 0"
| "sem_of R_Acq2 b = (if b then 0 else 1)"
| "sem_of R_Rel _ = 0"
| "sem_of _ _ = 1"

text \<open>The stacks that occur.\<close>

definition stacks :: "frame list list" where
  "stacks = [[], [F_Disarm], [F_Mask], [F_Send], [F_Rearm]] @
     concat (map (\<lambda>x. [[x], [x, F_Disarm], [x, F_Mask], [x, F_Rearm], [F_Rearm, x]]) [F_Off, F_Rel])"

definition quiet_on :: "mk \<Rightarrow> bool" where
  "quiet_on s = (mk_rearm s \<or> F_Mask \<in> set (mk_stack s) \<or> F_Send \<in> set (mk_stack s) \<or> F_Rearm \<in> set (mk_stack s))"

definition ctl_ok :: "mk \<Rightarrow> bool" where
  "ctl_ok s = (mk_held s = (mk_r s \<notin> {R_Find, R_Done}) \<and> (busy s \<longrightarrow> mk_r s = R_Acq2) \<and>
     (mk_ctl s \<longrightarrow> F_Off \<notin> set (mk_stack s) \<and> F_Rel \<notin> set (mk_stack s)))"

definition stack_ok :: "mk \<Rightarrow> bool" where
  "stack_ok s = (mk_stack s \<in> set stacks \<and> (mk_rearm s \<longrightarrow> mk_stack s \<in> {[], [F_Off], [F_Rel]}) \<and>
     (mk_blocked s \<longrightarrow> mk_stack s = [] \<or> mk_stack s = [F_Send]) \<and> (mk_stack s = [F_Send] \<longrightarrow> mk_blocked s))"

definition entry_ok :: "pid \<Rightarrow> mk \<Rightarrow> bool" where
  "entry_ok tid s = (case tab_find (w_thds (mk_w s)) tid of
     None \<Rightarrow> mk_r s = R_Done
   | Some st \<Rightarrow> mk_r s \<noteq> R_Done \<and> ts_sem st = sem_of (mk_r s) (busy s) \<and> (quiet_on s \<longrightarrow> ts_on st = Allow))"

definition mk_ok :: "pid \<Rightarrow> mk \<Rightarrow> bool" where
  "mk_ok tid s = (ctl_ok s \<and> stack_ok s \<and> entry_ok tid s \<and> (mk_blocked s \<longrightarrow> \<not> armed (mk_w s) tid))"

lemma acquire_Inr:
  "acquire tid w = Inr w' \<longleftrightarrow> (\<exists>st. tab_find (w_thds w) tid = Some st \<and> 0 < ts_sem st \<and>
     w' = w\<lparr>w_thds := tab_update tid (st\<lparr>ts_sem := ts_sem st - 1\<rparr>) (w_thds w)\<rparr>)"
  by (auto simp: ptr_defs thd_mod_def sem_defs rbind_Inr_conv split: option.splits)

lemma sem_release_0: "sem_release n = Inr m \<longleftrightarrow> n = 0 \<and> m = 1"
  by (auto simp: sem_release_def)

lemma release_Inr:
  "release tid w = Inr w' \<longleftrightarrow> (\<exists>st. tab_find (w_thds w) tid = Some st \<and> ts_sem st = 0 \<and>
     w' = w\<lparr>w_thds := tab_update tid (st\<lparr>ts_sem := 1\<rparr>) (w_thds w)\<rparr>)"
  by (auto simp: release_def thd_mod_def sem_release_0 rbind_Inr_conv split: option.splits)

lemma disarm_Inr:
  "disarm tid w = Inr w' \<longleftrightarrow> (\<exists>st. tab_find (w_thds w) tid = Some st \<and>
     w' = w\<lparr>w_thds := tab_update tid (st\<lparr>ts_on := Allow\<rparr>) (w_thds w)\<rparr>)"
  by (auto simp: disarm_def set_on_def thd_mod_def split: option.splits)

lemma rearm_Inr:
  "rearm tid w = Inr w' \<longleftrightarrow> (case tab_find (w_thds w) tid of None \<Rightarrow> w' = w
     | Some st \<Rightarrow> w' = w\<lparr>w_thds := tab_update tid (st\<lparr>ts_on := Block\<rparr>) (w_thds w)\<rparr>)"
  by (auto simp: rearm_def set_on_def thd_mod_def split: option.splits)

lemmas world_ops = acquire_Inr release_Inr disarm_Inr rearm_Inr

lemma in_stacks:
  "fs \<in> set stacks \<longleftrightarrow> fs \<in> {[], [F_Disarm], [F_Mask], [F_Send], [F_Rearm]} \<or>
     (\<exists>x \<in> {F_Off, F_Rel}. fs \<in> {[x], [x, F_Disarm], [x, F_Mask], [x, F_Rearm], [F_Rearm, x]})"
  by (auto simp: stacks_def)

lemma r_ctl: "rstep tid s s' \<Longrightarrow> mk_ok tid s \<Longrightarrow> ctl_ok s'"
  by (cases rule: rstep.cases, assumption)
    (auto simp: mk_ok_def ctl_ok_def busy_def acquire_Inr entry_ok_def split: option.splits)

lemma r_entry: "rstep tid s s' \<Longrightarrow> mk_ok tid s \<Longrightarrow> entry_ok tid s'"
  by (cases rule: rstep.cases, assumption)
    (auto simp: mk_ok_def ctl_ok_def entry_ok_def busy_def quiet_on_def world_ops split: option.splits)

lemma r_frame:
  "rstep tid s s' \<Longrightarrow> mk_stack s' = mk_stack s \<and> mk_rearm s' = mk_rearm s \<and> mk_blocked s' = mk_blocked s \<and>
     (armed (mk_w s') tid \<longrightarrow> armed (mk_w s) tid)"
  by (cases rule: rstep.cases, assumption) (auto simp: armed_def acquire_Inr release_Inr)

lemma r_mk_ok: "rstep tid s s' \<Longrightarrow> mk_ok tid s \<Longrightarrow> mk_ok tid s'"
  using r_ctl [of tid s s'] r_entry [of tid s s'] r_frame [of tid s s'] by (auto simp: mk_ok_def stack_ok_def)

lemma g_ctl_ok: "tgt_step tid s s' \<Longrightarrow> mk_ok tid s \<Longrightarrow> ctl_ok s'"
  by (cases rule: tgt_step.cases, assumption) (auto simp: mk_ok_def ctl_ok_def busy_def)

lemma armed_not_quiet: "entry_ok tid s \<Longrightarrow> armed (mk_w s) tid \<Longrightarrow> \<not> quiet_on s"
  by (auto simp: entry_ok_def armed_def)

text \<open>The stacks by their running handler.\<close>

lemma stack_cases:
  assumes "fs \<in> set stacks"
  shows "fs = f # r \<Longrightarrow> f \<in> {F_Disarm, F_Mask, F_Send} \<Longrightarrow> r = []"
    and "fs = f # r \<Longrightarrow> f \<in> {F_Off, F_Rel} \<Longrightarrow> r \<in> {[], [F_Disarm], [F_Mask], [F_Rearm]}"
    and "fs = F_Rearm # r \<Longrightarrow> r \<in> {[], [F_Off], [F_Rel]}"
    and "F_Off \<notin> set fs \<Longrightarrow> F_Rel \<notin> set fs \<Longrightarrow> fs \<in> {[], [F_Disarm], [F_Mask], [F_Send], [F_Rearm]}"
  using assms by (auto simp: in_stacks)

lemma g_stack_ok:
  assumes "tgt_step tid s s'" "mk_ok tid s"
  shows "stack_ok s'"
proof -
  have ok: "ctl_ok s" "entry_ok tid s" and fs: "mk_stack s \<in> set stacks"
    and re: "mk_rearm s \<Longrightarrow> mk_stack s \<in> {[], [F_Off], [F_Rel]}"
    and bl: "mk_blocked s \<Longrightarrow> mk_stack s = [] \<or> mk_stack s = [F_Send]" and se: "mk_stack s = [F_Send] \<Longrightarrow> mk_blocked s"
    using assms(2) by (auto simp: mk_ok_def stack_ok_def)
  from assms(1) show ?thesis
  proof cases
    case g_mask
    then show ?thesis using armed_not_quiet [OF ok(2)] by (simp add: stack_ok_def in_stacks quiet_on_def)
  next
    case g_mask_plain
    then show ?thesis using re by (simp add: stack_ok_def in_stacks)
  next
    case g_unmask
    then show ?thesis using re by (simp add: stack_ok_def in_stacks)
  next
    case g_ctl
    then have "mk_stack s \<in> {[], [F_Disarm], [F_Mask], [F_Send], [F_Rearm]}" using stack_cases(4) [OF fs] ok(1) by (simp add: ctl_ok_def)
    moreover have "mk_stack s \<noteq> [F_Send]" using se g_ctl by blast
    ultimately show ?thesis using g_ctl re by (auto simp: stack_ok_def in_stacks)
  next
    case g_rearm
    then show ?thesis using re by (auto simp: stack_ok_def in_stacks)
  next
    case (g_off r)
    then have "r \<in> {[], [F_Disarm], [F_Mask], [F_Rearm]}" using stack_cases(2) [OF fs] by simp
    with g_off show ?thesis using re bl by (auto simp: stack_ok_def in_stacks)
  next
    case (g_rel r w)
    then have "r \<in> {[], [F_Disarm], [F_Mask], [F_Rearm]}" using stack_cases(2) [OF fs] by simp
    with g_rel show ?thesis using re bl by (auto simp: stack_ok_def in_stacks)
  next
    case (g_rearmed r w)
    then have "r \<in> {[], [F_Off], [F_Rel]}" using stack_cases(3) [OF fs] by simp
    with g_rearmed show ?thesis using re bl by (auto simp: stack_ok_def in_stacks)
  next
    case (g_disarm r w)
    then have "r = []" using stack_cases(1) [OF fs] by simp
    with g_disarm show ?thesis using re bl by (auto simp: stack_ok_def in_stacks)
  next
    case (g_assert r e)
    then show ?thesis using assms(2) by (simp add: mk_ok_def stack_ok_def)
  next
    case (g_masked r)
    then have "r = []" using stack_cases(1) [OF fs] by simp
    with g_masked show ?thesis using re by (auto simp: stack_ok_def in_stacks)
  next
    case (g_send r)
    then have "r = []" using stack_cases(1) [OF fs] by simp
    with g_send show ?thesis by (auto simp: stack_ok_def in_stacks)
  qed
qed

lemma g_entry:
  assumes "tgt_step tid s s'" "mk_ok tid s"
  shows "entry_ok tid s'"
proof -
  have c: "ctl_ok s" and e: "entry_ok tid s" and fs: "mk_stack s \<in> set stacks"
    and re: "mk_rearm s \<Longrightarrow> mk_stack s \<in> {[], [F_Off], [F_Rel]}"
    using assms(2) by (auto simp: mk_ok_def stack_ok_def)
  from assms(1) show ?thesis
  proof cases
    case (g_rel r w)
    then have r: "r \<in> {[], [F_Disarm], [F_Mask], [F_Rearm]}" using stack_cases(2) [OF fs] by simp
    have "\<not> mk_ctl s" "mk_r s = R_Acq2" using c g_rel by (auto simp: ctl_ok_def busy_def)
    with g_rel r e show ?thesis by (auto simp: entry_ok_def release_Inr busy_def quiet_on_def)
  next
    case (g_rearmed r w)
    then have r: "r \<in> {[], [F_Off], [F_Rel]}" using stack_cases(3) [OF fs] by simp
    with g_rearmed re e show ?thesis
      by (auto simp: entry_ok_def rearm_Inr busy_def quiet_on_def split: option.splits)
  next
    case (g_disarm r w)
    then have "r = []" using stack_cases(1) [OF fs] by simp
    with g_disarm e show ?thesis by (auto simp: entry_ok_def disarm_Inr busy_def quiet_on_def)
  next
    case (g_send r)
    then have "r = []" using stack_cases(1) [OF fs] by simp
    with g_send e show ?thesis by (auto simp: entry_ok_def busy_def quiet_on_def split: option.splits)
  next
    case (g_masked r)
    then have "r = []" using stack_cases(1) [OF fs] by simp
    with g_masked e show ?thesis by (auto simp: entry_ok_def busy_def quiet_on_def split: option.splits)
  next
    case g_mask
    then show ?thesis using e armed_not_quiet [OF e] by (auto simp: entry_ok_def busy_def quiet_on_def split: option.splits)
  qed (use e in \<open>auto simp: entry_ok_def busy_def quiet_on_def split: option.splits\<close>)
qed

lemma g_blocked:
  assumes "tgt_step tid s s'" "mk_ok tid s" "mk_blocked s'"
  shows "\<not> armed (mk_w s') tid"
proof -
  have e: "entry_ok tid s" and b: "mk_blocked s \<longrightarrow> \<not> armed (mk_w s) tid \<and> (mk_stack s = [] \<or> mk_stack s = [F_Send])"
    using assms(2) by (auto simp: mk_ok_def stack_ok_def)
  from assms(1) show ?thesis
  proof cases
    case (g_masked r)
    then have "quiet_on s" by (simp add: quiet_on_def)
    with armed_not_quiet [OF e] g_masked show ?thesis by auto
  qed (use b assms(3) in \<open>auto simp: armed_def\<close>)
qed

lemma mk_ok_step: "mk_ok tid s \<Longrightarrow> mstep tid s s' \<Longrightarrow> mk_ok tid s'"
  using r_mk_ok [of tid s s'] g_ctl_ok [of tid s s'] g_stack_ok [of tid s s'] g_entry [of tid s s'] g_blocked [of tid s s']
  by (auto simp: mstep_def mk_ok_def)

interpretation masked: step_inv "mstep tid" "mk_ok tid"
  for tid
  by unfold_locales (rule mk_ok_step)

text \<open>The remover is about to begin, and the thread is armed and runs its program.\<close>

definition mk_init :: "world \<Rightarrow> mk" where
  "mk_init w = \<lparr>mk_w = w, mk_r = R_Find, mk_held = False, mk_ctl = False, mk_rearm = False, mk_blocked = False,
     mk_stack = [], mk_abort = False\<rparr>"

lemma mk_init_ok: "tab_find (w_thds w) tid = Some st \<Longrightarrow> ts_sem st = 1 \<Longrightarrow> mk_ok tid (mk_init w)"
  by (simp add: mk_ok_def mk_init_def ctl_ok_def stack_ok_def entry_ok_def in_stacks busy_def quiet_on_def)

section \<open>Deadlock\<close>

text \<open>
  The remover waits, with the accessor, for the handler of its signal, which the handler of
  \<open>SIG_REARM\<close> has interrupted, which waits for the accessor.
\<close>

definition deadlock :: "mk \<Rightarrow> bool" where
  "deadlock s = (mk_r s = R_Acq2 \<and> (mk_stack s = [F_Rearm, F_Off] \<or> mk_stack s = [F_Rearm, F_Rel]))"

lemma r_moves:
  assumes "mk_ok tid s" "mk_r s \<noteq> R_Done" "mk_r s = R_Acq2 \<longrightarrow> \<not> busy s"
  shows "\<exists>s'. rstep tid s s'"
proof -
  obtain st where st: "tab_find (w_thds (mk_w s)) tid = Some st" "ts_sem st = sem_of (mk_r s) (busy s)"
    using assms(1,2) by (auto simp: mk_ok_def entry_ok_def split: option.splits)
  show ?thesis
  proof (cases "mk_r s")
    case R_Find
    with st(1) show ?thesis by (blast intro: r_find)
  next
    case R_Acq1
    with st show ?thesis by (intro exI) (rule r_acq1, assumption, simp add: acquire_Inr)
  next
    case R_Send
    then show ?thesis by (blast intro: r_send)
  next
    case R_Acq2
    with st assms(3) show ?thesis by (intro exI) (rule r_acq2, assumption, simp add: acquire_Inr)
  next
    case R_Rel
    with st show ?thesis by (intro exI) (rule r_rel, assumption, simp add: release_Inr)
  next
    case R_Erase
    then show ?thesis by (blast intro: r_erase)
  qed (use assms(2) in simp)
qed

text \<open>The running handler goes on unless it needs the accessor and the remover has it.\<close>

lemma g_moves:
  assumes "mk_ok tid s" "mk_held s \<longrightarrow> (\<forall>fs. mk_stack s \<noteq> F_Rearm # fs \<and> mk_stack s \<noteq> F_Disarm # fs)"
  shows "\<exists>s'. tgt_step tid s s'"
proof (cases "mk_stack s")
  case Nil
  then show ?thesis using assms(1) g_mask [of s tid] g_mask_plain [of s tid] g_unmask [of s tid]
    by (cases "mk_blocked s"; cases "armed (mk_w s) tid") (auto simp: mk_ok_def)
next
  case (Cons f fs)
  show ?thesis
  proof (cases f)
    case F_Rel
    then have b: "busy s" "mk_r s = R_Acq2" using Cons assms(1) by (auto simp: mk_ok_def ctl_ok_def busy_def)
    then obtain st where "tab_find (w_thds (mk_w s)) tid = Some st" "ts_sem st = 0"
      using assms(1) by (auto simp: mk_ok_def entry_ok_def split: option.splits)
    then obtain w where "release tid (mk_w s) = Inr w" by (simp add: release_Inr)
    with g_rel Cons F_Rel show ?thesis by blast
  next
    case F_Rearm
    moreover obtain w where "rearm tid (mk_w s) = Inr w" by (cases "tab_find (w_thds (mk_w s)) tid") (simp_all add: rearm_Inr)
    ultimately show ?thesis using g_rearmed Cons assms(2) by blast
  next
    case F_Disarm
    then show ?thesis using g_disarm [of s fs tid] g_assert [of s fs tid] Cons assms(2) by (cases "disarm tid (mk_w s)") blast+
  qed (use Cons g_off g_masked g_send in blast)+
qed

lemma stuck_iff:
  assumes "mk_ok tid s"
  shows "(\<forall>s'. \<not> (rstep tid s s' \<or> tgt_step tid s s')) \<longleftrightarrow> deadlock s"
proof
  assume stuck: "\<forall>s'. \<not> (rstep tid s s' \<or> tgt_step tid s s')"
  have c: "ctl_ok s" and k: "stack_ok s" using assms by (simp_all add: mk_ok_def)
  from g_moves [OF assms] stuck obtain f fs where
    held: "mk_held s" and top: "mk_stack s = f # fs" "f = F_Rearm \<or> f = F_Disarm" by blast
  then have "mk_r s \<noteq> R_Done" using c by (auto simp: ctl_ok_def)
  then have r: "mk_r s = R_Acq2" "busy s" using r_moves [OF assms] stuck by blast+
  have "mk_blocked s \<Longrightarrow> mk_stack s = [] \<or> mk_stack s = [F_Send]" using k by (simp add: stack_ok_def)
  then have "\<not> mk_blocked s" using top by auto
  then have "\<not> mk_ctl s" using stuck g_ctl [of s tid] by blast
  with r(2) have x: "F_Off \<in> set (mk_stack s) \<or> F_Rel \<in> set (mk_stack s)" by (simp add: busy_def)
  have "mk_stack s \<in> set stacks" using k by (simp add: stack_ok_def)
  with top x r(1) show "deadlock s" by (auto simp: deadlock_def in_stacks)
next
  assume d: "deadlock s"
  then have "busy s" "mk_held s" "\<not> mk_ctl s" "\<not> mk_rearm s"
    using assms by (auto simp: deadlock_def mk_ok_def ctl_ok_def stack_ok_def busy_def)
  moreover have "acquire tid (mk_w s) \<noteq> Inr w" for w
    using assms d \<open>busy s\<close> by (auto simp: acquire_Inr deadlock_def mk_ok_def entry_ok_def)
  moreover have r: "mk_r s = R_Acq2" and top: "\<exists>fs. mk_stack s = F_Rearm # fs" using d by (auto simp: deadlock_def)
  ultimately have facts: "mk_held s" "\<not> mk_ctl s" "\<not> mk_rearm s" "\<And>w. acquire tid (mk_w s) \<noteq> Inr w" by blast+
  have "\<not> rstep tid s s'" for s'
  proof
    assume "rstep tid s s'"
    then show False by cases (use r facts(4) in auto)
  qed
  moreover have "\<not> tgt_step tid s s'" for s'
  proof
    assume "tgt_step tid s s'"
    then show False by cases (use top facts(1-3) in auto)
  qed
  ultimately show "\<forall>s'. \<not> (rstep tid s s' \<or> tgt_step tid s s')" by blast
qed

section \<open>Two runs\<close>

lemma by_thread: "tgt_step tid s s' \<Longrightarrow> \<not> mk_abort s \<Longrightarrow> (mstep tid)\<^sup>*\<^sup>* s s'"
  and by_remover: "rstep tid s s' \<Longrightarrow> \<not> mk_abort s \<Longrightarrow> (mstep tid)\<^sup>*\<^sup>* s s'"
  by (auto simp: mstep_def)

text \<open>The remover up to its second wait.\<close>

lemma remover_waits:
  assumes "mk_r s = R_Find" "\<not> mk_abort s" "tab_find (w_thds (mk_w s)) tid = Some st" "ts_sem st = 1"
  shows "\<exists>s'. (mstep tid)\<^sup>*\<^sup>* s s' \<and> mk_r s' = R_Acq2 \<and> mk_held s' \<and> mk_ctl s' \<and> \<not> mk_abort s' \<and>
    mk_rearm s' = mk_rearm s \<and> mk_blocked s' = mk_blocked s \<and> mk_stack s' = mk_stack s \<and>
    tab_find (w_thds (mk_w s')) tid = Some (st\<lparr>ts_sem := 0\<rparr>)"
proof -
  let ?w = "(mk_w s)\<lparr>w_thds := tab_update tid (st\<lparr>ts_sem := 0\<rparr>) (w_thds (mk_w s))\<rparr>"
  let ?s1 = "s\<lparr>mk_r := R_Acq1, mk_held := True\<rparr>"
  let ?s2 = "?s1\<lparr>mk_w := ?w, mk_r := R_Send\<rparr>"
  have "(mstep tid)\<^sup>*\<^sup>* s ?s1" by (rule by_remover [OF r_find [OF assms(1,3)] assms(2)])
  also have "(mstep tid)\<^sup>*\<^sup>* ?s1 ?s2"
    by (rule by_remover, rule r_acq1) (use assms(2-4) in \<open>simp_all add: acquire_Inr\<close>)
  also have "(mstep tid)\<^sup>*\<^sup>* ?s2 (?s2\<lparr>mk_r := R_Acq2, mk_ctl := True\<rparr>)"
    by (rule by_remover, rule r_send) (use assms(2) in simp_all)
  finally show ?thesis using assms(2,3) by (intro exI [of _ "?s2\<lparr>mk_r := R_Acq2, mk_ctl := True\<rparr>"]) simp
qed

text \<open>The thread from a call that blocks its signals to the pending rearming signal.\<close>

lemma thread_masks:
  assumes "mk_stack s = []" "\<not> mk_blocked s" "\<not> mk_abort s" "\<not> mk_held s"
    and "armed (mk_w s) tid" "tab_find (w_thds (mk_w s)) tid = Some st"
  shows "\<exists>s'. (mstep tid)\<^sup>*\<^sup>* s s' \<and> mk_rearm s' \<and> mk_blocked s' \<and> mk_stack s' = [] \<and> \<not> mk_abort s' \<and> mk_r s' = mk_r s \<and>
    tab_find (w_thds (mk_w s')) tid = Some (st\<lparr>ts_on := Allow\<rparr>)"
proof -
  let ?w = "(mk_w s)\<lparr>w_thds := tab_update tid (st\<lparr>ts_on := Allow\<rparr>) (w_thds (mk_w s))\<rparr>"
  let ?s1 = "s\<lparr>mk_stack := [F_Disarm]\<rparr>"
  let ?s2 = "?s1\<lparr>mk_w := ?w, mk_stack := F_Mask # []\<rparr>"
  let ?s3 = "?s2\<lparr>mk_blocked := True, mk_stack := F_Send # []\<rparr>"
  have "(mstep tid)\<^sup>*\<^sup>* s ?s1" by (rule by_thread [OF g_mask [OF assms(1,2,5)] assms(3)])
  also have "(mstep tid)\<^sup>*\<^sup>* ?s1 ?s2" by (rule by_thread, rule g_disarm) (use assms in \<open>simp_all add: disarm_Inr\<close>)
  also have "(mstep tid)\<^sup>*\<^sup>* ?s2 ?s3" by (rule by_thread, rule g_masked) (use assms(3) in simp_all)
  also have "(mstep tid)\<^sup>*\<^sup>* ?s3 (?s3\<lparr>mk_rearm := True, mk_stack := []\<rparr>)"
    by (rule by_thread, rule g_send) (use assms(3) in simp_all)
  finally show ?thesis using assms(3,6) by (intro exI [of _ "?s3\<lparr>mk_rearm := True, mk_stack := []\<rparr>"]) simp
qed

lemma reaches_deadlock:
  assumes "armed w tid" "tab_find (w_thds w) tid = Some st" "ts_sem st = 1"
  shows "\<exists>s. (mstep tid)\<^sup>*\<^sup>* (mk_init w) s \<and> deadlock s \<and> \<not> mk_abort s"
proof -
  obtain s1 where s1: "(mstep tid)\<^sup>*\<^sup>* (mk_init w) s1" "mk_rearm s1" "mk_blocked s1" "mk_stack s1 = []" "\<not> mk_abort s1"
      "mk_r s1 = R_Find" "tab_find (w_thds (mk_w s1)) tid = Some (st\<lparr>ts_on := Allow\<rparr>)"
    using thread_masks [of "mk_init w" tid st] assms by (auto simp: mk_init_def)
  from remover_waits [OF s1(6,5,7)] s1(2-4) assms(3) obtain s2 where
    s2: "(mstep tid)\<^sup>*\<^sup>* s1 s2" "mk_r s2 = R_Acq2" "mk_ctl s2" "\<not> mk_abort s2" "mk_rearm s2" "mk_blocked s2" "mk_stack s2 = []"
      "tab_find (w_thds (mk_w s2)) tid = Some (st\<lparr>ts_on := Allow, ts_sem := 0\<rparr>)"
    by auto
  let ?s3 = "s2\<lparr>mk_blocked := False\<rparr>"
  let ?s4 = "?s3\<lparr>mk_ctl := False, mk_stack := F_Off # mk_stack ?s3\<rparr>"
  let ?s5 = "?s4\<lparr>mk_rearm := False, mk_stack := F_Rearm # mk_stack ?s4\<rparr>"
  have "\<not> armed (mk_w s2) tid" using s2(8) by (simp add: armed_def)
  then have "(mstep tid)\<^sup>*\<^sup>* s2 ?s3" by (intro by_thread g_unmask s2)
  also have "(mstep tid)\<^sup>*\<^sup>* ?s3 ?s4" by (rule by_thread, rule g_ctl) (use s2 in simp_all)
  also have "(mstep tid)\<^sup>*\<^sup>* ?s4 ?s5" by (rule by_thread, rule g_rearm) (use s2 in simp_all)
  finally have "(mstep tid)\<^sup>*\<^sup>* (mk_init w) ?s5" using s1(1) s2(1) by simp
  moreover have "deadlock ?s5 \<and> \<not> mk_abort ?s5" using s2(2,4,7) by (simp add: deadlock_def)
  ultimately show ?thesis by blast
qed

text \<open>The thread runs the handler of the remover's signal on top of what it does.\<close>

lemma thread_handles:
  assumes "mk_ctl s" "\<not> mk_blocked s" "\<not> mk_abort s" "tab_find (w_thds (mk_w s)) tid = Some st" "ts_sem st = 0"
  shows "\<exists>s'. (mstep tid)\<^sup>*\<^sup>* s s' \<and> mk_r s' = mk_r s \<and> mk_stack s' = mk_stack s \<and> \<not> mk_abort s' \<and>
    tab_find (w_thds (mk_w s')) tid = Some (st\<lparr>ts_sem := 1\<rparr>)"
proof -
  let ?s1 = "s\<lparr>mk_ctl := False, mk_stack := F_Off # mk_stack s\<rparr>"
  let ?s2 = "?s1\<lparr>mk_w := (mk_w ?s1)\<lparr>w_sud := (w_sud (mk_w ?s1))(tid := None)\<rparr>, mk_stack := F_Rel # mk_stack s\<rparr>"
  obtain w where w: "release tid (mk_w ?s2) = Inr w" "tab_find (w_thds w) tid = Some (st\<lparr>ts_sem := 1\<rparr>)"
    using assms(4,5) by (simp add: release_Inr)
  have 1: "(mstep tid)\<^sup>*\<^sup>* s ?s1" by (intro by_thread g_ctl assms)
  have 2: "(mstep tid)\<^sup>*\<^sup>* ?s1 ?s2" by (rule by_thread, rule g_off) (use assms(3) in simp_all)
  have 3: "(mstep tid)\<^sup>*\<^sup>* ?s2 (?s2\<lparr>mk_w := w, mk_stack := mk_stack s\<rparr>)"
    by (rule by_thread, rule g_rel [OF _ w(1)]) (use assms(3) in simp_all)
  show ?thesis
    using rtranclp_trans [OF 1 rtranclp_trans [OF 2 3]] assms(3) w(2) by (intro exI [of _ "?s2\<lparr>mk_w := w, mk_stack := mk_stack s\<rparr>"]) simp
qed

text \<open>The remover from its second wait to its end.\<close>

lemma remover_ends:
  assumes "mk_r s = R_Acq2" "\<not> mk_abort s" "tab_find (w_thds (mk_w s)) tid = Some st" "ts_sem st = 1"
  shows "\<exists>s'. (mstep tid)\<^sup>*\<^sup>* s s' \<and> mk_r s' = R_Done \<and> \<not> mk_held s' \<and> mk_stack s' = mk_stack s \<and> \<not> mk_abort s' \<and>
    tab_find (w_thds (mk_w s')) tid = None"
proof -
  obtain w1 where w1: "acquire tid (mk_w s) = Inr w1" "tab_find (w_thds w1) tid = Some (st\<lparr>ts_sem := 0\<rparr>)"
    using assms(3,4) by (simp add: acquire_Inr)
  obtain w2 where w2: "release tid w1 = Inr w2" using w1(2) by (simp add: release_Inr)
  let ?s1 = "s\<lparr>mk_w := w1, mk_r := R_Rel\<rparr>"
  let ?s2 = "?s1\<lparr>mk_w := w2, mk_r := R_Erase\<rparr>"
  let ?s3 = "?s2\<lparr>mk_w := (mk_w ?s2)\<lparr>w_thds := tab_erase tid (w_thds (mk_w ?s2))\<rparr>, mk_r := R_Done, mk_held := False\<rparr>"
  have "(mstep tid)\<^sup>*\<^sup>* s ?s1" by (intro by_remover r_acq2 assms w1)
  also have "(mstep tid)\<^sup>*\<^sup>* ?s1 ?s2" by (rule by_remover, rule r_rel) (use assms(2) w2 in simp_all)
  also have "(mstep tid)\<^sup>*\<^sup>* ?s2 ?s3" by (rule by_remover, rule r_erase) (use assms(2) in simp_all)
  finally show ?thesis using assms(2) by (intro exI [of _ ?s3]) simp
qed

lemma reaches_abort:
  assumes "armed w tid" "tab_find (w_thds w) tid = Some st" "ts_sem st = 1"
  shows "\<exists>s. (mstep tid)\<^sup>*\<^sup>* (mk_init w) s \<and> mk_abort s"
proof -
  let ?s0 = "(mk_init w)\<lparr>mk_stack := [F_Disarm]\<rparr>"
  have s0: "(mstep tid)\<^sup>*\<^sup>* (mk_init w) ?s0"
    by (rule by_thread, rule g_mask) (use assms(1) in \<open>simp_all add: mk_init_def\<close>)
  obtain s1 where s1: "(mstep tid)\<^sup>*\<^sup>* ?s0 s1" "mk_r s1 = R_Acq2" "mk_ctl s1" "\<not> mk_blocked s1" "\<not> mk_abort s1"
      "mk_stack s1 = [F_Disarm]" "tab_find (w_thds (mk_w s1)) tid = Some (st\<lparr>ts_sem := 0\<rparr>)"
    using remover_waits [of ?s0 tid st] assms(2,3) by (auto simp: mk_init_def)
  obtain s2 where s2: "(mstep tid)\<^sup>*\<^sup>* s1 s2" "mk_r s2 = R_Acq2" "mk_stack s2 = [F_Disarm]" "\<not> mk_abort s2"
      "tab_find (w_thds (mk_w s2)) tid = Some (st\<lparr>ts_sem := 1\<rparr>)"
    using thread_handles [OF s1(3-5,7)] s1(2,6) by auto
  obtain s3 where s3: "(mstep tid)\<^sup>*\<^sup>* s2 s3" "\<not> mk_held s3" "mk_stack s3 = [F_Disarm]" "\<not> mk_abort s3"
      "tab_find (w_thds (mk_w s3)) tid = None"
    using remover_ends [OF s2(2,4,5)] s2(3) by auto
  have "disarm tid (mk_w s3) = Inl (Assert_failed ''! a.empty()'')" using s3(5) by (simp add: disarm_def)
  from by_thread [OF g_assert [OF s3(3,2) this] s3(4)] s0 s1(1) s2(1) s3(1)
  have "(mstep tid)\<^sup>*\<^sup>* (mk_init w) (s3\<lparr>mk_abort := True\<rparr>)" by simp
  then show ?thesis by (intro exI [of _ "s3\<lparr>mk_abort := True\<rparr>"]) simp
qed

section \<open>Properties\<close>

text \<open>
  C25. Removing a thread that blocks its signals meanwhile, as libc does around the start and end of
  threads: the remover and the thread get stuck, or the assertion in \<open>disarm\<close> stops them, in these
  situations and no others. Both occur from every armed thread: the assertion fails if the thread is
  removed between the interception of its call and \<open>disarm\<close>; and if it is removed while its signals
  are blocked, the handler of \<open>SIG_REARM\<close> interrupts that of \<open>SIG_DISABLE\<close> and waits for the accessor
  which the remover keeps until the handler of \<open>SIG_DISABLE\<close> is done.
\<close>

theorem masked_removal_stuck:
  assumes "armed w tid" "tab_find (w_thds w) tid = Some st" "ts_sem st = 1"
  shows "(\<forall>s. (mstep tid)\<^sup>*\<^sup>* (mk_init w) s \<longrightarrow> ((\<forall>s'. \<not> mstep tid s s') \<longleftrightarrow> mk_abort s \<or> deadlock s)) \<and>
    (\<exists>s. (mstep tid)\<^sup>*\<^sup>* (mk_init w) s \<and> deadlock s \<and> \<not> mk_abort s) \<and>
    (\<exists>s. (mstep tid)\<^sup>*\<^sup>* (mk_init w) s \<and> mk_abort s)"
proof -
  have ok: "mk_ok tid s" if "(mstep tid)\<^sup>*\<^sup>* (mk_init w) s" for s
    by (rule masked.reach_inv [OF that mk_init_ok [OF assms(2,3)]])
  have "(\<forall>s'. \<not> mstep tid s s') \<longleftrightarrow> mk_abort s \<or> deadlock s" if "(mstep tid)\<^sup>*\<^sup>* (mk_init w) s" for s
    using stuck_iff [OF ok [OF that]] by (auto simp: mstep_def)
  with reaches_deadlock [OF assms] reaches_abort [OF assms] show ?thesis by blast
qed

theorem masked_removal_stuck_witness:
  "\<exists>s. (mstep 1)\<^sup>*\<^sup>* (mk_init (demo_world\<lparr>w_thds := [(1, \<lparr>ts_on = Block, ts_sem = 1\<rparr>)],
        w_sud := (\<lambda>_. None)(1 := Some (text_range (w_self_text demo_world)))\<rparr>)) s \<and> (\<forall>s'. \<not> mstep 1 s s') \<and> \<not> mk_abort s"
proof -
  let ?w = "demo_world\<lparr>w_thds := [(1, \<lparr>ts_on = Block, ts_sem = 1\<rparr>)],
      w_sud := (\<lambda>_. None)(1 := Some (text_range (w_self_text demo_world)))\<rparr>"
  have find: "tab_find (w_thds ?w) 1 = Some \<lparr>ts_on = Block, ts_sem = 1\<rparr>" by (simp add: tab_find_def)
  then have "armed ?w 1" by (simp add: armed_def)
  from masked_removal_stuck [OF this find] show ?thesis by auto
qed

end
