(* ===== verification/Discovery.thy ===== *)
theory Discovery
  imports Thread_Ctl
begin

text \<open>
  Thread discovery: the monitor of \<open>src/thdmon.cc\<close> with the session's \<open>thd_track\<close> as its handler,
  as \<open>ActiveSession::initialize\<close> puts them together. The theorems are instances of what the
  locale \<open>evt_handler\<close> gives for the interpretation \<open>trk\<close>.
\<close>

section \<open>Names of threads\<close>

fun dec_text :: "nat \<Rightarrow> string" where
  "dec_text n = (if n < 10 then [char_of (48 + n)] else dec_text (n div 10) @ [char_of (48 + n mod 10)])"

declare dec_text.simps [simp del]

lemma dec_digit_char [simp]: "d < 10 \<Longrightarrow> dec_digit (char_of (48 + d :: nat))"
  by (simp add: dec_digit_def)

lemma dec_value_snoc: "dec_value (ds @ [c]) = 10 * dec_value ds + (int (of_char c) - 0x30)"
  by (simp add: dec_value_def)

lemma dec_text_value: "dec_value (dec_text n) = int n"
proof (induction n rule: dec_text.induct)
  case (1 n)
  show ?case
  proof (cases "n < 10")
    case True
    then show ?thesis
      by (subst dec_text.simps) (simp add: dec_value_def)
  next
    case False
    with 1 have "dec_value (dec_text (n div 10)) = int (n div 10)" by simp
    moreover have "10 * int (n div 10) + int (n mod 10) = int n" by presburger
    ultimately show ?thesis
      using False by (subst dec_text.simps) (simp add: dec_value_snoc)
  qed
qed

lemma dec_text_digits: "list_all dec_digit (dec_text n) \<and> dec_text n \<noteq> []"
proof (induction n rule: dec_text.induct)
  case (1 n)
  then show ?case by (subst dec_text.simps) (auto simp: dec_text.simps [of n])
qed

lemma dec_digit_plain: "dec_digit c \<Longrightarrow> \<not> is_space c \<and> c \<noteq> CHR ''-'' \<and> c \<noteq> CHR ''+''"
  by (auto simp: dec_digit_def is_space_def)

lemma stoi_text:
  assumes "n < 2 ^ 31"
  shows "stoi (dec_text n) = Inr (int n)"
proof -
  obtain c s where cs: "dec_text n = c # s" using dec_text_digits by (cases "dec_text n") auto
  have ds: "list_all dec_digit (c # s)" using dec_text_digits [of n] cs by simp
  then have "dropWhile is_space (c # s) = c # s" "scan_sign (c # s) = (False, c # s)"
    using dec_digit_plain [of c] by auto
  moreover have "takeWhile dec_digit (c # s) = c # s" using ds by (simp add: takeWhile_eq_all_conv list_all_iff)
  ultimately show ?thesis
    using assms dec_text_value [of n] by (simp add: stoi_def cs Let_def)
qed

lemma lists_text: "\<forall>n \<in> set ns. n < 2 ^ 31 \<Longrightarrow> lists (map dec_text ns) (map int ns)"
  by (induction ns) (simp_all add: stoi_text)

text \<open>For concrete runs: a poll that lists four threads and a rescan that finds two gone and one new.\<close>

definition demo_turn :: turn where
  "demo_turn = \<lparr>tu_names = map dec_text [1, 2, 3, 9], tu_rescans = [map dec_text [1, 4, 9]], tu_stop = False\<rparr>"

lemma demo_lists:
  "lists (map dec_text [1, 2, 3, 9]) [1, 2, 3, 9]" "lists (map dec_text [1, 4, 9]) [1, 4, 9]"
  using lists_text [of "[1, 2, 3, 9]"] lists_text [of "[1, 4, 9]"] by simp_all

section \<open>Properties\<close>

text \<open>
  C13. A monitor in the polling mode, constructed over a session that tracks no thread yet, goes on
  after its first scan, and after any number of polls and rescans (below the wrap of the 32-bit
  generation) knows exactly the threads last listed and has the session track exactly those of
  them that the plan selects, without the polling thread.
\<close>

theorem poll_discovery:
  assumes "responsive alive env" "world_ok alive w" "tracked w = {}"
    and "tus \<noteq> []" "\<forall>tu \<in> set (butlast tus). \<not> tu_stop tu"
    and "\<forall>tu \<in> set tus. \<forall>names \<in> set (listings tu). \<exists>tids. lists names tids \<and> self \<in> set tids"
    and "scans tus < 2 ^ 32" "lists (last (listings (last tus))) tids"
  shows "\<exists>tm w'. ThdMon (ProcPoll itvl) (thd_track env) True self tus names w = Inr (tm, w') \<and>
    world_ok alive w' \<and> known tm = set tids \<and>
    tracked w' = {t \<in> set tids. pl_selector (ap_p (w_plan w)) t \<and> t \<noteq> self}"
  using trk.polling_ok [OF trk_ok_refl [OF assms(1,2)] assms(3-8), of itvl names]
  by (auto simp: selected_def [abs_def] trk_ok_def)

theorem poll_discovery_witness:
  "\<exists>tm w'. ThdMon (ProcPoll 10000) (thd_track demo_env) True 9 [demo_turn] [] demo_world = Inr (tm, w') \<and>
     known tm = {1, 4, 9} \<and> tracked w' = {1, 4}"
proof -
  have "\<exists>tm w'. ThdMon (ProcPoll 10000) (thd_track demo_env) True 9 [demo_turn] [] demo_world = Inr (tm, w') \<and>
    world_ok (\<lambda>_. True) w' \<and> known tm = set [1, 4, 9] \<and>
    tracked w' = {t \<in> set [1, 4, 9]. pl_selector (ap_p (w_plan demo_world)) t \<and> t \<noteq> 9}"
    by (rule poll_discovery [of "\<lambda>_. True"]) (use demo_lists in \<open>auto simp: demo_turn_def listings_def scans_def\<close>)
  then show ?thesis using demo_selected by (auto simp: selected_def)
qed

text \<open>
  A rescan a program asks for in the polling mode brings the session in step with the listing:
  threads that are gone are removed, new ones that the plan selects are added.
\<close>

lemma rescan_discovers:
  assumes "responsive alive env" "world_ok alive w" "mon_ok tm" "tm_poll tm"
    and "unat (tm_gen tm) + 1 < 2 ^ 32" "lists names tids" "self \<in> set tids"
    and "self \<in> known tm" "tracked w = {t \<in> known tm. selected w t \<and> t \<noteq> self}"
  shows "\<exists>tm' w'. rescan_threads (thd_track env) names (tm, w) = Inr (tm', w') \<and> world_ok alive w' \<and>
    mon_ok tm' \<and> known tm' = set tids \<and> tracked w' = {t \<in> set tids. selected w t \<and> t \<noteq> self}"
proof -
  have "in_step {self} tm (tracked w) (selected w)" using assms(8,9) by (simp add: in_step_def)
  from trk.rescan_in_step [OF trk_ok_refl [OF assms(1,2)] assms(6,3,4,5) this] assms(7) obtain tm' w' where
    "rescan_threads (thd_track env) names (tm, w) = Inr (tm', w')" "world_ok alive w'"
    "selected w' = selected w" "mon_ok tm'" "known tm' = set tids"
    "in_step {self} tm' (tracked w') (selected w')"
    by (auto simp: trk_ok_def)
  then show ?thesis by (auto simp: in_step_def)
qed

text \<open>
  Without discovery the constructor scans once, and rescans only add threads: whatever was
  listed once stays known, and tracked if selected, although later listings do not have it.
\<close>

lemma no_discovery_only_grows:
  assumes "responsive alive env" "world_ok alive w" "tracked w = {}"
    and "lists names tids" "list_all2 lists nss tidss"
  shows "\<exists>tm w'. rbind (ThdMon NoDiscovery (thd_track env) True self tus names w)
      (rfold (rescan_threads (thd_track env)) nss) = Inr (tm, w') \<and> world_ok alive w' \<and>
    known tm = set tids \<union> \<Union> (set ` set tidss) \<and> tracked w' = {t \<in> known tm. selected w t}"
  using trk.static_ok [OF trk_ok_refl [OF assms(1,2)] assms(3-5), of self tus] unfolding trk_ok_def by blast

text \<open>
  C38. The generation counter has 32 bits. The rescan at which it wraps to 0 finds nothing older than
  itself, so no thread that is gone is removed, whatever the listing has.
\<close>

theorem generation_wrap_misses_exits:
  assumes "responsive alive env" "world_ok alive w" "mon_ok tm" "tm_poll tm" "tm_gen tm = - 1"
    and "lists names tids"
  shows "\<exists>tm' w'. rescan_threads (thd_track env) names (tm, w) = Inr (tm', w') \<and>
    known tm \<subseteq> known tm' \<and> tracked w \<subseteq> tracked w'"
  using trk.rescan_wraps [OF trk_ok_refl [OF assms(1,2)] assms(6) _ assms(4,5)] assms(3)
  by (auto simp: mon_ok_def)

theorem generation_wrap_misses_exits_witness:
  "\<exists>tm' w'. rescan_threads (thd_track demo_env) []
      (thdmon0\<lparr>tm_poll := True, tm_gen := - 1, tm_known := [(7, - 2)]\<rparr>, demo_world) = Inr (tm', w') \<and>
     7 \<in> known tm'"
proof -
  let ?tm = "thdmon0\<lparr>tm_poll := True, tm_gen := - 1, tm_known := [(7, - 2)]\<rparr>"
  have "\<exists>tm' w'. rescan_threads (thd_track demo_env) [] (?tm, demo_world) = Inr (tm', w') \<and>
      known ?tm \<subseteq> known tm' \<and> tracked demo_world \<subseteq> tracked w'"
    by (rule generation_wrap_misses_exits [of "\<lambda>_. True", where tids = "[]"])
      (auto simp: thdmon0_def mon_ok_def tab_wf_def tab_find_def split: if_splits)
  then show ?thesis by (auto simp: known_def)
qed

end
