(* ===== verification/Session.thy ===== *)
theory Session
  imports Sigsys Discovery
begin

text \<open>
  The session object of the API, \<open>include/sysfail.hh\<close> and \<open>src/session.cc\<close>: construction of an
  \<open>ActiveSession\<close>, its initialisation, the operations an application calls and the destructor.
  Parameters stand for the outside: the text of the process's memory map, the signals whose
  disposition can be set, the task directory.
\<close>

section \<open>State\<close>

text \<open>
  The global session is \<open>p_world\<close> with \<open>w_global\<close>, its monitor \<open>p_tmon\<close>; \<open>p_gone\<close> are the
  monitors whose destructor has run.
\<close>

record proc =
  p_world :: world
  p_tmon :: "thdmon option"
  p_gone :: "thdmon list"
  p_sigs :: sigtab

record outside =
  os_maps :: "string list option"
  os_sig_ok :: "int \<Rightarrow> bool"
  os_exists :: bool
  os_self :: pid
  os_turns :: "turn list"
  os_names :: "string list"

section \<open>Construction\<close>

text \<open>The constructor of \<open>ActiveSession\<close>: the new object, and the signal dispositions it leaves.\<close>

definition ActiveSession ::
    "(rat \<Rightarrow> dbl) \<Rightarrow> (int \<Rightarrow> bool) \<Rightarrow> plan \<Rightarrow> addr_range \<Rightarrow> proc \<Rightarrow> (world \<times> sigtab) result" where
  "ActiveSession rnd sig_ok plan text pr =
     rbind (install_handlers sig_ok (p_sigs pr)) (\<lambda>sigs.
     Inr ((p_world pr)\<lparr>w_plan := ActivePlan rnd plan, w_self_text := text, w_thds := []\<rparr>, sigs))"

text \<open>The global pointer is replaced; the object it held goes away with its monitor.\<close>

definition drop_tmon :: "proc \<Rightarrow> proc" where
  "drop_tmon pr =
     (case p_tmon pr of None \<Rightarrow> pr
      | Some tm \<Rightarrow> pr\<lparr>p_tmon := None, p_gone := ThdMon_destroy tm # p_gone pr\<rparr>)"

definition set_session :: "world \<Rightarrow> proc \<Rightarrow> proc" where
  "set_session w pr = (drop_tmon pr)\<lparr>p_world := w\<lparr>w_global := True\<rparr>\<rparr>"

definition initialize :: "env \<Rightarrow> outside \<Rightarrow> proc \<Rightarrow> proc result" where
  "initialize env os pr =
     rbind (ThdMon (pl_thd_disc (ap_p (w_plan (p_world pr)))) (thd_track env)
              (os_exists os) (os_self os) (os_turns os) (os_names os) (p_world pr)) (\<lambda>(tm, w).
     Inr (pr\<lparr>p_tmon := Some tm, p_world := w\<rparr>))"

definition Session :: "(rat \<Rightarrow> dbl) \<Rightarrow> env \<Rightarrow> outside \<Rightarrow> plan \<Rightarrow> proc \<Rightarrow> proc result" where
  "Session rnd env os plan pr =
     rbind (get_mmap (os_maps os)) (\<lambda>m.
     rbind (guard (m \<noteq> None) ''m.has_value()'') (\<lambda>_.
     rbind (self_text (the m)) (\<lambda>text.
     rbind (ActiveSession rnd (os_sig_ok os) plan text pr) (\<lambda>(w, sigs).
     initialize env os (set_session w (pr\<lparr>p_sigs := sigs\<rparr>))))))"

section \<open>Operations\<close>

text \<open>Each takes the global pointer and follows it without a check.\<close>

definition on_session :: "(world \<Rightarrow> world result) \<Rightarrow> proc \<Rightarrow> proc result" where
  "on_session f pr =
     (if \<not> w_global (p_world pr) then Inl (Undefined ''null session'')
      else rbind (f (p_world pr)) (\<lambda>w. Inr (pr\<lparr>p_world := w\<rparr>)))"

definition Session_add_self :: "env \<Rightarrow> pid \<Rightarrow> proc \<Rightarrow> proc result" where
  "Session_add_self env tid = on_session (thd_enable_self env tid)"

definition Session_remove_self :: "env \<Rightarrow> pid \<Rightarrow> proc \<Rightarrow> proc result" where
  "Session_remove_self env tid = on_session (thd_disable_self env tid)"

definition Session_add :: "env \<Rightarrow> pid \<Rightarrow> proc \<Rightarrow> proc result" where
  "Session_add env tid = on_session (thd_enable env tid)"

definition Session_remove :: "env \<Rightarrow> pid \<Rightarrow> proc \<Rightarrow> proc result" where
  "Session_remove env tid = on_session (thd_disable env tid)"

definition ActiveSession_discover_threads :: "env \<Rightarrow> string list \<Rightarrow> proc \<Rightarrow> proc result" where
  "ActiveSession_discover_threads env names pr =
     (case p_tmon pr of
        None \<Rightarrow> Inl (Throw (Runtime_error ''Thread monitor not initialized''))
      | Some tm \<Rightarrow>
          rbind (rescan_threads (thd_track env) names (tm, p_world pr)) (\<lambda>(tm, w).
          Inr (pr\<lparr>p_tmon := Some tm, p_world := w\<rparr>)))"

definition Session_discover_threads :: "env \<Rightarrow> string list \<Rightarrow> proc \<Rightarrow> proc result" where
  "Session_discover_threads env names pr =
     (if \<not> w_global (p_world pr) then Inl (Undefined ''null session'')
      else ActiveSession_discover_threads env names pr)"

text \<open>The destructor: the ids are collected first, then each thread is disabled.\<close>

definition Session_destroy :: "env \<Rightarrow> proc \<Rightarrow> proc result" where
  "Session_destroy env pr =
     (if \<not> w_global (p_world pr) then Inr pr
      else
        (let tids = map fst (w_thds (p_world pr)) in
         rbind (rfold (thd_disable env) tids (p_world pr)) (\<lambda>w.
         rbind (guard (w_thds w = []) ''s->thd_st.empty()'') (\<lambda>_.
         Inr (drop_tmon (pr\<lparr>p_world := w\<lparr>w_global := False\<rparr>\<rparr>))))))"

section \<open>Invariant\<close>

text \<open>
  A process with a session in order: its threads are, and it has a monitor whose table is one.
  A process without one: nothing is tracked and the kernel dispatches no living thread.
\<close>

definition sess_ok :: "(pid \<Rightarrow> bool) \<Rightarrow> proc \<Rightarrow> bool" where
  "sess_ok alive pr =
     (world_ok alive (p_world pr) \<and> (\<exists>tm. p_tmon pr = Some tm \<and> tab_wf (tm_known tm)))"

definition idle :: "(pid \<Rightarrow> bool) \<Rightarrow> proc \<Rightarrow> bool" where
  "idle alive pr =
     (\<not> w_global (p_world pr) \<and> w_thds (p_world pr) = [] \<and> p_tmon pr = None \<and>
      (\<forall>tid. alive tid \<longrightarrow> w_sud (p_world pr) tid = None))"

text \<open>The calls an application makes, and the scans of the poller between them.\<close>

datatype api =
    Api_add pid
  | Api_remove pid
  | Api_add_self pid
  | Api_remove_self pid
  | Api_discover "string list"

primrec run_api :: "env \<Rightarrow> api \<Rightarrow> proc \<Rightarrow> proc result" where
  "run_api env (Api_add tid) = Session_add env tid"
| "run_api env (Api_remove tid) = Session_remove env tid"
| "run_api env (Api_add_self tid) = Session_add_self env tid"
| "run_api env (Api_remove_self tid) = Session_remove_self env tid"
| "run_api env (Api_discover names) = Session_discover_threads env names"

text \<open>Threads that act on themselves are alive, and listings are listings.\<close>

fun api_ok :: "(pid \<Rightarrow> bool) \<Rightarrow> api \<Rightarrow> bool" where
  "api_ok alive (Api_add_self tid) = alive tid"
| "api_ok alive (Api_remove_self tid) = alive tid"
| "api_ok alive (Api_discover names) = (\<exists>tids. lists names tids)"
| "api_ok alive _ = True"

section \<open>Lemmas\<close>

lemma ap_p_ActivePlan [simp]: "ap_p (ActivePlan rnd p) = p"
  by (simp add: ActivePlan_def)

lemma on_session_step:
  assumes "sess_ok alive pr" "step_ok alive (p_world pr) (f (p_world pr)) T"
  shows "\<exists>pr'. on_session f pr = Inr pr' \<and> sess_ok alive pr' \<and> tracked (p_world pr') = T \<and>
    selected (p_world pr') = selected (p_world pr)"
  using assms same_config_selected
  by (auto simp: on_session_def sess_ok_def step_ok_def world_ok_def [of _ "p_world pr"])

lemma discover_step:
  assumes "sess_ok alive pr" "responsive alive env" "lists names tids"
  shows "\<exists>pr'. Session_discover_threads env names pr = Inr pr' \<and> sess_ok alive pr' \<and>
    selected (p_world pr') = selected (p_world pr)"
proof -
  obtain tm where tm: "p_tmon pr = Some tm" "tab_wf (tm_known tm)" "world_ok alive (p_world pr)"
    using assms(1) by (auto simp: sess_ok_def)
  then have "w_global (p_world pr)" by (simp add: world_ok_def)
  moreover from trk.rescan_safe [OF trk_ok_refl [OF assms(2) tm(3)] assms(3) tm(2)] obtain tm' w' where
    "rescan_threads (thd_track env) names (tm, p_world pr) = Inr (tm', w')" "world_ok alive w'"
    "selected w' = selected (p_world pr)" "tab_wf (tm_known tm')"
    by (auto simp: trk_ok_def)
  ultimately show ?thesis
    using tm(1) by (auto simp: Session_discover_threads_def ActiveSession_discover_threads_def sess_ok_def)
qed

lemma run_api_step:
  assumes "sess_ok alive pr" "responsive alive env" "api_ok alive op"
  shows "\<exists>pr'. run_api env op pr = Inr pr' \<and> sess_ok alive pr' \<and>
    selected (p_world pr') = selected (p_world pr)"
proof -
  have w: "world_ok alive (p_world pr)" using assms(1) by (simp add: sess_ok_def)
  show ?thesis
  proof (cases op)
    case (Api_add tid)
    with on_session_step [where f = "thd_enable env tid", OF assms(1) thd_enable_step [OF w assms(2)]] show ?thesis
      by (auto simp: Session_add_def)
  next
    case (Api_remove tid)
    with on_session_step [where f = "thd_disable env tid", OF assms(1) thd_disable_step [OF w assms(2)]] show ?thesis
      by (auto simp: Session_remove_def)
  next
    case (Api_add_self tid)
    with on_session_step [where f = "thd_enable_self env tid", OF assms(1) thd_enable_self_step [OF w assms(2)]] assms(3) show ?thesis
      by (auto simp: Session_add_self_def)
  next
    case (Api_remove_self tid)
    with on_session_step [where f = "thd_disable_self env tid", OF assms(1) thd_disable_self_step [OF w assms(2)]] assms(3) show ?thesis
      by (auto simp: Session_remove_self_def)
  next
    case (Api_discover names)
    with assms(3) discover_step [OF assms(1,2)] show ?thesis by auto
  qed
qed

lemma run_apis:
  assumes "sess_ok alive pr" "responsive alive env" "\<forall>op \<in> set ops. api_ok alive op"
  shows "\<exists>pr'. rfold (run_api env) ops pr = Inr pr' \<and> sess_ok alive pr' \<and>
    selected (p_world pr') = selected (p_world pr)"
  using assms
proof (induction ops arbitrary: pr)
  case (Cons op ops)
  from run_api_step [OF Cons.prems(1,2), of op] Cons.prems(3) obtain pr1 where
    "run_api env op pr = Inr pr1" "sess_ok alive pr1" "selected (p_world pr1) = selected (p_world pr)"
    by auto
  with Cons.IH [of pr1] Cons.prems(2,3) show ?case by auto
qed simp

lemma disable_all:
  assumes "world_ok alive w" "responsive alive env"
  shows "\<exists>w'. rfold (thd_disable env) tids w = Inr w' \<and> world_ok alive w' \<and> tracked w' = tracked w - set tids"
  using assms(1)
proof (induction tids arbitrary: w)
  case (Cons tid tids)
  from thd_disable_step [OF Cons.prems assms(2), of tid] obtain w1 where
    "thd_disable env tid w = Inr w1" "world_ok alive w1" "tracked w1 = tracked w - {tid}"
    by (auto simp: step_ok_def)
  with Cons.IH [of w1] show ?case by auto
qed simp

lemma destroy_idle:
  assumes "sess_ok alive pr" "responsive alive env"
  shows "\<exists>pr'. Session_destroy env pr = Inr pr' \<and> idle alive pr'"
proof -
  let ?w = "p_world pr"
  obtain tm where tm: "p_tmon pr = Some tm" "world_ok alive ?w" using assms(1) by (auto simp: sess_ok_def)
  from disable_all [OF tm(2) assms(2), of "map fst (w_thds ?w)"] obtain w' where
    w': "rfold (thd_disable env) (map fst (w_thds ?w)) ?w = Inr w'" "world_ok alive w'"
      "tracked w' = tracked ?w - fst ` set (w_thds ?w)"
    by auto
  then have "w_thds w' = []" by (simp add: tracked_def)
  moreover from this w'(2) have "alive tid \<Longrightarrow> w_sud w' tid = None" for tid
    by (simp add: world_ok_def tab_find_def)
  ultimately show ?thesis using w'(1) tm
    by (simp add: Session_destroy_def drop_tmon_def idle_def world_ok_def)
qed

text \<open>A constructor that gets as far as the monitor leaves a clean world for it.\<close>

definition first_world :: "(rat \<Rightarrow> dbl) \<Rightarrow> plan \<Rightarrow> addr_range \<Rightarrow> world \<Rightarrow> world" where
  "first_world rnd plan text w =
     w\<lparr>w_plan := ActivePlan rnd plan, w_self_text := text, w_thds := [], w_global := True\<rparr>"

lemma first_world_ok:
  assumes "idle alive pr"
  shows "world_ok alive (first_world rnd plan text (p_world pr))" "tracked (first_world rnd plan text w) = {}"
    "selected (first_world rnd plan text w) = pl_selector plan"
  using assms
  by (auto simp: idle_def first_world_def world_ok_def tracked_def tab_find_def selected_def ActivePlan_def
      fun_eq_iff)

lemma Session_eq:
  assumes "get_mmap (os_maps os) = Inr (Some m)" "self_text m = Inr text"
    and "install_handlers (os_sig_ok os) (p_sigs pr) = Inr sigs"
  shows "Session rnd env os plan pr =
    rbind (ThdMon (pl_thd_disc plan) (thd_track env) (os_exists os) (os_self os) (os_turns os) (os_names os)
        (first_world rnd plan text (p_world pr))) (\<lambda>(tm, w).
    Inr ((drop_tmon (pr\<lparr>p_sigs := sigs\<rparr>))\<lparr>p_tmon := Some tm, p_world := w\<rparr>))"
  using assms
  by (simp add: Session_def ActiveSession_def initialize_def set_session_def drop_tmon_def
      first_world_def split: option.split)

text \<open>What a session's start needs of the outside.\<close>

definition can_start :: "outside \<Rightarrow> addr_range \<Rightarrow> bool" where
  "can_start os text =
     ((\<exists>m. get_mmap (os_maps os) = Inr (Some m) \<and> self_text m = Inr text) \<and> os_exists os \<and>
      (\<forall>s \<in> {SIGSYS, SIG_REARM, SIG_ENABLE, SIG_DISABLE}. os_sig_ok os s))"

lemma install_handlers_total:
  assumes "\<forall>s \<in> {SIGSYS, SIG_REARM, SIG_ENABLE, SIG_DISABLE}. sig_ok s"
  shows "\<exists>tab'. install_handlers sig_ok tab = Inr tab' \<and> sa_sigaction (tab' SIGSYS) = Handle_sigsys"
  using assms by (simp add: install_handlers_def enable_handler_def signal_numbers)

text \<open>The threads a monitor finds at first, and whether the outside lets it find them.\<close>

definition first_found :: "plan \<Rightarrow> outside \<Rightarrow> pid list \<Rightarrow> bool" where
  "first_found plan os tids =
     (case pl_thd_disc plan of
        NoDiscovery \<Rightarrow> lists (os_names os) tids
      | ProcPoll itvl \<Rightarrow>
          (\<exists>names. lists names tids \<and> os_self os \<in> set tids \<and>
             os_turns os = [\<lparr>tu_names = names, tu_rescans = [], tu_stop = False\<rparr>]))"

text \<open>The threads of which the session then tracks those that are found and selected.\<close>

definition first_tracked :: "plan \<Rightarrow> outside \<Rightarrow> pid list \<Rightarrow> pid set" where
  "first_tracked plan os tids =
     {t \<in> set tids. pl_selector plan t \<and> (pl_thd_disc plan \<noteq> NoDiscovery \<longrightarrow> t \<noteq> os_self os)}"

context evt_handler
begin

lemma first_scan:
  assumes "inv s" "watch s = {}" "sel s = pl_selector plan" "first_found plan os tids"
  shows "\<exists>tm s'. ThdMon (pl_thd_disc plan) h True (os_self os) (os_turns os) (os_names os) s = Inr (tm, s') \<and>
    inv s' \<and> tab_wf (tm_known tm) \<and> watch s' = first_tracked plan os tids"
proof (cases "pl_thd_disc plan")
  case NoDiscovery
  with static_ok [OF assms(1,2), of "os_names os" tids "[]" "[]" "os_self os" "os_turns os"] assms(3,4)
  show ?thesis by (auto simp: first_found_def first_tracked_def mon_ok_def rbind_Inr_conv)
next
  case (ProcPoll itvl)
  with assms(4) obtain names where n: "lists names tids" "os_self os \<in> set tids"
      "os_turns os = [\<lparr>tu_names = names, tu_rescans = [], tu_stop = False\<rparr>]"
    by (auto simp: first_found_def)
  have "\<forall>tu \<in> set (os_turns os). \<forall>names \<in> set (listings tu). \<exists>tids. lists names tids \<and> os_self os \<in> set tids"
    using n by (auto simp: listings_def)
  moreover have "os_turns os \<noteq> []" "\<forall>tu \<in> set (butlast (os_turns os)). \<not> tu_stop tu"
    "scans (os_turns os) < 2 ^ 32" "lists (last (listings (last (os_turns os)))) tids"
    using n by (auto simp: listings_def scans_def)
  ultimately obtain tm s' where
    "ThdMon (ProcPoll itvl) h True (os_self os) (os_turns os) (os_names os) s = Inr (tm, s')"
    "inv s'" "mon_ok tm" "watch s' = {t \<in> set tids. sel s t \<and> t \<noteq> os_self os}"
    using polling_ok [OF assms(1,2), of "os_turns os" "os_self os" tids itvl "os_names os"] by blast
  with ProcPoll assms(3) show ?thesis by (auto simp: first_tracked_def mon_ok_def)
qed

end

lemma start_ok:
  assumes "idle alive pr" "responsive alive env" "can_start os text" "first_found plan os tids"
  shows "\<exists>pr'. Session rnd env os plan pr = Inr pr' \<and> sess_ok alive pr' \<and> thds_on alive (p_world pr') \<and>
    tracked (p_world pr') = first_tracked plan os tids \<and>
    w_plan (p_world pr') = ActivePlan rnd plan \<and> w_self_text (p_world pr') = text \<and>
    sa_sigaction (p_sigs pr' SIGSYS) = Handle_sigsys"
proof -
  obtain m where m: "get_mmap (os_maps os) = Inr (Some m)" "self_text m = Inr text" "os_exists os"
    using assms(3) by (auto simp: can_start_def)
  obtain sigs where sigs: "install_handlers (os_sig_ok os) (p_sigs pr) = Inr sigs"
      "sa_sigaction (sigs SIGSYS) = Handle_sigsys"
    using install_handlers_total assms(3) by (auto simp: can_start_def)
  let ?w = "first_world rnd plan text (p_world pr)"
  have on: "thds_on alive ?w" by (simp add: thds_on_def first_world_def tab_find_def)
  from trk.first_scan [OF trk_ok_refl [OF assms(2) first_world_ok(1) [OF assms(1)]] first_world_ok(2,3) [OF assms(1)] assms(4)]
  obtain tm w' where
    w': "ThdMon (pl_thd_disc plan) (thd_track env) True (os_self os) (os_turns os) (os_names os) ?w = Inr (tm, w')"
      "trk_ok alive env ?w w'" "tab_wf (tm_known tm)" "tracked w' = first_tracked plan os tids"
    by blast
  from Session_eq [OF m(1,2) sigs(1)] w' m(3) on sigs(2) show ?thesis
    by (auto simp: sess_ok_def trk_ok_def same_config_def first_world_def drop_tmon_def split: option.split)
qed

text \<open>For concrete runs: a process and a task directory with four threads.\<close>

definition demo_proc :: proc where
  "demo_proc = \<lparr>p_world = demo_world\<lparr>w_global := False\<rparr>, p_tmon = None, p_gone = [],
     p_sigs = (\<lambda>_. \<lparr>sa_sigaction = Default, sa_mask = (\<lambda>_. False), sa_flags = 0\<rparr>)\<rparr>"

definition demo_os :: outside where
  "demo_os = \<lparr>os_maps = Some [demo_line], os_sig_ok = (\<lambda>_. True), os_exists = True, os_self = 9,
     os_turns = [\<lparr>tu_names = map dec_text [1, 2, 3, 9], tu_rescans = [], tu_stop = False\<rparr>],
     os_names = map dec_text [1, 2, 3, 9]\<rparr>"

definition demo_poll_plan :: plan where
  "demo_poll_plan = (demo_plan 1 1 0 1)\<lparr>pl_selector := (\<lambda>tid. tid \<noteq> 3), pl_thd_disc := ProcPoll_default\<rparr>"

lemma demo_idle [simp]: "idle (\<lambda>_. True) demo_proc"
  by (simp add: idle_def demo_proc_def demo_world_def)

lemma demo_can_start [simp]:
  "can_start demo_os \<lparr>ar_start = 0x7f00, ar_length = 0x10, ar_permissions = ''r-xp'',
     ar_path = ''/lib/libsysfail.so'', ar_inode = 0x1234\<rparr>"
  using demo_self_text by (simp add: can_start_def demo_os_def)

lemma demo_found [simp]:
  "first_found demo_poll_plan demo_os [1, 2, 3, 9]" "first_found Plan_default demo_os [1, 2, 3, 9]"
  using demo_lists by (auto simp: first_found_def demo_poll_plan_def ProcPoll_default_def demo_os_def
      Plan_default_def)

lemma demo_first_tracked [simp]: "first_tracked demo_poll_plan demo_os [1, 2, 3, 9] = {1, 2}"
  by (auto simp: first_tracked_def demo_poll_plan_def demo_os_def ProcPoll_default_def)

text \<open>For concrete runs: a session that tracks thread 1, with a poller or without.\<close>

definition demo_busy :: "bool \<Rightarrow> proc" where
  "demo_busy poll = demo_proc
     \<lparr>p_world := demo_world\<lparr>w_thds := [(1, \<lparr>ts_on = Block, ts_sem = 1\<rparr>)],
        w_sud := (\<lambda>_. None)(1 := Some (text_range (w_self_text demo_world)))\<rparr>,
      p_tmon := Some (thdmon0\<lparr>tm_poll := poll, tm_gen := 1, tm_known := [(9, 1), (1, 1)]\<rparr>)\<rparr>"

lemma demo_busy_ok [simp]: "sess_ok (\<lambda>_. True) (demo_busy poll)"
  by (simp add: sess_ok_def world_ok_def demo_busy_def demo_world_def tab_wf_def tab_find_def thdmon0_def)

lemma demo_busy_sel:
  "selected (p_world (demo_busy poll)) tid \<longleftrightarrow> tid \<noteq> 3"
  "p_tmon (demo_busy poll) = Some (thdmon0\<lparr>tm_poll := poll, tm_gen := 1, tm_known := [(9, 1), (1, 1)]\<rparr>)"
  by (simp_all add: demo_busy_def demo_world_def selected_def ActivePlan_def)

section \<open>Properties\<close>

text \<open>
  C4. Starting a session in a process without one makes the session: its handler gets the intercepted
  calls, and of the threads found by the first scan exactly those the plan selects (other than the
  poller) are tracked, each living one with its calls intercepted, and no other living thread is.
\<close>

theorem session_starts:
  assumes "idle alive pr" "responsive alive env" "can_start os text" "first_found plan os tids"
  shows "\<exists>pr'. Session rnd env os plan pr = Inr pr' \<and>
    sa_sigaction (p_sigs pr' SIGSYS) = Handle_sigsys \<and>
    tracked (p_world pr') = first_tracked plan os tids \<and>
    (\<forall>tid. alive tid \<longrightarrow> (armed (p_world pr') tid \<longleftrightarrow> tid \<in> first_tracked plan os tids) \<and>
       (w_sud (p_world pr') tid \<noteq> None \<longleftrightarrow> tid \<in> first_tracked plan os tids))"
proof -
  from start_ok [OF assms, of rnd] obtain pr' where
    pr': "Session rnd env os plan pr = Inr pr'" "sess_ok alive pr'" "thds_on alive (p_world pr')"
      "tracked (p_world pr') = first_tracked plan os tids" "sa_sigaction (p_sigs pr' SIGSYS) = Handle_sigsys"
    by blast
  then have w: "world_ok alive (p_world pr')" by (simp add: sess_ok_def)
  moreover have "w_sud (p_world pr') tid \<noteq> None \<longleftrightarrow> tid \<in> first_tracked plan os tids" if "alive tid" for tid
    using w that unfolding pr'(4) [symmetric] by (auto simp: world_ok_def tracked_iff split: if_splits)
  ultimately show ?thesis using pr' armed_iff [OF w pr'(3)] by auto
qed

theorem session_starts_witness:
  "\<exists>pr'. Session Fin demo_env demo_os demo_poll_plan demo_proc = Inr pr' \<and> tracked (p_world pr') = {1, 2} \<and>
     armed (p_world pr') 1 \<and> \<not> armed (p_world pr') 3"
  using session_starts [of "\<lambda>_. True" demo_proc demo_env demo_os _ demo_poll_plan "[1, 2, 3, 9]" Fin] demo_can_start
  by fastforce

text \<open>
  A session that was started, used by any sequence of additions, removals and scans, and then
  destroyed leaves nothing behind: none of these steps fails or blocks, and at the end there is no
  session and no monitor, the table is empty and the kernel dispatches no living thread.
\<close>

lemma session_lifecycle:
  assumes "idle alive pr" "responsive alive env" "can_start os text" "first_found plan os tids"
    and "\<forall>op \<in> set ops. api_ok alive op"
  shows "\<exists>pr'. rbind (rbind (Session rnd env os plan pr) (rfold (run_api env) ops)) (Session_destroy env) = Inr pr' \<and>
    idle alive pr'"
proof -
  from start_ok [OF assms(1-4), of rnd] obtain pr1 where
    "Session rnd env os plan pr = Inr pr1" "sess_ok alive pr1" by blast
  with run_apis [OF _ assms(2,5)] destroy_idle [OF _ assms(2)] show ?thesis
    by (metis rbind.simps(2))
qed

text \<open>
  Without a session, every operation of the API but the destructor follows a null pointer.
\<close>

lemma api_needs_session:
  assumes "\<not> w_global (p_world pr)"
  shows "run_api env op pr = Inl (Undefined ''null session'') \<and> Session_destroy env pr = Inr pr"
  using assms
  by (cases op)
    (simp_all add: Session_add_def Session_remove_def Session_add_self_def Session_remove_self_def
      Session_discover_threads_def on_session_def Session_destroy_def)

end
