(* ===== verification/Lifecycle.thy ===== *)
theory Lifecycle
  imports Session
begin

text \<open>
  A session over time: between the calls of the API threads of the process end and start, and the
  environment that answers the calls is a different one each time. The steps are a relation on the
  set of living threads and the process. As long as no new thread gets the id of a tracked one every
  state they reach satisfies the invariant of \<open>Session\<close>; with ids that are reused, a weaker one.
\<close>

section \<open>Worlds whose dispatch settings are not what the table says\<close>

text \<open>
  When the kernel gives a new thread the id of a tracked one that has ended, the table has an entry
  for a thread that is not dispatched. \<open>table_ok\<close> asks nothing of the dispatch settings,
  \<open>sud_tracked\<close> that no living thread is dispatched without an entry.
\<close>

definition table_ok :: "world \<Rightarrow> bool" where
  "table_ok w = (tab_wf (w_thds w) \<and> w_global w \<and> (\<forall>tid st. tab_find (w_thds w) tid = Some st \<longrightarrow> ts_sem st = 1))"

definition sud_tracked :: "(pid \<Rightarrow> bool) \<Rightarrow> world \<Rightarrow> bool" where
  "sud_tracked alive w = (\<forall>tid. alive tid \<longrightarrow> w_sud w tid \<noteq> None \<longrightarrow> tid \<in> tracked w)"

text \<open>What each operation does to such a world: the set of tracked threads, and one dispatch setting.\<close>

definition acts_ok :: "(pid \<Rightarrow> bool) \<Rightarrow> pid \<Rightarrow> world \<Rightarrow> world result \<Rightarrow> pid set \<Rightarrow> bool" where
  "acts_ok alive tid w r T =
     (\<exists>w'. r = Inr w' \<and> table_ok w' \<and> tracked w' = T \<and> selected w' = selected w \<and>
        (\<forall>t. t \<noteq> tid \<longrightarrow> w_sud w' t = w_sud w t) \<and> (sud_tracked alive w \<longrightarrow> sud_tracked alive w'))"

lemma acts_noop: "table_ok w \<Longrightarrow> acts_ok alive tid w (Inr w) (tracked w)"
  by (simp add: acts_ok_def)

lemma acts_insert:
  assumes "table_ok w" "ts_sem st = 1"
  shows "acts_ok alive tid w (Inr (w\<lparr>w_thds := tab_insert tid st (w_thds w), w_sud := (w_sud w)(tid \<mapsto> x)\<rparr>)) (insert tid (tracked w))"
    and "acts_ok alive tid w (Inr (w\<lparr>w_thds := tab_insert tid st (w_thds w)\<rparr>)) (insert tid (tracked w))"
  using assms by (auto simp: acts_ok_def table_ok_def sud_tracked_def selected_def)

lemma acts_erase:
  assumes "table_ok w"
  shows "acts_ok alive tid w (Inr (w\<lparr>w_thds := tab_erase tid (w_thds w), w_sud := (w_sud w)(tid := None)\<rparr>)) (tracked w - {tid})"
    and "\<not> alive tid \<Longrightarrow> acts_ok alive tid w (Inr (w\<lparr>w_thds := tab_erase tid (w_thds w)\<rparr>)) (tracked w - {tid})"
  using assms by (auto simp: acts_ok_def table_ok_def sud_tracked_def selected_def)

lemma enable_acts:
  assumes "table_ok w" "responsive alive env"
  shows "acts_ok alive tid w (thd_enable env tid w) (abs_add (selected w) tid (tracked w))"
proof (cases "selected w tid \<and> tid \<notin> tracked w")
  case True
  moreover have "w_global w" using assms(1) by (simp add: table_ok_def)
  ultimately show ?thesis
    using thd_enable_alive [OF _ assms(2), of w tid] thd_enable_dead [OF assms(2), of tid w] acts_insert [OF assms(1)]
    by (cases "alive tid") (simp_all add: abs_add_def ThdState_def)
qed (use acts_noop [OF assms(1)] in \<open>auto simp: thd_enable_noop abs_add_def insert_absorb\<close>)

lemma disable_acts:
  assumes "table_ok w" "responsive alive env"
  shows "acts_ok alive tid w (thd_disable env tid w) (tracked w - {tid})"
proof (cases "tab_find (w_thds w) tid")
  case None
  then show ?thesis using acts_noop [OF assms(1)] by (simp add: thd_disable_noop tracked_iff)
next
  case (Some st)
  with assms(1) have st: "w_global w" "ts_sem st = 1" by (simp_all add: table_ok_def)
  show ?thesis
    using thd_disable_alive [OF st(1) assms(2) _ Some st(2)] thd_disable_dead [OF assms(2) _ Some st(2)]
      acts_erase [OF assms(1)]
    by (cases "alive tid") simp_all
qed

lemma enable_self_acts:
  assumes "table_ok w" "responsive alive env" "alive tid"
  shows "acts_ok alive tid w (thd_enable_self env tid w) (abs_add (selected w) tid (tracked w))"
proof (cases "selected w tid \<and> tid \<notin> tracked w")
  case True
  then show ?thesis using thd_enable_self_fresh [OF assms(2,3), of w] acts_insert(1) [OF assms(1)]
    by (simp add: abs_add_def)
qed (use acts_noop [OF assms(1)] in \<open>auto simp: thd_enable_self_noop abs_add_def insert_absorb\<close>)

lemma disable_self_acts:
  assumes "table_ok w" "responsive alive env" "alive tid"
  shows "acts_ok alive tid w (thd_disable_self env tid w) (tracked w - {tid})"
proof (cases "tid \<in> tracked w")
  case True
  then show ?thesis using thd_disable_self_tracked [OF assms(2,3)] acts_erase(1) [OF assms(1)] by simp
qed (use acts_noop [OF assms(1)] in \<open>simp add: thd_disable_self_noop\<close>)

lemma track_acts:
  assumes "table_ok w" "responsive alive env"
  shows "acts_ok alive tid w (thd_track env tid st w) (track_set (selected w) tid st (tracked w))"
  using enable_acts [OF assms, of tid] disable_acts [OF assms, of tid] acts_noop [OF assms(1)]
  by (cases st) (simp_all add: abs_add_def)

interpretation loose: evt_handler "thd_track env" "\<lambda>w. responsive alive env \<and> table_ok w" tracked selected
  for env alive
proof
  fix w tid st
  assume "responsive alive env \<and> table_ok w"
  with track_acts [of w alive env tid st] show "\<exists>w'. thd_track env tid st w = Inr w' \<and> (responsive alive env \<and> table_ok w') \<and>
      tracked w' = track_set (selected w) tid st (tracked w) \<and> selected w' = selected w"
    by (auto simp: acts_ok_def)
qed

text \<open>The same for a session whose dispatched threads have entries.\<close>

interpretation strict: evt_handler "thd_track env" "\<lambda>w. responsive alive env \<and> table_ok w \<and> sud_tracked alive w" tracked selected
  for env alive
proof
  fix w tid st
  assume "responsive alive env \<and> table_ok w \<and> sud_tracked alive w"
  with track_acts [of w alive env tid st] show "\<exists>w'. thd_track env tid st w = Inr w' \<and>
      (responsive alive env \<and> table_ok w' \<and> sud_tracked alive w') \<and>
      tracked w' = track_set (selected w) tid st (tracked w) \<and> selected w' = selected w"
    by (auto simp: acts_ok_def)
qed

definition loose_ok :: "(pid \<Rightarrow> bool) \<Rightarrow> proc \<Rightarrow> bool" where
  "loose_ok alive pr =
     (table_ok (p_world pr) \<and> sud_tracked alive (p_world pr) \<and> (\<exists>tm. p_tmon pr = Some tm \<and> tab_wf (tm_known tm)))"

lemma sess_loose: "sess_ok alive pr \<Longrightarrow> loose_ok alive pr"
  by (auto simp: sess_ok_def loose_ok_def world_ok_def table_ok_def sud_tracked_def tracked_iff)

lemma on_session_loose:
  assumes "loose_ok alive pr" "acts_ok alive tid (p_world pr) (f (p_world pr)) T"
  shows "\<exists>pr'. on_session f pr = Inr pr' \<and> loose_ok alive pr'"
  using assms by (auto simp: on_session_def loose_ok_def acts_ok_def table_ok_def [of "p_world pr"])

lemma run_api_loose:
  assumes "loose_ok alive pr" "responsive alive env" "api_ok alive op"
  shows "\<exists>pr'. run_api env op pr = Inr pr' \<and> loose_ok alive pr'"
proof -
  obtain tm where w: "table_ok (p_world pr)" "sud_tracked alive (p_world pr)" "p_tmon pr = Some tm" "tab_wf (tm_known tm)"
    using assms(1) by (auto simp: loose_ok_def)
  note on = on_session_loose [where f = "thd_enable env t" for t, OF assms(1) enable_acts [OF w(1) assms(2)]]
    on_session_loose [where f = "thd_disable env t" for t, OF assms(1) disable_acts [OF w(1) assms(2)]]
    on_session_loose [where f = "thd_enable_self env t" for t, OF assms(1) enable_self_acts [OF w(1) assms(2)]]
    on_session_loose [where f = "thd_disable_self env t" for t, OF assms(1) disable_self_acts [OF w(1) assms(2)]]
  show ?thesis
  proof (cases op)
    case (Api_discover names)
    with assms(3) obtain tids where l: "lists names tids" by auto
    have "responsive alive env \<and> table_ok (p_world pr) \<and> sud_tracked alive (p_world pr)" using assms(2) w by simp
    from strict.rescan_safe [OF this l w(4)] obtain tm' w' where
      "rescan_threads (thd_track env) names (tm, p_world pr) = Inr (tm', w')" "table_ok w'" "sud_tracked alive w'"
      "tab_wf (tm_known tm')"
      by auto
    then show ?thesis using Api_discover w
      by (auto simp: Session_discover_threads_def ActiveSession_discover_threads_def loose_ok_def table_ok_def [of "p_world pr"])
  qed (use on assms(3) in \<open>simp_all add: Session_add_def Session_remove_def Session_add_self_def
      Session_remove_self_def\<close>)
qed

lemma disable_all_loose:
  assumes "table_ok w" "sud_tracked alive w" "responsive alive env"
  shows "\<exists>w'. rfold (thd_disable env) tids w = Inr w' \<and> table_ok w' \<and> sud_tracked alive w' \<and> tracked w' = tracked w - set tids"
  using assms(1,2)
proof (induction tids arbitrary: w)
  case (Cons tid tids)
  from disable_acts [OF Cons.prems(1) assms(3), of tid] Cons.prems(2) obtain w1 where
    "thd_disable env tid w = Inr w1" "table_ok w1" "sud_tracked alive w1" "tracked w1 = tracked w - {tid}"
    by (auto simp: acts_ok_def)
  with Cons.IH [of w1] show ?case by auto
qed simp

lemma destroy_loose:
  assumes "loose_ok alive pr" "responsive alive env"
  shows "\<exists>pr'. Session_destroy env pr = Inr pr' \<and> idle alive pr'"
proof -
  let ?w = "p_world pr"
  obtain tm where tm: "p_tmon pr = Some tm" "table_ok ?w" "sud_tracked alive ?w" using assms(1) by (auto simp: loose_ok_def)
  from disable_all_loose [OF tm(2,3) assms(2), of "map fst (w_thds ?w)"] obtain w' where
    w': "rfold (thd_disable env) (map fst (w_thds ?w)) ?w = Inr w'" "sud_tracked alive w'"
      "tracked w' = tracked ?w - fst ` set (w_thds ?w)"
    by auto
  then have "w_thds w' = []" by (simp add: tracked_def)
  moreover from this w'(2) have "alive tid \<Longrightarrow> w_sud w' tid = None" for tid
    by (auto simp: sud_tracked_def tracked_def)
  ultimately show ?thesis using w'(1) tm
    by (simp add: Session_destroy_def drop_tmon_def idle_def table_ok_def)
qed

section \<open>A session over time\<close>

type_synonym life_state = "(pid \<Rightarrow> bool) \<times> proc"

text \<open>A thread's dispatch setting goes with it, and a new thread has none.\<close>

definition no_dispatch :: "pid \<Rightarrow> proc \<Rightarrow> proc" where
  "no_dispatch tid pr = pr\<lparr>p_world := (p_world pr)\<lparr>w_sud := (w_sud (p_world pr))(tid := None)\<rparr>\<rparr>"

text \<open>
  A new thread takes an id that no living thread has. With \<open>reuse\<close> it may be any, as in the kernel;
  without, only one the session does not track, so that the thread that had it before is forgotten.
\<close>

inductive life :: "bool \<Rightarrow> life_state \<Rightarrow> life_state \<Rightarrow> bool" for reuse where
  call: "responsive alive env \<Longrightarrow> api_ok alive op \<Longrightarrow> run_api env op pr = Inr pr' \<Longrightarrow>
    life reuse (alive, pr) (alive, pr')"
| exits: "alive tid \<Longrightarrow> life reuse (alive, pr) (alive(tid := False), no_dispatch tid pr)"
| spawns: "\<not> alive tid \<Longrightarrow> reuse \<or> tid \<notin> tracked (p_world pr) \<Longrightarrow>
    life reuse (alive, pr) (alive(tid := True), no_dispatch tid pr)"

inductive_cases lifeE: "life reuse s s'"

definition life_ok :: "life_state \<Rightarrow> bool" where
  "life_ok s = sess_ok (fst s) (snd s)"

lemma no_dispatch_simps [simp]:
  "tracked (p_world (no_dispatch tid pr)) = tracked (p_world pr)" "p_tmon (no_dispatch tid pr) = p_tmon pr"
  by (simp_all add: no_dispatch_def tracked_def)

lemma sess_ok_exit: "sess_ok alive pr \<Longrightarrow> sess_ok (alive(tid := False)) (no_dispatch tid pr)"
  by (auto simp: sess_ok_def world_ok_def no_dispatch_def)

lemma sess_ok_spawn:
  "sess_ok alive pr \<Longrightarrow> tid \<notin> tracked (p_world pr) \<Longrightarrow> sess_ok (alive(tid := True)) (no_dispatch tid pr)"
  by (auto simp: sess_ok_def world_ok_def no_dispatch_def tracked_iff)

lemma loose_no_dispatch: "loose_ok alive pr \<Longrightarrow> loose_ok (alive(tid := b)) (no_dispatch tid pr)"
  by (auto simp: loose_ok_def table_ok_def sud_tracked_def no_dispatch_def tracked_def)

interpretation life: step_inv "life False" life_ok
proof
  fix s s'
  assume "life_ok s" "life False s s'"
  then show "life_ok s'"
    using run_api_step sess_ok_exit sess_ok_spawn by (elim lifeE) (fastforce simp: life_ok_def)+
qed

interpretation again: step_inv "life reuse" "\<lambda>s. loose_ok (fst s) (snd s)" for reuse
proof
  fix s s'
  assume "loose_ok (fst s) (snd s)" "life reuse s s'"
  then show "loose_ok (fst s') (snd s')"
    using run_api_loose loose_no_dispatch by (elim lifeE) fastforce+
qed

section \<open>Properties\<close>

text \<open>
  C3. However threads end and start while a session is active, also when the kernel gives a new thread
  the id of one that is still tracked: in every state that a sequence of API calls and scans reaches
  the next call returns without an error or a wait, no living thread is dispatched that is not
  tracked, and the destructor leaves nothing behind, no session, no monitor, an empty table and no
  living thread dispatched. When no new thread has got the id of a tracked one, the kernel dispatches
  exactly the living threads that are tracked.
\<close>

theorem session_over_time:
  assumes "idle alive pr" "responsive alive env" "can_start os text" "first_found plan os tids"
    and "Session rnd env os plan pr = Inr pr1" "(life True)\<^sup>*\<^sup>* (alive, pr1) (alive', pr')" "responsive alive' env'"
  shows "(\<forall>op. api_ok alive' op \<longrightarrow> (\<exists>pr2. run_api env' op pr' = Inr pr2)) \<and>
    (\<forall>tid. alive' tid \<and> w_sud (p_world pr') tid \<noteq> None \<longrightarrow> tid \<in> tracked (p_world pr')) \<and>
    ((life False)\<^sup>*\<^sup>* (alive, pr1) (alive', pr') \<longrightarrow>
      (\<forall>tid. alive' tid \<longrightarrow> (w_sud (p_world pr') tid \<noteq> None \<longleftrightarrow> tid \<in> tracked (p_world pr')))) \<and>
    (\<exists>pr2. Session_destroy env' pr' = Inr pr2 \<and> idle alive' pr2)"
proof -
  have s: "sess_ok alive pr1" using start_ok [OF assms(1-4), of rnd] assms(5) by auto
  from again.reach_inv [OF assms(6)] sess_loose [OF s] have l: "loose_ok alive' pr'" by simp
  have "w_sud (p_world pr') tid \<noteq> None \<longleftrightarrow> tid \<in> tracked (p_world pr')"
    if "(life False)\<^sup>*\<^sup>* (alive, pr1) (alive', pr')" "alive' tid" for tid
  proof -
    from life.reach_inv [OF that(1)] s have "world_ok alive' (p_world pr')" by (simp add: life_ok_def sess_ok_def)
    with that(2) show ?thesis by (auto simp: world_ok_def tracked_iff)
  qed
  moreover from l have "sud_tracked alive' (p_world pr')" by (simp add: loose_ok_def)
  ultimately show ?thesis
    using run_api_loose [OF l assms(7)] destroy_loose [OF l assms(7)] unfolding sud_tracked_def by blast
qed

text \<open>For concrete runs: an environment in which thread 2 is gone.\<close>

definition demo_env2 :: env where
  "demo_env2 = demo_env\<lparr>e_tgsig := (\<lambda>tid _. if tid = 2 then - ESRCH else 0)\<rparr>"

lemma demo_env2_ok: "responsive ((\<lambda>_. True)(2 := False)) demo_env2"
  by (simp add: responsive_def demo_env2_def demo_env_def)

text \<open>Thread 1 ends and another gets its id; then thread 2 ends.\<close>

theorem session_over_time_witness:
  "\<exists>pr1 pr2. Session Fin demo_env demo_os demo_poll_plan demo_proc = Inr pr1 \<and> 1 \<in> tracked (p_world pr1) \<and>
     Session_destroy demo_env2 (no_dispatch 2 (no_dispatch 1 (no_dispatch 1 pr1))) = Inr pr2 \<and>
     idle ((\<lambda>_. True)(2 := False)) pr2"
proof -
  from start_ok [OF demo_idle demo_env_ok demo_can_start demo_found(1), of Fin] obtain pr1 where
    pr1: "Session Fin demo_env demo_os demo_poll_plan demo_proc = Inr pr1" "tracked (p_world pr1) = {1, 2}"
    by auto
  have "life True (\<lambda>_. True, pr1) ((\<lambda>_. True)(1 := False), no_dispatch 1 pr1)"
    by (rule exits) simp
  moreover have "life True ((\<lambda>_. True)(1 := False), no_dispatch 1 pr1)
      ((\<lambda>_. True)(1 := False, 1 := True), no_dispatch 1 (no_dispatch 1 pr1))"
    by (rule spawns) simp_all
  moreover have "(\<lambda>_. True)(1 := False, 1 := True) = (\<lambda>_ :: pid. True)" by auto
  moreover have "life True (\<lambda>_. True, no_dispatch 1 (no_dispatch 1 pr1))
      ((\<lambda>_. True)(2 := False), no_dispatch 2 (no_dispatch 1 (no_dispatch 1 pr1)))"
    by (rule exits) simp
  ultimately have "(life True)\<^sup>*\<^sup>* (\<lambda>_. True, pr1)
      ((\<lambda>_. True)(2 := False), no_dispatch 2 (no_dispatch 1 (no_dispatch 1 pr1)))"
    by (metis (no_types, lifting) rtranclp.rtrancl_into_rtrancl rtranclp.rtrancl_refl)
  from session_over_time [OF demo_idle demo_env_ok demo_can_start demo_found(1) pr1(1) this demo_env2_ok] pr1
  show ?thesis by auto
qed

end
