(* ===== verification/Reuse.thy ===== *)
theory Reuse
  imports Lifecycle
begin

text \<open>
  Thread ids that the kernel reuses: a tracked thread ends and a new thread gets its id before a scan
  has missed it. The table and the monitor still have the id, so that the new thread is taken for the
  old one.
\<close>

section \<open>Scans that leave a thread alone\<close>

context evt_handler
begin

text \<open>
  The handler is not called for a thread that is known and listed, so a scan keeps whatever the
  events of the other threads keep.
\<close>

definition apart :: "pid \<Rightarrow> ('s \<Rightarrow> bool) \<Rightarrow> bool" where
  "apart tid Q = (\<forall>t st s s'. t \<noteq> tid \<longrightarrow> Q s \<longrightarrow> h t st s = Inr s' \<longrightarrow> Q s')"

definition keeps :: "pid \<Rightarrow> ('s \<Rightarrow> bool) \<Rightarrow> thdmon \<times> 's \<Rightarrow> bool" where
  "keeps tid Q ts = (tid \<in> known (fst ts) \<and> Q (snd ts))"

lemma apartD: "apart tid Q \<Longrightarrow> t \<noteq> tid \<Longrightarrow> Q s \<Longrightarrow> h t st s = Inr s' \<Longrightarrow> Q s'"
  unfolding apart_def by blast

lemma visit_frame:
  assumes "apart tid Q" "visit_entry h name ts = Inr ts'" "keeps tid Q ts"
  shows "keeps tid Q ts'"
proof -
  obtain tm s where ts: "ts = (tm, s)" by (cases ts)
  with assms(2) obtain t where t: "stoi name = Inr t" by (auto simp: visit_entry_def rbind_Inr_conv)
  show ?thesis
  proof (cases "tab_find (tm_known tm) t")
    case None
    then have "t \<noteq> tid" using assms(3) by (auto simp: ts keeps_def known_iff)
    then show ?thesis
      using assms(2,3) apartD [OF assms(1) \<open>t \<noteq> tid\<close>]
      by (auto simp: ts t None visit_entry_def keeps_def known_iff rbind_Inr_conv)
  next
    case (Some g)
    then show ?thesis using assms(2,3) by (auto simp: ts t visit_entry_def keeps_def known_iff)
  qed
qed

lemma drop_frame:
  assumes "apart tid Q" "drop_entry h t ts = Inr ts'" "keeps tid Q ts" "t \<noteq> tid"
  shows "keeps tid Q ts'"
  using assms(2,3) apartD [OF assms(1,4)] assms(4)
  by (cases ts) (auto simp: drop_entry_def keeps_def known_iff rbind_Inr_conv)

lemma rescan_frame:
  assumes "inv s" "lists names tids" "tab_wf (tm_known tm)" "tid \<in> set tids" "tid \<in> known tm" "Q s" "apart tid Q"
  shows "\<exists>tm' s'. rescan_threads h names (tm, s) = Inr (tm', s') \<and> inv s' \<and> tab_wf (tm_known tm') \<and>
    tid \<in> known tm' \<and> Q s'"
proof -
  let ?tm = "if tm_poll tm then tm\<lparr>tm_gen := tm_gen tm + 1\<rparr> else tm"
  have wf: "tab_wf (tm_known ?tm)" and kn: "keeps tid Q (?tm, s)"
    using assms(3,5,6) by (auto simp: keeps_def known_def)
  from visit_all_ok [OF assms(1,2) wf] obtain tm1 s1 where
    v: "rfold (visit_entry h) names (?tm, s) = Inr (tm1, s1)" "inv s1" "tab_wf (tm_known tm1)"
      "tab_find (tm_known tm1) tid = Some (tm_gen ?tm)" "tm1 = ?tm\<lparr>tm_known := tm_known tm1\<rparr>"
    using assms(4) by auto
  have I1: "keeps tid Q (tm1, s1)"
    by (rule rfold_invariant [where I = "keeps tid Q", OF v(1) kn]) (rule visit_frame [OF assms(7)])
  have "tm_gen tm1 = tm_gen ?tm" by (subst v(5)) simp
  then have other: "t \<noteq> tid" if "t \<in> set (to_remove tm1)" for t
    using v(4) that by (auto simp: set_to_remove [OF v(3)])
  from drop_all_ok [OF v(2), of "to_remove tm1" tm1] obtain s2 where
    d: "rfold (drop_entry h) (to_remove tm1) (tm1, s1) =
       Inr (tm1\<lparr>tm_known := fold tab_erase (to_remove tm1) (tm_known tm1)\<rparr>, s2)" "inv s2"
    by blast
  have "keeps tid Q (tm1\<lparr>tm_known := fold tab_erase (to_remove tm1) (tm_known tm1)\<rparr>, s2)"
    by (rule rfold_invariant [where I = "keeps tid Q", OF d(1) I1]) (rule drop_frame [OF assms(7) _ _ other])
  with v d tab.ok_fold_era [OF v(3)] show ?thesis
    by (auto simp: rescan_threads_def scan_tasks_def keeps_def split: if_splits)
qed

end

section \<open>A thread taken for another\<close>

text \<open>A process in which the thread with the id \<open>tid\<close> is taken for another.\<close>

definition mistaken :: "pid \<Rightarrow> proc \<Rightarrow> bool" where
  "mistaken tid pr =
     (table_ok (p_world pr) \<and> tid \<in> tracked (p_world pr) \<and> w_sud (p_world pr) tid = None \<and>
      (\<exists>tm. p_tmon pr = Some tm \<and> tab_wf (tm_known tm) \<and> tid \<in> known tm))"

lemma mistaken_discover:
  assumes "responsive alive env" "mistaken tid pr" "lists names tids" "tid \<in> set tids"
  shows "\<exists>pr'. Session_discover_threads env names pr = Inr pr' \<and> mistaken tid pr'"
proof -
  let ?Q = "\<lambda>w. table_ok w \<and> tid \<in> tracked w \<and> w_sud w tid = None"
  obtain tm where tm: "p_tmon pr = Some tm" "tab_wf (tm_known tm)" "tid \<in> known tm" "?Q (p_world pr)"
    using assms(2) by (auto simp: mistaken_def)
  have "?Q w'" if "t \<noteq> tid" "?Q w" "thd_track env t st w = Inr w'" for t st w w'
    using track_acts [OF _ assms(1), of w t st] that by (cases st) (auto simp: acts_ok_def)
  then have Q: "loose.apart env tid ?Q" unfolding loose.apart_def by blast
  have inv: "responsive alive env \<and> table_ok (p_world pr)" using assms(1) tm(4) by simp
  have "w_global (p_world pr)" using tm(4) by (simp add: table_ok_def)
  moreover from loose.rescan_frame [where Q = ?Q, OF inv assms(3) tm(2) assms(4) tm(3,4) Q] obtain tm' w' where
    "rescan_threads (thd_track env) names (tm, p_world pr) = Inr (tm', w')" "tab_wf (tm_known tm')"
    "tid \<in> known tm'" "?Q w'"
    by auto
  ultimately show ?thesis
    using tm(1) by (auto simp: Session_discover_threads_def ActiveSession_discover_threads_def mistaken_def)
qed

lemma mistaken_add:
  "mistaken tid pr \<Longrightarrow> Session_add env tid pr = Inr pr \<and> Session_add_self env tid pr = Inr pr"
  by (simp add: mistaken_def table_ok_def Session_add_def Session_add_self_def on_session_def
      thd_enable_noop thd_enable_self_noop)

section \<open>Properties\<close>

text \<open>
  C36. A thread that gets the id of a tracked thread which has ended is never intercepted, as long as
  every scan lists the id: however many scans follow, each succeeds and leaves the id tracked and
  the new thread without dispatch, and adding the thread by hand does nothing either.
\<close>

theorem reused_id_not_intercepted:
  assumes "sess_ok alive pr" "responsive alive env" "tid \<in> tracked (p_world pr)"
    and "p_tmon pr = Some tm" "tid \<in> known tm"
    and "\<forall>names \<in> set seen. \<exists>tids. lists names tids \<and> tid \<in> set tids"
  shows "\<exists>pr'. rfold (Session_discover_threads env) seen (no_dispatch tid pr) = Inr pr' \<and>
    tid \<in> tracked (p_world pr') \<and> w_sud (p_world pr') tid = None \<and>
    Session_add env tid pr' = Inr pr' \<and> Session_add_self env tid pr' = Inr pr'"
proof -
  have "mistaken tid (no_dispatch tid pr)"
    using assms(1,3-5) by (auto simp: mistaken_def no_dispatch_def sess_ok_def world_ok_def table_ok_def tracked_def)
  then have "\<exists>pr'. rfold (Session_discover_threads env) seen (no_dispatch tid pr) = Inr pr' \<and> mistaken tid pr'"
    by (intro rfold_total) (use assms(6) mistaken_discover [OF assms(2)] in blast)+
  then show ?thesis using mistaken_add by (auto simp: mistaken_def)
qed

theorem reused_id_not_intercepted_witness:
  "\<exists>pr'. rfold (Session_discover_threads demo_env) [map dec_text [1, 4, 9]] (no_dispatch 1 (demo_busy True)) = Inr pr' \<and>
     1 \<in> tracked (p_world pr') \<and> w_sud (p_world pr') 1 = None \<and> Session_add demo_env 1 pr' = Inr pr'"
proof -
  have "1 \<in> tracked (p_world (demo_busy True))" by (simp add: tracked_def demo_busy_def)
  moreover have "1 \<in> known (thdmon0\<lparr>tm_poll := True, tm_gen := 1, tm_known := [(9, 1), (1, 1)]\<rparr>)"
    by (simp add: known_def)
  moreover have "\<forall>names \<in> set [map dec_text [1, 4, 9]]. \<exists>tids. lists names tids \<and> 1 \<in> set tids"
    using demo_lists(2) by fastforce
  ultimately show ?thesis
    using reused_id_not_intercepted [OF demo_busy_ok demo_env_ok _ demo_busy_sel(2)] by fast
qed

section \<open>A second session\<close>

text \<open>
  A handler of events leaves the threads alone that the plan does not select: they get no entry, and
  their dispatch settings stay what they were (\<open>x\<close>).
\<close>

interpretation second: evt_handler "thd_track env"
    "\<lambda>w. responsive alive env \<and> table_ok w \<and> selected w = sl \<and> (\<forall>t. \<not> sl t \<longrightarrow> t \<notin> tracked w \<and> w_sud w t = x t)"
    tracked selected
  for env alive sl x
proof
  fix w tid st
  assume w: "responsive alive env \<and> table_ok w \<and> selected w = sl \<and> (\<forall>t. \<not> sl t \<longrightarrow> t \<notin> tracked w \<and> w_sud w t = x t)"
  show "\<exists>w'. thd_track env tid st w = Inr w' \<and>
      (responsive alive env \<and> table_ok w' \<and> selected w' = sl \<and> (\<forall>t. \<not> sl t \<longrightarrow> t \<notin> tracked w' \<and> w_sud w' t = x t)) \<and>
      tracked w' = track_set (selected w) tid st (tracked w) \<and> selected w' = selected w"
  proof (cases "selected w tid")
    case True
    from track_acts [of w alive env tid st] w obtain w' where w': "thd_track env tid st w = Inr w'" "table_ok w'"
      "tracked w' = track_set (selected w) tid st (tracked w)" "selected w' = selected w"
      "\<forall>t. t \<noteq> tid \<longrightarrow> w_sud w' t = w_sud w t"
      by (auto simp: acts_ok_def)
    have "t \<notin> tracked w' \<and> w_sud w' t = x t" if "\<not> sl t" for t
    proof -
      have "t \<noteq> tid" "t \<notin> tracked w" "w_sud w t = x t" using True that w by auto
      with w'(3,5) show ?thesis by (cases st) auto
    qed
    with w w' show ?thesis by auto
  next
    case False
    with w have "thd_track env tid st w = Inr w" "track_set (selected w) tid st (tracked w) = tracked w"
      by (cases st; simp add: thd_enable_noop thd_disable_noop)+
    with w show ?thesis by auto
  qed
qed

text \<open>A plan that selects thread 2 only.\<close>

definition demo_second_plan :: plan where
  "demo_second_plan = demo_poll_plan\<lparr>pl_selector := (\<lambda>tid. tid = 2)\<rparr>"

lemma demo_second_found: "first_found demo_second_plan demo_os [1, 2, 3, 9]"
  using demo_found(1) by (simp add: first_found_def demo_second_plan_def)

text \<open>
  C37. A second session, with any plan, started while one is active replaces it without disabling its
  threads. Those the second plan selects among the threads found are tracked again; every living
  thread the first session tracked and the second plan does not select is no longer in any table, yet
  the kernel still dispatches its calls, through a selector byte in the table that was freed.
\<close>

theorem second_session_dangles:
  assumes "sess_ok alive pr" "responsive alive env" "can_start os text" "first_found plan os tids"
  shows "\<exists>pr'. Session rnd env os plan pr = Inr pr' \<and> tracked (p_world pr') = first_tracked plan os tids \<and>
    (\<forall>tid. alive tid \<and> tid \<in> tracked (p_world pr) \<and> \<not> pl_selector plan tid \<longrightarrow>
      tid \<notin> tracked (p_world pr') \<and> w_sud (p_world pr') tid = Some (text_range (w_self_text (p_world pr))))"
proof -
  let ?w = "first_world rnd plan text (p_world pr)"
  obtain m where m: "get_mmap (os_maps os) = Inr (Some m)" "self_text m = Inr text" "os_exists os"
    using assms(3) by (auto simp: can_start_def)
  obtain sigs where sigs: "install_handlers (os_sig_ok os) (p_sigs pr) = Inr sigs"
    using install_handlers_total assms(3) by (fastforce simp: can_start_def)
  have w: "table_ok ?w" "tracked ?w = {}" "selected ?w = pl_selector plan" "w_sud ?w = w_sud (p_world pr)"
    by (simp_all add: first_world_def table_ok_def tracked_def tab_wf_def tab_find_def selected_def fun_eq_iff)
  then have "responsive alive env \<and> table_ok ?w \<and> selected ?w = pl_selector plan \<and>
      (\<forall>t. \<not> pl_selector plan t \<longrightarrow> t \<notin> tracked ?w \<and> w_sud ?w t = w_sud (p_world pr) t)"
    using assms(2) by simp
  from second.first_scan [OF this w(2,3) assms(4)] obtain tm w' where
    w': "ThdMon (pl_thd_disc plan) (thd_track env) True (os_self os) (os_turns os) (os_names os) ?w = Inr (tm, w')"
      "\<forall>t. \<not> pl_selector plan t \<longrightarrow> t \<notin> tracked w' \<and> w_sud w' t = w_sud (p_world pr) t"
      "tracked w' = first_tracked plan os tids"
    by blast
  then obtain pr' where "Session rnd env os plan pr = Inr pr'" "p_world pr' = w'"
    using Session_eq [OF m(1,2) sigs, of rnd env plan] m(3) by auto
  moreover have "w_sud (p_world pr) tid = Some (text_range (w_self_text (p_world pr)))"
    if "alive tid" "tid \<in> tracked (p_world pr)" for tid
    using assms(1) that by (auto simp: sess_ok_def world_ok_def tracked_iff)
  ultimately show ?thesis using w'(2,3) by auto
qed

theorem second_session_dangles_witness:
  "\<exists>pr pr'. Session Fin demo_env demo_os demo_poll_plan demo_proc = Inr pr \<and> tracked (p_world pr) = {1, 2} \<and>
     Session Fin demo_env demo_os demo_second_plan pr = Inr pr' \<and> 2 \<in> tracked (p_world pr') \<and>
     1 \<notin> tracked (p_world pr') \<and> w_sud (p_world pr') 1 \<noteq> None"
proof -
  from start_ok [OF demo_idle demo_env_ok demo_can_start demo_found(1), of Fin] obtain pr where
    pr: "Session Fin demo_env demo_os demo_poll_plan demo_proc = Inr pr" "sess_ok (\<lambda>_. True) pr"
      "tracked (p_world pr) = {1, 2}"
    by auto
  have "2 \<in> first_tracked demo_second_plan demo_os [1, 2, 3, 9]" "\<not> pl_selector demo_second_plan 1"
    by (simp_all add: first_tracked_def demo_second_plan_def demo_os_def)
  moreover from second_session_dangles [OF pr(2) demo_env_ok demo_can_start demo_second_found, of Fin] obtain pr' where
    "Session Fin demo_env demo_os demo_second_plan pr = Inr pr'"
    "tracked (p_world pr') = first_tracked demo_second_plan demo_os [1, 2, 3, 9]"
    "\<forall>tid. tid \<in> tracked (p_world pr) \<and> \<not> pl_selector demo_second_plan tid \<longrightarrow>
      tid \<notin> tracked (p_world pr') \<and> w_sud (p_world pr') tid \<noteq> None"
    by auto
  ultimately show ?thesis using pr(1,3) by auto
qed

end
