(* ===== verification/Teardown.thy ===== *)
theory Teardown
  imports Session
begin

text \<open>
  The destructor of a session among the threads that may run beside it: \<open>Session::~Session\<close>, the
  calls of the API and their locks, and \<open>ThdMon::process\<close> with its mutex, as a step relation. The
  steps of the destructor are those of \<open>Session_destroy\<close>, one thread at a time, and the steps of
  the poller are those of \<open>scan_tasks\<close>, one entry at a time.
\<close>

section \<open>The lock of a session\<close>

record rw =
  rw_readers :: nat
  rw_writer :: bool

text \<open>\<open>std::shared_mutex\<close>; \<open>None\<close> is a wait.\<close>

definition lock_shared :: "rw \<Rightarrow> rw option" where
  "lock_shared l = (if rw_writer l then None else Some (l\<lparr>rw_readers := rw_readers l + 1\<rparr>))"

definition unlock_shared :: "rw \<Rightarrow> rw" where
  "unlock_shared l = l\<lparr>rw_readers := rw_readers l - 1\<rparr>"

definition lock_unique :: "rw \<Rightarrow> rw option" where
  "lock_unique l = (if rw_writer l \<or> 0 < rw_readers l then None else Some (l\<lparr>rw_writer := True\<rparr>))"

definition unlock_unique :: "rw \<Rightarrow> rw" where
  "unlock_unique l = l\<lparr>rw_writer := False\<rparr>"

lemmas rw_defs = lock_shared_def unlock_shared_def lock_unique_def unlock_unique_def

section \<open>States\<close>

text \<open>
  The destructor: before the lock, disabling the threads of its list, past the assertion, past the
  reset of the global pointer, waiting for the poller, done; or stopped by the assertion.
\<close>

datatype dpc = D_Start | D_Disable "pid list" | D_Reset | D_Stop | D_Join | D_Done | D_Failed

text \<open>The poller: waiting with its mutex free, or scanning with its mutex held, or ended.\<close>

datatype ppc = P_Wait | P_Visit "string list" | P_Drop "pid list" | P_Gone

text \<open>A thread that uses the API: outside, holding the lock, leaving, or stopped by an error.\<close>

datatype kpc = K_Out | K_In api | K_Back | K_Failed fault

text \<open>\<open>td_new\<close> collects the threads the poller has added since the destructor made its list.\<close>

record td =
  td_pr :: proc
  td_lck :: rw
  td_d :: dpc
  td_p :: ppc
  td_k :: "nat \<Rightarrow> kpc"
  td_new :: "pid set"

definition locked :: "dpc \<Rightarrow> bool" where
  "locked d = (case d of D_Disable _ \<Rightarrow> True | D_Reset \<Rightarrow> True | D_Failed \<Rightarrow> True | _ \<Rightarrow> False)"

definition after_reset :: "dpc \<Rightarrow> bool" where
  "after_reset d = (d \<in> {D_Stop, D_Join, D_Done})"

text \<open>The poller's mutex is held while it scans.\<close>

definition mutex_free :: "ppc \<Rightarrow> bool" where
  "mutex_free p = (p = P_Wait \<or> p = P_Gone)"

text \<open>A rescan takes the poller's mutex; without a poller it takes none.\<close>

fun may_run :: "api \<Rightarrow> ppc \<Rightarrow> bool" where
  "may_run (Api_discover names) p = mutex_free p"
| "may_run _ p = True"

definition put :: "thdmon \<times> world \<Rightarrow> proc \<Rightarrow> proc" where
  "put tw pr = pr\<lparr>p_tmon := Some (fst tw), p_world := snd tw\<rparr>"

text \<open>The last reference to the session goes: monitor and table are destroyed.\<close>

definition free_session :: "proc \<Rightarrow> proc" where
  "free_session pr = drop_tmon (pr\<lparr>p_world := (p_world pr)\<lparr>w_thds := []\<rparr>\<rparr>)"

section \<open>Steps\<close>

text \<open>The destructor.\<close>

inductive dstep :: "env \<Rightarrow> td \<Rightarrow> td \<Rightarrow> bool" for env where
  d_lock: "td_d s = D_Start \<Longrightarrow> lock_unique (td_lck s) = Some l \<Longrightarrow>
    dstep env s (s\<lparr>td_lck := l, td_d := D_Disable (map fst (w_thds (p_world (td_pr s)))), td_new := {}\<rparr>)"
| d_disable: "td_d s = D_Disable (tid # tids) \<Longrightarrow> thd_disable env tid (p_world (td_pr s)) = Inr w \<Longrightarrow>
    dstep env s (s\<lparr>td_pr := (td_pr s)\<lparr>p_world := w\<rparr>, td_d := D_Disable tids\<rparr>)"
| d_check: "td_d s = D_Disable [] \<Longrightarrow>
    dstep env s (s\<lparr>td_d := if w_thds (p_world (td_pr s)) = [] then D_Reset else D_Failed\<rparr>)"
| d_reset: "td_d s = D_Reset \<Longrightarrow>
    dstep env s (s\<lparr>td_pr := (td_pr s)\<lparr>p_world := (p_world (td_pr s))\<lparr>w_global := False\<rparr>\<rparr>,
      td_lck := unlock_unique (td_lck s), td_d := D_Stop\<rparr>)"
| d_stop: "td_d s = D_Stop \<Longrightarrow> mutex_free (td_p s) \<Longrightarrow> p_tmon (td_pr s) = Some tm \<Longrightarrow>
    dstep env s (s\<lparr>td_pr := (td_pr s)\<lparr>p_tmon := Some (if tm_poll tm then tm\<lparr>tm_stop := True\<rparr> else tm)\<rparr>,
      td_d := D_Join\<rparr>)"
| d_join: "td_d s = D_Join \<Longrightarrow> td_p s = P_Gone \<Longrightarrow>
    dstep env s (s\<lparr>td_pr := free_session (td_pr s), td_d := D_Done\<rparr>)"

text \<open>The polling thread.\<close>

inductive pstep :: "env \<Rightarrow> td \<Rightarrow> td \<Rightarrow> bool" for env where
  p_wake: "td_p s = P_Wait \<Longrightarrow> p_tmon (td_pr s) = Some tm \<Longrightarrow> \<not> tm_stop tm \<Longrightarrow> lists names tids \<Longrightarrow>
    pstep env s (s\<lparr>td_pr := (td_pr s)\<lparr>p_tmon := Some (tm\<lparr>tm_gen := tm_gen tm + 1\<rparr>)\<rparr>, td_p := P_Visit names\<rparr>)"
| p_end: "td_p s = P_Wait \<Longrightarrow> p_tmon (td_pr s) = Some tm \<Longrightarrow> tm_stop tm \<Longrightarrow>
    pstep env s (s\<lparr>td_pr := (td_pr s)\<lparr>p_tmon := Some (tm\<lparr>tm_gen := tm_gen tm + 1\<rparr>)\<rparr>, td_p := P_Gone\<rparr>)"
| p_visit: "td_p s = P_Visit (name # names) \<Longrightarrow> p_tmon (td_pr s) = Some tm \<Longrightarrow>
    visit_entry (thd_track env) name (tm, p_world (td_pr s)) = Inr tw \<Longrightarrow>
    pstep env s (s\<lparr>td_pr := put tw (td_pr s), td_p := P_Visit names,
      td_new := td_new s \<union> (tracked (snd tw) - tracked (p_world (td_pr s)))\<rparr>)"
| p_visited: "td_p s = P_Visit [] \<Longrightarrow> p_tmon (td_pr s) = Some tm \<Longrightarrow>
    pstep env s (s\<lparr>td_p := P_Drop (to_remove tm)\<rparr>)"
| p_drop: "td_p s = P_Drop (tid # tids) \<Longrightarrow> p_tmon (td_pr s) = Some tm \<Longrightarrow>
    drop_entry (thd_track env) tid (tm, p_world (td_pr s)) = Inr tw \<Longrightarrow>
    pstep env s (s\<lparr>td_pr := put tw (td_pr s), td_p := P_Drop tids\<rparr>)"
| p_dropped: "td_p s = P_Drop [] \<Longrightarrow> pstep env s (s\<lparr>td_p := P_Wait\<rparr>)"

text \<open>The users of the API.\<close>

inductive kstep :: "env \<Rightarrow> (pid \<Rightarrow> bool) \<Rightarrow> td \<Rightarrow> td \<Rightarrow> bool" for env alive where
  k_lock: "td_k s k = K_Out \<Longrightarrow> api_ok alive op \<Longrightarrow> lock_shared (td_lck s) = Some l \<Longrightarrow>
    kstep env alive s (s\<lparr>td_lck := l, td_k := (td_k s)(k := K_In op)\<rparr>)"
| k_run: "td_k s k = K_In op \<Longrightarrow> may_run op (td_p s) \<Longrightarrow> run_api env op (td_pr s) = Inr pr \<Longrightarrow>
    kstep env alive s (s\<lparr>td_pr := pr, td_k := (td_k s)(k := K_Back)\<rparr>)"
| k_fail: "td_k s k = K_In op \<Longrightarrow> may_run op (td_p s) \<Longrightarrow> run_api env op (td_pr s) = Inl e \<Longrightarrow>
    kstep env alive s (s\<lparr>td_k := (td_k s)(k := K_Failed e)\<rparr>)"
| k_unlock: "td_k s k = K_Back \<Longrightarrow>
    kstep env alive s (s\<lparr>td_lck := unlock_shared (td_lck s), td_k := (td_k s)(k := K_Out)\<rparr>)"

definition tstep :: "env \<Rightarrow> (pid \<Rightarrow> bool) \<Rightarrow> td \<Rightarrow> td \<Rightarrow> bool" where
  "tstep env alive s s' = (dstep env s s' \<or> pstep env s s' \<or> kstep env alive s s')"

section \<open>A session whose pointer is reset\<close>

text \<open>
  The table is still there for the poller, but the handlers find no session: the semaphores are
  free and no living thread is dispatched, but for those that came too late for the destructor.
\<close>

definition closed :: "pid set \<Rightarrow> (pid \<Rightarrow> bool) \<Rightarrow> world \<Rightarrow> bool" where
  "closed late alive w =
     (tab_wf (w_thds w) \<and> \<not> w_global w \<and> (\<forall>tid st. tab_find (w_thds w) tid = Some st \<longrightarrow> ts_sem st = 1) \<and>
      (\<forall>tid. alive tid \<longrightarrow> tid \<notin> late \<longrightarrow> w_sud w tid = None))"

definition world_at :: "dpc \<Rightarrow> pid set \<Rightarrow> (pid \<Rightarrow> bool) \<Rightarrow> world \<Rightarrow> bool" where
  "world_at d late alive w = (if after_reset d then closed late alive w else world_ok alive w)"

lemma thd_enable_closed:
  assumes "responsive alive env" "\<not> w_global w" "selected w tid" "tid \<notin> tracked w"
  shows "thd_enable env tid w = Inr (w\<lparr>w_thds := tab_insert tid ThdState (w_thds w)\<rparr>)"
proof (cases "alive tid")
  case True
  then have "e_tgsig env tid SIG_ENABLE = 0" "e_runs env tid SIG_ENABLE"
    using assms(1) by (auto simp: responsive_def)
  then show ?thesis using assms(2-4)
    by (simp add: thd_enable_def tracked_iff ptr_defs thd_mod_def ThdState_def sem_defs
        signal_thd_def send_signal_0 enable_sysfail_def tab_update_insert)
qed (use thd_enable_dead [OF assms(1) _ assms(3,4)] in simp)

lemma thd_disable_closed:
  assumes "responsive alive env" "\<not> w_global w" "tab_find (w_thds w) tid = Some st" "ts_sem st = 1"
  shows "thd_disable env tid w = Inr (w\<lparr>w_thds := tab_erase tid (w_thds w)\<rparr>)"
proof (cases "alive tid")
  case True
  then have "e_tgsig env tid SIG_DISABLE = 0" "e_runs env tid SIG_DISABLE"
    using assms(1) by (auto simp: responsive_def)
  then show ?thesis using assms(2-4)
    by (simp add: thd_disable_def ptr_defs thd_mod_def sem_defs signal_thd_def send_signal_0 disable_sysfail_def)
qed (use thd_disable_dead [OF assms(1) _ assms(3,4)] in simp)

lemma track_closed:
  assumes env: "responsive alive env" and w: "closed late alive w"
  shows "\<exists>w'. thd_track env tid st w = Inr w' \<and> closed late alive w' \<and>
    tracked w' = track_set (selected w) tid st (tracked w) \<and> selected w' = selected w \<and> w_sud w' = w_sud w"
proof -
  have g: "\<not> w_global w" using w by (simp add: closed_def)
  have en: "\<exists>w'. thd_enable env tid w = Inr w' \<and> closed late alive w' \<and> selected w' = selected w \<and>
      w_sud w' = w_sud w \<and> tracked w' = (if selected w tid then insert tid (tracked w) else tracked w)"
  proof (cases "selected w tid \<and> tid \<notin> tracked w")
    case True
    with thd_enable_closed [OF env g, of tid] w show ?thesis
      by (auto simp: closed_def ThdState_def selected_def tracked_iff)
  qed (use w in \<open>auto simp: thd_enable_noop\<close>)
  have di: "\<exists>w'. thd_disable env tid w = Inr w' \<and> closed late alive w' \<and> selected w' = selected w \<and>
      w_sud w' = w_sud w \<and> tracked w' = tracked w - {tid}"
  proof (cases "tab_find (w_thds w) tid")
    case None
    with w show ?thesis by (auto simp: thd_disable_noop tracked_iff)
  next
    case (Some st)
    with w have "ts_sem st = 1" by (simp add: closed_def)
    with thd_disable_closed [OF env g Some] w show ?thesis by (auto simp: closed_def selected_def)
  qed
  show ?thesis using en di w by (cases st) auto
qed

text \<open>So the monitor's handler does its part before and after the reset.\<close>

interpretation dying: evt_handler "thd_track env" "\<lambda>w. responsive alive env \<and> world_at d late alive w" tracked selected
  for env alive d late
proof
  fix w tid st
  assume "responsive alive env \<and> world_at d late alive w"
  then show "\<exists>w'. thd_track env tid st w = Inr w' \<and> (responsive alive env \<and> world_at d late alive w') \<and>
      tracked w' = track_set (selected w) tid st (tracked w) \<and> selected w' = selected w"
    using track_closed [of alive env late w tid st] trk.h_track [OF trk_ok_refl, of alive env w tid st]
    by (auto simp: world_at_def trk_ok_def split: if_splits)
qed

section \<open>The invariant\<close>

definition inside :: "(nat \<Rightarrow> kpc) \<Rightarrow> nat set" where
  "inside ks = {k. ks k \<noteq> K_Out}"

definition lock_ok :: "td \<Rightarrow> bool" where
  "lock_ok s =
     (finite (inside (td_k s)) \<and> rw_readers (td_lck s) = card (inside (td_k s)) \<and>
      rw_writer (td_lck s) = locked (td_d s) \<and> (rw_writer (td_lck s) \<longrightarrow> rw_readers (td_lck s) = 0))"

text \<open>What is left of the table at each position of the destructor.\<close>

fun left_ok :: "dpc \<Rightarrow> pid set \<Rightarrow> pid set \<Rightarrow> bool" where
  "left_ok (D_Disable tids) late T = (T \<subseteq> set tids \<union> late)"
| "left_ok D_Reset late T = (T \<subseteq> late)"
| "left_ok D_Failed late T = (late \<noteq> {})"
| "left_ok _ late T = True"

definition mon_there :: "td \<Rightarrow> bool" where
  "mon_there s =
     (if td_d s = D_Done then td_p s = P_Gone \<and> p_tmon (td_pr s) = None \<and> w_thds (p_world (td_pr s)) = []
      else \<exists>tm. p_tmon (td_pr s) = Some tm \<and> tab_wf (tm_known tm) \<and> (td_p s \<noteq> P_Gone \<longrightarrow> tm_poll tm) \<and>
        (td_d s = D_Join \<longrightarrow> td_p s = P_Gone \<or> td_p s = P_Wait \<and> tm_stop tm))"

definition names_ok :: "ppc \<Rightarrow> bool" where
  "names_ok p = (case p of P_Visit names \<Rightarrow> \<exists>tids. lists names tids | _ \<Rightarrow> True)"

definition client_ok :: "(pid \<Rightarrow> bool) \<Rightarrow> dpc \<Rightarrow> kpc \<Rightarrow> bool" where
  "client_ok alive d k =
     (case k of K_In op \<Rightarrow> api_ok alive op | K_Failed e \<Rightarrow> after_reset d \<and> e = Undefined ''null session'' | _ \<Rightarrow> True)"

definition td_ok :: "(pid \<Rightarrow> bool) \<Rightarrow> td \<Rightarrow> bool" where
  "td_ok alive s =
     (lock_ok s \<and> world_at (td_d s) (td_new s) alive (p_world (td_pr s)) \<and>
      left_ok (td_d s) (td_new s) (tracked (p_world (td_pr s))) \<and> mon_there s \<and> names_ok (td_p s) \<and>
      (\<forall>k. client_ok alive (td_d s) (td_k s k)))"

lemmas pos_defs = locked_def after_reset_def mutex_free_def

lemma inside_upd [simp]:
  "inside (ks(k := K_Out)) = inside ks - {k}"
  "x \<noteq> K_Out \<Longrightarrow> inside (ks(k := x)) = insert k (inside ks)"
  by (auto simp: inside_def)

lemma inside_iff: "k \<in> inside ks \<longleftrightarrow> ks k \<noteq> K_Out"
  by (simp add: inside_def)

text \<open>The destructor keeps everyone out while it holds the lock.\<close>

lemma locked_alone: "td_ok alive s \<Longrightarrow> locked (td_d s) \<Longrightarrow> td_k s k = K_Out"
  by (auto simp: td_ok_def lock_ok_def inside_def)

lemma sess_at:
  "td_ok alive s \<Longrightarrow> \<not> after_reset (td_d s) \<Longrightarrow> sess_ok alive (td_pr s)"
  by (auto simp: td_ok_def world_at_def mon_there_def sess_ok_def after_reset_def)

lemmas ok_defs = td_ok_def lock_ok_def world_at_def mon_there_def client_ok_def pos_defs

lemma d_ok:
  assumes "dstep env s s'" and ok: "td_ok alive s" and env: "responsive alive env"
  shows "td_ok alive s'"
  using assms(1)
proof cases
  case (d_lock l)
  then show ?thesis using ok by (auto simp: ok_defs rw_defs tracked_def split: if_splits kpc.splits)
next
  case (d_disable tid tids w)
  then have "world_ok alive (p_world (td_pr s))" using ok by (simp add: ok_defs)
  from thd_disable_step [OF this env, of tid] d_disable(3)
  have "world_ok alive w" "tracked w = tracked (p_world (td_pr s)) - {tid}" by (auto simp: step_ok_def)
  with ok d_disable show ?thesis by (auto simp: ok_defs split: kpc.splits)
next
  case d_check
  then show ?thesis using ok by (auto simp: ok_defs tracked_def split: kpc.splits)
next
  case d_reset
  then have w: "world_ok alive (p_world (td_pr s))" and t: "tracked (p_world (td_pr s)) \<subseteq> td_new s"
    using ok by (simp_all add: ok_defs)
  have "closed (td_new s) alive ((p_world (td_pr s))\<lparr>w_global := False\<rparr>)"
    using w subsetD [OF t] by (auto simp: closed_def world_ok_def tracked_iff)
  then show ?thesis using ok d_reset by (auto simp: ok_defs rw_defs split: kpc.splits)
next
  case (d_stop tm)
  then show ?thesis using ok by (auto simp: ok_defs split: kpc.splits)
next
  case d_join
  then show ?thesis using ok
    by (auto simp: ok_defs free_session_def drop_tmon_def closed_def tab_wf_def split: kpc.splits option.splits)
qed

text \<open>More threads that came late do no harm to what is known of the others.\<close>

lemma world_at_mono: "world_at d late alive w \<Longrightarrow> late \<subseteq> late' \<Longrightarrow> world_at d late' alive w"
  unfolding world_at_def closed_def by (metis subsetD)

lemma left_ok_grow: "left_ok d late T \<Longrightarrow> T' \<subseteq> T \<union> N \<Longrightarrow> left_ok d (late \<union> N) T'"
  by (cases d) auto

lemma left_ok_shrink: "left_ok d late T \<Longrightarrow> T' \<subseteq> T \<Longrightarrow> left_ok d late T'"
  by (cases d) auto

lemma td_ok_put:
  assumes "td_ok alive s" "p_tmon (td_pr s) = Some tm"
    and "world_at (td_d s) late alive (snd tw)" "left_ok (td_d s) late (tracked (snd tw))"
    and "tab_wf (tm_known (fst tw))" "names_ok p"
    and "td_p s \<noteq> P_Gone" "td_p s \<noteq> P_Wait" "tm_poll (fst tw) = tm_poll tm"
  shows "td_ok alive (s\<lparr>td_pr := put tw (td_pr s), td_p := p, td_new := late\<rparr>)"
  using assms by (auto simp: td_ok_def lock_ok_def mon_there_def put_def split: if_splits)

text \<open>Scanning leaves the monitor as it is, but for the generation and the known threads.\<close>

lemma visit_poll: "visit_entry h name (tm, w) = Inr tw \<Longrightarrow> tm_poll (fst tw) = tm_poll tm"
  by (auto simp: visit_entry_def rbind_Inr_conv split: option.splits)

lemma drop_poll: "drop_entry h tid (tm, w) = Inr tw \<Longrightarrow> tm_poll (fst tw) = tm_poll tm"
  by (auto simp: drop_entry_def rbind_Inr_conv)

lemma rescan_poll:
  assumes "rescan_threads h names (tm, w) = Inr (tm', w')"
  shows "tm_poll tm' = tm_poll tm"
proof -
  let ?tm = "if tm_poll tm then tm\<lparr>tm_gen := tm_gen tm + 1\<rparr> else tm"
  obtain tm1 w1 where
    v: "rfold (visit_entry h) names (?tm, w) = Inr (tm1, w1)" "rfold (drop_entry h) (to_remove tm1) (tm1, w1) = Inr (tm', w')"
    using assms by (auto simp: rescan_threads_def scan_tasks_def rbind_Inr_conv split: if_splits)
  have "tm_poll (fst (tm1, w1)) = tm_poll tm"
    by (rule rfold_invariant [OF v(1)]) (auto dest: visit_poll)
  then have "tm_poll (fst (tm', w')) = tm_poll tm"
    by (intro rfold_invariant [OF v(2), where I = "\<lambda>tw. tm_poll (fst tw) = tm_poll tm"]) (auto dest: drop_poll)
  then show ?thesis by simp
qed

lemma run_api_poll:
  assumes "run_api env op pr = Inr pr'" "p_tmon pr = Some tm" "p_tmon pr' = Some tm'"
  shows "tm_poll tm' = tm_poll tm"
  using assms
  by (cases op)
    (auto simp: Session_add_def Session_remove_def Session_add_self_def Session_remove_self_def on_session_def
      Session_discover_threads_def ActiveSession_discover_threads_def rbind_Inr_conv
      split: if_splits dest: rescan_poll)

lemma mon_known: "td_ok alive s \<Longrightarrow> p_tmon (td_pr s) = Some tm \<Longrightarrow> tab_wf (tm_known tm)"
  by (simp add: td_ok_def mon_there_def split: if_splits)

lemma p_ok:
  assumes "pstep env s s'" and ok: "td_ok alive s" and env: "responsive alive env"
  shows "td_ok alive s'"
proof -
  let ?w = "p_world (td_pr s)"
  have w: "responsive alive env \<and> world_at (td_d s) (td_new s) alive ?w" using ok env by (simp add: td_ok_def)
  show ?thesis
    using assms(1)
  proof cases
    case (p_visit name names tm tw)
    then obtain tid tids where tid: "stoi name = Inr tid" "lists names tids"
      using ok by (auto simp: td_ok_def names_ok_def)
    from dying.visit_entry_ok [OF w tid(1), of tm] p_visit(4) have
      w': "world_at (td_d s) (td_new s) alive (snd tw)" and tm': "tm_known (fst tw) =
        tab_update tid (tm_gen tm) (tab_insert tid (tm_gen tm) (tm_known tm))"
      by auto
    let ?new = "tracked (snd tw) - tracked ?w"
    have "tab_wf (tm_known (fst tw))" using mon_known [OF ok p_visit(3)] by (simp add: tm')
    moreover have "left_ok (td_d s) (td_new s \<union> ?new) (tracked (snd tw))"
      by (rule left_ok_grow [of _ _ "tracked ?w"]) (use ok in \<open>auto simp: td_ok_def\<close>)
    moreover have "names_ok (P_Visit names)" using tid(2) by (auto simp: names_ok_def)
    ultimately show ?thesis
      unfolding p_visit(1) using p_visit(2) visit_poll [OF p_visit(4)]
      by (intro td_ok_put [OF ok p_visit(3) world_at_mono [OF w' Un_upper1]]) simp_all
  next
    case (p_drop tid tids tm tw)
    from dying.h_track [OF w, of tid Terminated] obtain v where
      v: "thd_track env tid Terminated ?w = Inr v" "world_at (td_d s) (td_new s) alive v" "tracked v = tracked ?w - {tid}"
      by auto
    then have tw: "tw = (tm\<lparr>tm_known := tab_erase tid (tm_known tm)\<rparr>, v)"
      using p_drop(4) by (simp add: drop_entry_def)
    have w': "world_at (td_d s) (td_new s) alive (snd tw)" and t: "tracked (snd tw) = tracked ?w - {tid}"
      and tm': "tm_known (fst tw) = tab_erase tid (tm_known tm)"
      using v by (simp_all add: tw)
    have "tab_wf (tm_known (fst tw))" using mon_known [OF ok p_drop(3)] by (simp add: tm')
    moreover have "left_ok (td_d s) (td_new s) (tracked (snd tw))"
      by (rule left_ok_shrink [of _ _ "tracked ?w"]) (use ok in \<open>auto simp: td_ok_def t\<close>)
    ultimately show ?thesis
      using td_ok_put [OF ok p_drop(3) w', of "P_Drop tids"] p_drop(1,2) drop_poll [OF p_drop(4)]
      by (simp add: names_ok_def)
  qed (use ok in \<open>auto simp: td_ok_def lock_ok_def mon_there_def names_ok_def split: if_splits\<close>)
qed

lemma k_ok:
  assumes "kstep env alive s s'" and ok: "td_ok alive s" and env: "responsive alive env"
  shows "td_ok alive s'"
  using assms(1)
proof cases
  case (k_lock k op l)
  then show ?thesis using ok
    by (auto simp: td_ok_def lock_ok_def client_ok_def rw_defs mon_there_def inside_iff split: if_splits)
next
  case (k_run k op pr)
  have n: "\<not> locked (td_d s)" using locked_alone [OF ok, of k] k_run(2) by auto
  have r: "\<not> after_reset (td_d s)"
  proof
    assume "after_reset (td_d s)"
    then have "\<not> w_global (p_world (td_pr s))" using ok by (simp add: td_ok_def world_at_def closed_def)
    with api_needs_session [of "td_pr s" env op] k_run(4) show False by simp
  qed
  have "api_ok alive op" using ok k_run(2) by (auto simp: td_ok_def client_ok_def dest: spec [of _ k])
  from run_api_step [OF sess_at [OF ok r] env this] k_run(4) have "sess_ok alive pr" by auto
  then obtain tm' where tm': "world_ok alive (p_world pr)" "p_tmon pr = Some tm'" "tab_wf (tm_known tm')"
    by (auto simp: sess_ok_def)
  have d: "td_d s = D_Start" using n r by (cases "td_d s") (simp_all add: pos_defs)
  then obtain tm where tm: "p_tmon (td_pr s) = Some tm" "td_p s \<noteq> P_Gone \<longrightarrow> tm_poll tm"
    using ok by (auto simp: td_ok_def mon_there_def)
  have "mon_there s'"
    using k_run(1) d tm' tm(2) run_api_poll [OF k_run(4) tm(1) tm'(2)] by (simp add: mon_there_def)
  moreover have "lock_ok s'" using ok k_run(1,2) by (auto simp: td_ok_def lock_ok_def inside_iff insert_absorb)
  ultimately show ?thesis using ok k_run(1) tm'(1) d
    by (auto simp: td_ok_def client_ok_def world_at_def pos_defs)
next
  case (k_fail k op e)
  have "api_ok alive op" using ok k_fail(2) by (auto simp: td_ok_def client_ok_def dest: spec [of _ k])
  with run_api_step [OF sess_at [OF ok] env, of op] k_fail(4) have r: "after_reset (td_d s)" by auto
  then have "\<not> w_global (p_world (td_pr s))" using ok by (simp add: td_ok_def world_at_def closed_def)
  with api_needs_session [of "td_pr s" env op] k_fail(4) have "e = Undefined ''null session''" by simp
  with ok k_fail r show ?thesis
    by (auto simp: td_ok_def lock_ok_def client_ok_def mon_there_def inside_iff insert_absorb)
next
  case (k_unlock k)
  then show ?thesis using ok
    by (auto simp: td_ok_def lock_ok_def client_ok_def rw_defs mon_there_def inside_iff)
qed

interpretation tear: step_inv "tstep env alive" "\<lambda>s. responsive alive env \<and> td_ok alive s"
  for env alive
  by unfold_locales (auto simp: tstep_def intro: d_ok p_ok k_ok)

text \<open>A session in order when its destructor is called: the poller waits, if there is one.\<close>

definition td_init :: "proc \<Rightarrow> td" where
  "td_init pr =
     \<lparr>td_pr = pr, td_lck = \<lparr>rw_readers = 0, rw_writer = False\<rparr>, td_d = D_Start,
      td_p = (case p_tmon pr of None \<Rightarrow> P_Gone | Some tm \<Rightarrow> if tm_poll tm then P_Wait else P_Gone),
      td_k = (\<lambda>_. K_Out), td_new = {}\<rparr>"

lemma td_init_ok: "sess_ok alive pr \<Longrightarrow> td_ok alive (td_init pr)"
  by (auto simp: ok_defs td_init_def sess_ok_def inside_def names_ok_def)

lemma td_reach_ok:
  "sess_ok alive pr \<Longrightarrow> responsive alive env \<Longrightarrow> (tstep env alive)\<^sup>*\<^sup>* (td_init pr) s \<Longrightarrow> td_ok alive s"
  using tear.reach_inv [of env alive "td_init pr" s] td_init_ok by blast

end
