(* ===== verification/Teardown_Runs.thy ===== *)
theory Teardown_Runs
  imports Teardown
begin

text \<open>
  The runs of a destruction: without a poller they are those of the sequential destructor after some
  calls of the API; all of them can be completed; with a poller some of them fail or leave threads
  behind.
\<close>

section \<open>Without a poller\<close>

text \<open>
  What the destructor still has to do at each position, as the sequential destructor does it.
\<close>

definition finish :: "world \<Rightarrow> proc \<Rightarrow> proc result" where
  "finish w pr =
     rbind (guard (w_thds w = []) ''s->thd_st.empty()'') (\<lambda>_. Inr (drop_tmon (pr\<lparr>p_world := w\<lparr>w_global := False\<rparr>\<rparr>)))"

fun rest :: "env \<Rightarrow> dpc \<Rightarrow> proc \<Rightarrow> proc result" where
  "rest env D_Start pr = Session_destroy env pr"
| "rest env (D_Disable tids) pr = rbind (rfold (thd_disable env) tids (p_world pr)) (\<lambda>w. finish w pr)"
| "rest env D_Reset pr = finish (p_world pr) pr"
| "rest env D_Stop pr = Inr (drop_tmon pr)"
| "rest env D_Join pr = Inr (drop_tmon pr)"
| "rest env D_Done pr = Inr pr"
| "rest env D_Failed pr = Inl (Assert_failed ''s->thd_st.empty()'')"

text \<open>The state of a destruction that the sequential destructor would complete from \<open>pr0\<close>.\<close>

definition static :: "td \<Rightarrow> bool" where
  "static s = (td_p s = P_Gone \<and> td_new s = {} \<and> (\<forall>tm. p_tmon (td_pr s) = Some tm \<longrightarrow> \<not> tm_poll tm) \<and>
     (after_reset (td_d s) \<or> td_d s = D_Reset \<longrightarrow> w_thds (p_world (td_pr s)) = []))"

lemma static_d:
  assumes "dstep env s s'" "static s" "td_d s = D_Start \<Longrightarrow> w_global (p_world (td_pr s))"
  shows "static s' \<and> rest env (td_d s') (td_pr s') = rest env (td_d s) (td_pr s)"
  using assms
  by (cases rule: dstep.cases)
    (auto simp: static_def pos_defs rw_defs finish_def guard_def Session_destroy_def free_session_def drop_tmon_def Let_def
      split: if_splits option.splits)

lemma static_p: "pstep env s s' \<Longrightarrow> \<not> static s"
  by (cases rule: pstep.cases) (auto simp: static_def)

text \<open>Whatever the users of the API do at the same time, a sequence of calls does it before the destructor.\<close>

definition serial :: "env \<Rightarrow> (pid \<Rightarrow> bool) \<Rightarrow> proc \<Rightarrow> td \<Rightarrow> bool" where
  "serial env alive pr s =
     (\<exists>ops pr1. (\<forall>op \<in> set ops. api_ok alive op) \<and> rfold (run_api env) ops pr = Inr pr1 \<and>
        (td_d s = D_Start \<longrightarrow> pr1 = td_pr s) \<and> rest env (td_d s) (td_pr s) = Session_destroy env pr1)"

lemma run_api_start:
  assumes "td_ok alive s" "td_k s k = K_In op" "run_api env op (td_pr s) = Inr pr"
  shows "td_d s = D_Start"
proof -
  have "\<not> locked (td_d s)" using locked_alone [OF assms(1), of k] assms(2) by auto
  moreover have "\<not> after_reset (td_d s)"
    using api_needs_session [of "td_pr s" env op] assms(1,3) by (auto simp: td_ok_def world_at_def closed_def)
  ultimately show ?thesis by (cases "td_d s") (simp_all add: pos_defs)
qed

lemma static_k:
  assumes "kstep env alive s s'" "static s" "td_ok alive s" "responsive alive env" "serial env alive pr s"
  shows "static s' \<and> serial env alive pr s'"
  using assms(1)
proof cases
  case (k_run k op pr')
  have d: "td_d s = D_Start" by (rule run_api_start [OF assms(3) k_run(2,4)])
  have op: "api_ok alive op" using assms(3) k_run(2) by (auto simp: td_ok_def client_ok_def dest: spec [of _ k])
  obtain tm where tm: "p_tmon (td_pr s) = Some tm" "\<not> tm_poll tm"
    using assms(2,3) d by (auto simp: static_def td_ok_def mon_there_def)
  have "static s'"
    using assms(2) k_run(1) d run_api_poll [OF k_run(4) tm(1)] tm(2) by (auto simp: static_def pos_defs)
  moreover from assms(5) d obtain ops where
    "\<forall>op \<in> set ops. api_ok alive op" "rfold (run_api env) ops pr = Inr (td_pr s)" by (auto simp: serial_def)
  then have "(\<forall>op \<in> set (ops @ [op]). api_ok alive op) \<and> rfold (run_api env) (ops @ [op]) pr = Inr pr'"
    using op k_run(4) by (auto simp: rfold_append)
  then have "serial env alive pr s'" using k_run(1) d unfolding serial_def by fastforce
  ultimately show ?thesis ..
qed (use assms(2,5) in \<open>simp_all add: static_def serial_def\<close>)

interpretation alone: step_inv "tstep env alive"
  "\<lambda>s. (responsive alive env \<and> td_ok alive s) \<and> static s \<and> serial env alive pr s"
  for env alive pr
proof
  fix s s'
  assume inv: "(responsive alive env \<and> td_ok alive s) \<and> static s \<and> serial env alive pr s" and st: "tstep env alive s s'"
  have glob: "w_global (p_world (td_pr s))" if "td_d s = D_Start"
    using inv that by (simp add: ok_defs world_ok_def)
  have "static s' \<and> serial env alive pr s'"
    using st unfolding tstep_def
  proof (elim disjE)
    assume d: "dstep env s s'"
    then have "td_d s' \<noteq> D_Start" by cases (simp_all split: if_splits)
    with static_d [OF d _ glob] inv show ?thesis by (auto simp: serial_def)
  qed (use inv static_p static_k in blast)+
  with tear.inv_step [OF conjunct1 [OF inv] st] show
    "(responsive alive env \<and> td_ok alive s') \<and> static s' \<and> serial env alive pr s'" by blast
qed

section \<open>Every destruction can end\<close>

abbreviation runs :: "env \<Rightarrow> (pid \<Rightarrow> bool) \<Rightarrow> td \<Rightarrow> td \<Rightarrow> bool" where
  "runs env alive \<equiv> (tstep env alive)\<^sup>*\<^sup>*"

lemma runs_d: "dstep env s s' \<Longrightarrow> runs env alive s' s'' \<Longrightarrow> runs env alive s s''"
  and runs_p: "pstep env s s' \<Longrightarrow> runs env alive s' s'' \<Longrightarrow> runs env alive s s''"
  and runs_k: "kstep env alive s s' \<Longrightarrow> runs env alive s' s'' \<Longrightarrow> runs env alive s s''"
  by (auto simp: tstep_def intro: converse_rtranclp_into_rtranclp)

text \<open>What a scan of the poller leaves alone.\<close>

definition aside :: "td \<Rightarrow> td \<Rightarrow> bool" where
  "aside s s' = (td_d s' = td_d s \<and> td_k s' = td_k s \<and> td_lck s' = td_lck s)"

lemma aside_trans: "aside s t \<Longrightarrow> aside t u \<Longrightarrow> aside s u"
  by (simp add: aside_def)

lemma drops_end:
  assumes "td_ok alive s" "responsive alive env" "td_p s = P_Drop tids"
  shows "\<exists>s'. runs env alive s s' \<and> td_p s' = P_Wait \<and> aside s s'"
  using assms
proof (induction tids arbitrary: s)
  case Nil
  have "pstep env s (s\<lparr>td_p := P_Wait\<rparr>)" by (rule p_dropped) (rule Nil(3))
  from runs_p [OF this rtranclp.rtrancl_refl] show ?case
    by (intro exI [of _ "s\<lparr>td_p := P_Wait\<rparr>"]) (simp add: aside_def)
next
  case (Cons tid tids)
  let ?w = "p_world (td_pr s)"
  obtain tm where tm: "p_tmon (td_pr s) = Some tm" using Cons.prems by (auto simp: td_ok_def mon_there_def split: if_splits)
  have "responsive alive env \<and> world_at (td_d s) (td_new s) alive ?w" using Cons.prems by (simp add: td_ok_def)
  from dying.h_track [OF this, of tid Terminated] obtain tw where
    "drop_entry (thd_track env) tid (tm, ?w) = Inr tw" by (auto simp: drop_entry_def)
  from p_drop [OF Cons.prems(3) tm this] have st: "pstep env s (s\<lparr>td_pr := put tw (td_pr s), td_p := P_Drop tids\<rparr>)"
    (is "pstep env s ?s") .
  from Cons.IH [OF p_ok [OF st Cons.prems(1,2)] Cons.prems(2)] obtain s' where
    "runs env alive ?s s'" "td_p s' = P_Wait" "aside ?s s'" by auto
  with runs_p [OF st] show ?case by (auto simp: aside_def)
qed

lemma visits_end:
  assumes "td_ok alive s" "responsive alive env" "td_p s = P_Visit names"
  shows "\<exists>s'. runs env alive s s' \<and> td_p s' = P_Wait \<and> aside s s'"
  using assms
proof (induction names arbitrary: s)
  case Nil
  obtain tm where tm: "p_tmon (td_pr s) = Some tm" using Nil by (auto simp: td_ok_def mon_there_def split: if_splits)
  from p_visited [OF Nil(3) tm] have st: "pstep env s (s\<lparr>td_p := P_Drop (to_remove tm)\<rparr>)" (is "pstep env s ?s") .
  from drops_end [OF p_ok [OF st Nil(1,2)] Nil(2)] obtain s' where
    "runs env alive ?s s'" "td_p s' = P_Wait" "aside ?s s'" by auto
  with runs_p [OF st] show ?case by (auto simp: aside_def)
next
  case (Cons name names)
  let ?w = "p_world (td_pr s)"
  obtain tm where tm: "p_tmon (td_pr s) = Some tm" using Cons.prems by (auto simp: td_ok_def mon_there_def split: if_splits)
  have w: "responsive alive env \<and> world_at (td_d s) (td_new s) alive ?w" using Cons.prems by (simp add: td_ok_def)
  obtain tid where "stoi name = Inr tid" using Cons.prems by (auto simp: td_ok_def names_ok_def)
  from dying.visit_entry_ok [OF w this, of tm] obtain tw where
    "visit_entry (thd_track env) name (tm, ?w) = Inr tw" by auto
  from p_visit [OF Cons.prems(3) tm this] have st: "pstep env s (s\<lparr>td_pr := put tw (td_pr s), td_p := P_Visit names,
      td_new := td_new s \<union> (tracked (snd tw) - tracked ?w)\<rparr>)" (is "pstep env s ?s") .
  from Cons.IH [OF p_ok [OF st Cons.prems(1,2)] Cons.prems(2)] obtain s' where
    "runs env alive ?s s'" "td_p s' = P_Wait" "aside ?s s'" by auto
  with runs_p [OF st] show ?case by (auto simp: aside_def)
qed

lemma scan_ends:
  assumes "td_ok alive s" "responsive alive env"
  shows "\<exists>s'. runs env alive s s' \<and> mutex_free (td_p s') \<and> aside s s'"
proof (cases "td_p s")
  case (P_Visit names)
  with visits_end [OF assms] show ?thesis by (auto simp: mutex_free_def)
next
  case (P_Drop tids)
  with drops_end [OF assms] show ?thesis by (auto simp: mutex_free_def)
qed (auto simp: mutex_free_def aside_def)

text \<open>Users of the API that are inside leave.\<close>

lemma user_leaves:
  assumes "td_ok alive s" "responsive alive env" "td_d s = D_Start" "mutex_free (td_p s)" "k \<in> inside (td_k s)"
  shows "\<exists>s'. runs env alive s s' \<and> td_d s' = D_Start \<and> td_p s' = td_p s \<and> td_k s' = (td_k s)(k := K_Out)"
proof -
  have home: "\<exists>s'. runs env alive t s' \<and> td_d s' = D_Start \<and> td_p s' = td_p s \<and> td_k s' = (td_k s)(k := K_Out)"
    if "td_k t = (td_k s)(k := K_Back)" "td_d t = D_Start" "td_p t = td_p s" for t
    using runs_k [OF k_unlock [of t k env alive] rtranclp.rtrancl_refl] that by (auto simp: fun_upd_idem_iff)
  show ?thesis
  proof (cases "td_k s k")
    case (K_In op)
    have op: "api_ok alive op" using assms(1) K_In by (auto simp: td_ok_def client_ok_def dest: spec [of _ k])
    have "sess_ok alive (td_pr s)" by (rule sess_at [OF assms(1)]) (simp add: assms(3) after_reset_def)
    from run_api_step [OF this assms(2) op] obtain pr where pr: "run_api env op (td_pr s) = Inr pr" by blast
    have "may_run op (td_p s)" using assms(4) by (cases op) simp_all
    from k_run [OF K_In this pr, of alive] home [of "s\<lparr>td_pr := pr, td_k := (td_k s)(k := K_Back)\<rparr>"] assms(3)
    show ?thesis by (auto intro: runs_k)
  next
    case K_Back
    then show ?thesis using home [of s] assms(3) by (simp add: fun_upd_idem)
  qed (use assms in \<open>auto simp: inside_def td_ok_def client_ok_def after_reset_def dest: spec [of _ k]\<close>)
qed

lemma users_leave:
  assumes "td_ok alive s" "responsive alive env" "td_d s = D_Start" "mutex_free (td_p s)"
  shows "\<exists>s'. runs env alive s s' \<and> td_d s' = D_Start \<and> inside (td_k s') = {}"
proof -
  have "finite (inside (td_k s))" using assms(1) by (simp add: td_ok_def lock_ok_def)
  then show ?thesis using assms
  proof (induction "inside (td_k s)" arbitrary: s rule: finite_psubset_induct)
    case psubset
    show ?case
    proof (cases "inside (td_k s) = {}")
      case False
      then obtain k where k: "k \<in> inside (td_k s)" by blast
      from user_leaves [OF psubset.prems k] obtain t where
        t: "runs env alive s t" "td_d t = D_Start" "td_p t = td_p s" "td_k t = (td_k s)(k := K_Out)" by blast
      with k have "inside (td_k t) \<subset> inside (td_k s)" by auto
      moreover have "td_ok alive t" using tear.reach_inv [OF t(1)] psubset.prems(1,2) by blast
      ultimately show ?thesis
        using psubset.hyps(2) [of t] t psubset.prems(2,4) by (metis rtranclp_trans)
    qed (use psubset.prems(3) in blast)
  qed
qed

text \<open>The destructor goes on to its assertion, and behind it to its end.\<close>

lemma disables_quiet:
  assumes "td_ok alive s" "responsive alive env" "td_d s = D_Disable tids"
  shows "\<exists>s'. runs env alive s s' \<and> td_d s' = D_Disable [] \<and> td_p s' = td_p s \<and> td_new s' = td_new s \<and>
    p_tmon (td_pr s') = p_tmon (td_pr s) \<and> selected (p_world (td_pr s')) = selected (p_world (td_pr s))"
  using assms
proof (induction tids arbitrary: s)
  case (Cons tid tids)
  have "world_ok alive (p_world (td_pr s))" using Cons.prems by (simp add: ok_defs)
  from thd_disable_step [OF this Cons.prems(2), of tid] obtain w where
    w: "thd_disable env tid (p_world (td_pr s)) = Inr w" "selected w = selected (p_world (td_pr s))"
    by (auto simp: step_ok_def intro: same_config_selected)
  note st = d_disable [OF Cons.prems(3) w(1)]
  from Cons.IH [OF d_ok [OF st Cons.prems(1,2)] Cons.prems(2)] w(2) show ?case by (auto intro: runs_d [OF st])
qed blast

lemma join_ends:
  assumes "td_ok alive s" "td_d s = D_Join"
  shows "\<exists>s'. runs env alive s s' \<and> td_d s' = D_Done"
proof -
  have gone: "\<exists>s'. runs env alive t s' \<and> td_d s' = D_Done" if "td_p t = P_Gone" "td_d t = D_Join" for t
    using runs_d [OF d_join [OF that(2,1)] rtranclp.rtrancl_refl, of env alive] by fastforce
  from assms obtain tm where tm: "p_tmon (td_pr s) = Some tm" "td_p s = P_Gone \<or> td_p s = P_Wait \<and> tm_stop tm"
    by (auto simp: td_ok_def mon_there_def)
  then show ?thesis
  proof (elim disjE conjE)
    assume "td_p s = P_Wait" "tm_stop tm"
    from p_end [OF this(1) tm(1) this(2), of env] obtain t where "pstep env s t" "td_p t = P_Gone" "td_d t = D_Join"
      using assms(2) by fastforce
    with gone show ?thesis by (meson runs_p)
  qed (use gone assms(2) in blast)
qed

lemma stop_ends:
  assumes "td_ok alive s" "responsive alive env" "td_d s = D_Stop"
  shows "\<exists>s'. runs env alive s s' \<and> td_d s' = D_Done"
proof -
  from scan_ends [OF assms(1,2)] obtain t where
    t: "runs env alive s t" "mutex_free (td_p t)" "td_d t = D_Stop" by (auto simp: aside_def assms(3))
  with tear.reach_inv [of env alive s t] assms(1,2) have ok: "td_ok alive t" by blast
  then obtain tm where tm: "p_tmon (td_pr t) = Some tm" using t(3) by (auto simp: td_ok_def mon_there_def)
  note st = d_stop [OF t(3,2) tm, of env]
  from join_ends [OF d_ok [OF st ok assms(2)]] obtain u where "runs env alive t u" "td_d u = D_Done"
    by (auto dest: runs_d [OF st])
  with t(1) show ?thesis by (meson rtranclp_trans)
qed

lemma reset_ends:
  assumes "td_ok alive s" "responsive alive env" "td_d s = D_Reset"
  shows "\<exists>s'. runs env alive s s' \<and> td_d s' = D_Done"
proof -
  note st = d_reset [OF assms(3), of env]
  from stop_ends [OF d_ok [OF st assms(1,2)] assms(2)] show ?thesis by (auto intro: runs_d [OF st])
qed

lemma start_locks:
  assumes "td_ok alive s" "responsive alive env" "td_d s = D_Start"
  shows "\<exists>s' tids. runs env alive s s' \<and> td_d s' = D_Disable tids \<and> td_new s' = {}"
proof -
  from scan_ends [OF assms(1,2)] obtain t where
    t: "runs env alive s t" "mutex_free (td_p t)" "td_d t = D_Start" by (auto simp: aside_def assms(3))
  with tear.reach_inv [of env alive s t] assms(1,2) have "td_ok alive t" by blast
  from users_leave [OF this assms(2) t(3,2)] obtain u where
    u: "runs env alive t u" "td_d u = D_Start" "inside (td_k u) = {}" by blast
  with t(1) have "runs env alive s u" by simp
  with tear.reach_inv [of env alive s u] assms(1,2) have "td_ok alive u" by blast
  with u(2,3) have "lock_unique (td_lck u) = Some ((td_lck u)\<lparr>rw_writer := True\<rparr>)"
    by (simp add: td_ok_def lock_ok_def lock_unique_def locked_def)
  from d_lock [OF u(2) this, of env] obtain v tids where "dstep env u v" "td_d v = D_Disable tids" "td_new v = {}" by fastforce
  with runs_d [OF this(1) rtranclp.rtrancl_refl, of alive] \<open>runs env alive s u\<close> show ?thesis
    by (meson rtranclp_trans)
qed

lemma disables_end:
  assumes "td_ok alive s" "responsive alive env" "td_d s = D_Disable tids"
  shows "\<exists>s'. runs env alive s s' \<and> (td_d s' = D_Done \<or> td_d s' = D_Failed \<and> td_new s \<noteq> {})"
proof -
  from disables_quiet [OF assms] obtain t where
    t: "runs env alive s t" "td_d t = D_Disable []" "td_new t = td_new s" by blast
  have ok: "td_ok alive t" using tear.reach_inv [OF t(1)] assms(1,2) by blast
  note st = d_check [OF t(2), of env]
  show ?thesis
  proof (cases "w_thds (p_world (td_pr t)) = []")
    case True
    with st have "dstep env t (t\<lparr>td_d := D_Reset\<rparr>)" by simp
    with reset_ends [OF d_ok [OF this ok assms(2)] assms(2)] t(1) show ?thesis
      by (simp del: split_paired_Ex) (meson rtranclp_trans runs_d)
  next
    case False
    then have "td_new s \<noteq> {}" using ok t(2,3) by (auto simp: td_ok_def tracked_def)
    moreover from False st have "runs env alive t (t\<lparr>td_d := D_Failed\<rparr>)" by (auto intro: runs_d)
    ultimately show ?thesis using t(1) by (intro exI [of _ "t\<lparr>td_d := D_Failed\<rparr>"]) simp
  qed
qed

lemma teardown_ends:
  assumes "td_ok alive s" "responsive alive env"
  shows "\<exists>s'. runs env alive s s' \<and> (td_d s' = D_Done \<or> td_d s' = D_Failed \<and> td_d s \<noteq> D_Start \<and> td_new s \<noteq> {})"
proof (cases "td_d s")
  case D_Start
  with start_locks [OF assms] obtain t tids where
    t: "runs env alive s t" "td_d t = D_Disable tids" "td_new t = {}" by blast
  have "td_ok alive t" using tear.reach_inv [OF t(1)] assms by blast
  from disables_end [OF this assms(2) t(2)] t(1,3) show ?thesis by (meson rtranclp_trans)
next
  case (D_Disable tids)
  from disables_end [OF assms this] D_Disable show ?thesis by auto
next
  case D_Reset
  with reset_ends [OF assms] show ?thesis by blast
next
  case D_Stop
  with stop_ends [OF assms] show ?thesis by blast
next
  case D_Join
  with join_ends [OF assms(1)] show ?thesis by blast
next
  case D_Failed
  with assms(1) show ?thesis by (auto simp: td_ok_def)
qed blast

section \<open>A poller that finds a thread meanwhile\<close>

lemma visit_world: "visit_entry h name (tm, w) = Inr tw \<Longrightarrow> snd tw = w \<or> (\<exists>tid st. h tid st w = Inr (snd tw))"
  by (auto simp: visit_entry_def rbind_Inr_conv split: option.splits if_splits)

lemma drop_world: "drop_entry h tid (tm, w) = Inr tw \<Longrightarrow> h tid Terminated w = Inr (snd tw)"
  by (auto simp: drop_entry_def rbind_Inr_conv)

lemma known_visit: "known (tm\<lparr>tm_known := tab_update t g (tab_insert t g (tm_known tm))\<rparr>) = insert t (known tm)"
  by (auto simp: set_eq_iff known_iff split: if_splits)

text \<open>Behind the reset, the kernel's dispatch of every thread is as it is.\<close>

lemma reset_frame:
  assumes "tstep env alive s s'" "td_ok alive s" "responsive alive env" "after_reset (td_d s)"
  shows "after_reset (td_d s') \<and> w_sud (p_world (td_pr s')) = w_sud (p_world (td_pr s))"
proof -
  have closed: "closed (td_new s) alive (p_world (td_pr s))" using assms(2,4) by (simp add: td_ok_def world_at_def)
  have track: "w_sud w' = w_sud (p_world (td_pr s))" if "thd_track env tid st (p_world (td_pr s)) = Inr w'" for tid st w'
    using track_closed [OF assms(3) closed, of tid st] that by auto
  from assms(1) show ?thesis
    unfolding tstep_def
  proof (elim disjE)
    assume "dstep env s s'"
    then show ?thesis
      by cases (use assms(4) in \<open>auto simp: after_reset_def free_session_def drop_tmon_def split: option.split\<close>)
  next
    assume "pstep env s s'"
    then show ?thesis
    proof cases
      case (p_visit name names tm tw)
      with visit_world [OF p_visit(4)] track assms(4) show ?thesis by (auto simp: put_def)
    next
      case (p_drop tid tids tm tw)
      with track [OF drop_world [OF p_drop(4)]] assms(4) show ?thesis by (simp add: put_def)
    qed (use assms(4) in simp_all)
  next
    assume "kstep env alive s s'"
    then show ?thesis
      by cases (use assms(4) run_api_start [OF assms(2)] in \<open>auto simp: after_reset_def\<close>)
  qed
qed

interpretation past: step_inv "tstep env alive"
  "\<lambda>s. (responsive alive env \<and> td_ok alive s) \<and> after_reset (td_d s) \<and> w_sud (p_world (td_pr s)) = sud"
  for env alive sud
proof
  fix s s'
  assume "(responsive alive env \<and> td_ok alive s) \<and> after_reset (td_d s) \<and> w_sud (p_world (td_pr s)) = sud"
    and st: "tstep env alive s s'"
  with tear.inv_step [OF _ st] reset_frame [OF st]
  show "(responsive alive env \<and> td_ok alive s') \<and> after_reset (td_d s') \<and> w_sud (p_world (td_pr s')) = sud"
    by auto
qed

text \<open>A scan that runs through a listing tracks a selected thread on it that was not known.\<close>

lemma visits_track:
  assumes "td_ok alive s" "responsive alive env" "td_p s = P_Visit names" "lists names tids"
    and "p_tmon (td_pr s) = Some tm" "selected (p_world (td_pr s)) tid"
    and "tid \<in> set tids \<and> tid \<notin> known tm \<or> tid \<in> tracked (p_world (td_pr s))"
  shows "\<exists>s'. runs env alive s s' \<and> aside s s' \<and> tid \<in> tracked (p_world (td_pr s'))"
  using assms
proof (induction names arbitrary: s tm tids)
  case Nil
  then show ?case by (auto simp: aside_def)
next
  case (Cons name names)
  let ?w = "p_world (td_pr s)"
  obtain t ts where t: "stoi name = Inr t" "tids = t # ts" "lists names ts" using Cons.prems(4) by (cases tids) auto
  have w: "responsive alive env \<and> world_at (td_d s) (td_new s) alive ?w" using Cons.prems by (simp add: td_ok_def)
  from dying.visit_entry_ok [OF w t(1), of tm] obtain tm' w' where
    v: "visit_entry (thd_track env) name (tm, ?w) = Inr (tm', w')" "selected w' = selected ?w"
      "tracked w' = tracked ?w \<union> (if t \<notin> known tm \<and> selected ?w t then {t} else {})" "known tm' = insert t (known tm)"
    using known_visit by auto
  note st = p_visit [OF Cons.prems(3,5) v(1)]
  let ?s = "s\<lparr>td_pr := put (tm', w') (td_pr s), td_p := P_Visit names,
      td_new := td_new s \<union> (tracked (snd (tm', w')) - tracked ?w)\<rparr>"
  have "p_tmon (td_pr ?s) = Some tm'" "selected (p_world (td_pr ?s)) tid" "p_world (td_pr ?s) = w'"
    using Cons.prems(6) v(2) by (simp_all add: put_def)
  moreover have "tid \<in> set ts \<and> tid \<notin> known tm' \<or> tid \<in> tracked w'"
    using Cons.prems(6,7) v(3,4) t(2) by auto
  ultimately obtain s' where "runs env alive ?s s'" "aside ?s s'" "tid \<in> tracked (p_world (td_pr s'))"
    using Cons.IH [OF p_ok [OF st Cons.prems(1,2)] Cons.prems(2) _ t(3)] by auto
  with runs_p [OF st] show ?case by (auto simp: aside_def)
qed

lemma wakes_and_tracks:
  assumes "td_ok alive s" "responsive alive env" "td_p s = P_Wait" "p_tmon (td_pr s) = Some tm" "\<not> tm_stop tm"
    and "lists names tids" "tid \<in> set tids" "tid \<notin> known tm" "selected (p_world (td_pr s)) tid"
  shows "\<exists>s'. runs env alive s s' \<and> aside s s' \<and> tid \<in> tracked (p_world (td_pr s'))"
proof -
  note st = p_wake [OF assms(3-6), of env]
  have "tid \<notin> known (tm\<lparr>tm_gen := tm_gen tm + 1\<rparr>)" using assms(8) by (simp add: known_def)
  with visits_track [OF p_ok [OF st assms(1,2)] assms(2), of names tids _ tid] assms(6,7,9) show ?thesis
    by (auto simp: aside_def intro: runs_p [OF st])
qed

text \<open>The table is empty when the destructor has been through its list, unless the poller interferes.\<close>

lemma reaches_check:
  assumes "sess_ok alive pr" "responsive alive env" "p_tmon pr = Some tm" "tm_poll tm"
  shows "\<exists>s. runs env alive (td_init pr) s \<and> td_d s = D_Disable [] \<and> td_p s = P_Wait \<and> p_tmon (td_pr s) = Some tm \<and>
    selected (p_world (td_pr s)) = selected (p_world pr) \<and> w_thds (p_world (td_pr s)) = []"
proof -
  let ?s = "td_init pr"
  have "td_d ?s = D_Start" "lock_unique (td_lck ?s) = Some \<lparr>rw_readers = 0, rw_writer = True\<rparr>"
    by (simp_all add: td_init_def lock_unique_def)
  note st = d_lock [OF this, of env]
  from disables_quiet [OF d_ok [OF st td_init_ok [OF assms(1)] assms(2)] assms(2)] obtain s where
    s: "runs env alive ?s s" "td_d s = D_Disable []" "td_p s = td_p ?s" "td_new s = {}"
      "p_tmon (td_pr s) = p_tmon (td_pr ?s)" "selected (p_world (td_pr s)) = selected (p_world (td_pr ?s))"
    by (auto dest: runs_d [OF st])
  moreover have "w_thds (p_world (td_pr s)) = []"
    using td_reach_ok [OF assms(1,2) s(1)] s(2,4) by (simp add: td_ok_def tracked_def)
  ultimately show ?thesis using assms(3,4) by (auto simp: td_init_def)
qed

lemma late_fails:
  assumes "td_d s = D_Disable []" "tid \<in> tracked (p_world (td_pr s))"
  shows "\<exists>s'. runs env alive s s' \<and> td_d s' = D_Failed"
proof -
  have "w_thds (p_world (td_pr s)) \<noteq> []" using assms(2) by (auto simp: tracked_def)
  with d_check [OF assms(1), of env] have "dstep env s (s\<lparr>td_d := D_Failed\<rparr>)" by simp
  from runs_d [OF this rtranclp.rtrancl_refl, of alive] show ?thesis by fastforce
qed

lemma late_leaks:
  assumes "td_ok alive s" "responsive alive env" "td_d s = D_Reset" "tid \<in> tracked (p_world (td_pr s))" "alive tid"
  shows "\<exists>s'. runs env alive s s' \<and> td_d s' = D_Done \<and> w_thds (p_world (td_pr s')) = [] \<and>
    w_sud (p_world (td_pr s')) tid \<noteq> None"
proof -
  have sud: "w_sud (p_world (td_pr s)) tid \<noteq> None"
    using assms by (simp add: td_ok_def world_at_def after_reset_def world_ok_def tracked_iff)
  note st = d_reset [OF assms(3), of env]
  have ok: "td_ok alive (s\<lparr>td_pr := (td_pr s)\<lparr>p_world := (p_world (td_pr s))\<lparr>w_global := False\<rparr>\<rparr>,
      td_lck := unlock_unique (td_lck s), td_d := D_Stop\<rparr>)" (is "td_ok alive ?t")
    by (rule d_ok [OF st assms(1,2)])
  from stop_ends [OF ok assms(2)] obtain x where x: "runs env alive ?t x" "td_d x = D_Done" by auto
  have "w_sud (p_world (td_pr x)) = w_sud (p_world (td_pr s))"
    using past.reach_inv [OF x(1)] ok assms(2) by (simp add: after_reset_def)
  moreover have "td_ok alive x" using tear.reach_inv [OF x(1)] ok assms(2) by blast
  then have "w_thds (p_world (td_pr x)) = []" using x(2) by (simp add: td_ok_def mon_there_def)
  ultimately show ?thesis using sud x(2) runs_d [OF st x(1)] by auto
qed

lemma demo_busy_ends: "\<exists>s. (tstep demo_env (\<lambda>_. True))\<^sup>*\<^sup>* (td_init (demo_busy poll)) s \<and> td_d s = D_Done"
  using teardown_ends [OF td_init_ok [OF demo_busy_ok] demo_env_ok, of poll] by (auto simp: td_init_def)

lemma demo_busy_locks:
  "\<exists>s. (tstep demo_env (\<lambda>_. True))\<^sup>*\<^sup>* (td_init (demo_busy poll)) s \<and> td_d s = D_Disable [1] \<and> td_new s = {}"
proof -
  have "\<exists>s. dstep demo_env (td_init (demo_busy poll)) s \<and> td_d s = D_Disable [1] \<and> td_new s = {}"
    using d_lock [of "td_init (demo_busy poll)" "\<lparr>rw_readers = 0, rw_writer = True\<rparr>" demo_env]
    by (fastforce simp: td_init_def lock_unique_def demo_busy_def)
  then show ?thesis using runs_d [OF _ rtranclp.rtrancl_refl] by blast
qed

section \<open>Properties\<close>

text \<open>
  C17. While the destructor holds the lock no user of the API is inside, in every interleaving with
  the poller; and the only way a call of the API fails is that it finds the session's pointer reset,
  which it follows without a check.
\<close>

theorem teardown_excludes_api:
  assumes "sess_ok alive pr" "responsive alive env" "(tstep env alive)\<^sup>*\<^sup>* (td_init pr) s"
  shows "(locked (td_d s) \<longrightarrow> (\<forall>k. td_k s k = K_Out)) \<and>
    (\<forall>k e. td_k s k = K_Failed e \<longrightarrow> after_reset (td_d s) \<and> e = Undefined ''null session'')"
proof -
  have ok: "td_ok alive s" by (rule td_reach_ok [OF assms])
  moreover have "after_reset (td_d s) \<and> e = Undefined ''null session''" if "td_k s k = K_Failed e" for k e
    using ok that by (auto simp: td_ok_def client_ok_def dest: spec [of _ k])
  ultimately show ?thesis using locked_alone [OF ok] by blast
qed

theorem teardown_excludes_api_witness:
  "\<exists>s. (tstep demo_env (\<lambda>_. True))\<^sup>*\<^sup>* (td_init (demo_busy True)) s \<and> locked (td_d s) \<and> td_k s 0 = K_Out"
proof -
  obtain s where s: "runs demo_env (\<lambda>_. True) (td_init (demo_busy True)) s" "td_d s = D_Disable [1]"
    using demo_busy_locks by blast
  with teardown_excludes_api [OF demo_busy_ok demo_env_ok s(1)] show ?thesis by (auto simp: locked_def)
qed

text \<open>
  C16. Without a poller a destruction serialises: whatever the users of the API do at the same time,
  when the destructor is done the process is as some sequence of their calls followed by
  the sequential destructor leaves it, which is idle; and the destructor's assertion never fails.
\<close>

theorem teardown_serialises:
  assumes "sess_ok alive pr" "responsive alive env" "p_tmon pr = Some tm" "\<not> tm_poll tm"
    and "(tstep env alive)\<^sup>*\<^sup>* (td_init pr) s"
  shows "td_d s \<noteq> D_Failed \<and>
    (td_d s = D_Done \<longrightarrow> idle alive (td_pr s) \<and>
      (\<exists>ops. (\<forall>op \<in> set ops. api_ok alive op) \<and>
         rbind (rfold (run_api env) ops pr) (Session_destroy env) = Inr (td_pr s)))"
proof -
  let ?I = "\<lambda>s. (responsive alive env \<and> td_ok alive s) \<and> static s \<and> serial env alive pr s"
  have "static (td_init pr)" using assms(3,4) by (auto simp: static_def td_init_def after_reset_def)
  moreover have "serial env alive pr (td_init pr)"
    unfolding serial_def by (intro exI [of _ "[]"]) (simp add: td_init_def)
  ultimately have "?I s"
    using alone.reach_inv [OF assms(5), of pr] td_init_ok [OF assms(1)] assms(2) by blast
  then obtain ops pr1 where ops: "\<forall>op \<in> set ops. api_ok alive op" "rfold (run_api env) ops pr = Inr pr1"
      "rest env (td_d s) (td_pr s) = Session_destroy env pr1"
    by (auto simp: serial_def)
  have "sess_ok alive pr1" using run_apis [OF assms(1,2) ops(1)] ops(2) by auto
  from destroy_idle [OF this assms(2)] obtain pr' where "Session_destroy env pr1 = Inr pr'" "idle alive pr'" by blast
  with ops show ?thesis by (cases "td_d s") auto
qed

theorem teardown_serialises_witness:
  "\<exists>s ops. (tstep demo_env (\<lambda>_. True))\<^sup>*\<^sup>* (td_init (demo_busy False)) s \<and> td_d s = D_Done \<and>
     rbind (rfold (run_api demo_env) ops (demo_busy False)) (Session_destroy demo_env) = Inr (td_pr s)"
proof -
  obtain s where s: "runs demo_env (\<lambda>_. True) (td_init (demo_busy False)) s" "td_d s = D_Done"
    using demo_busy_ends by blast
  have "\<exists>tm. p_tmon (demo_busy False) = Some tm \<and> \<not> tm_poll tm" by (simp add: demo_busy_def)
  with teardown_serialises [OF demo_busy_ok demo_env_ok _ _ s(1)] s show ?thesis by blast
qed

text \<open>
  C18. With a poller, in every interleaving: a destruction that is done leaves no session, no monitor
  and no table, and the kernel dispatches no living thread but for threads that the poller added
  after the destructor had made its list; the assertion fails only if there are such threads.
\<close>

theorem teardown_result:
  assumes "sess_ok alive pr" "responsive alive env" "(tstep env alive)\<^sup>*\<^sup>* (td_init pr) s"
  shows "(td_d s = D_Done \<longrightarrow> \<not> w_global (p_world (td_pr s)) \<and> w_thds (p_world (td_pr s)) = [] \<and>
      p_tmon (td_pr s) = None \<and> td_p s = P_Gone \<and>
      (\<forall>tid. alive tid \<and> tid \<notin> td_new s \<longrightarrow> w_sud (p_world (td_pr s)) tid = None)) \<and>
    (td_d s = D_Failed \<longrightarrow> td_new s \<noteq> {})"
  using td_reach_ok [OF assms]
  by (cases "td_d s") (simp_all add: td_ok_def mon_there_def world_at_def closed_def after_reset_def)

theorem teardown_result_witness:
  "\<exists>s. (tstep demo_env (\<lambda>_. True))\<^sup>*\<^sup>* (td_init (demo_busy True)) s \<and> td_d s = D_Done \<and>
     w_thds (p_world (td_pr s)) = [] \<and> p_tmon (td_pr s) = None \<and> td_p s = P_Gone"
proof -
  obtain s where s: "runs demo_env (\<lambda>_. True) (td_init (demo_busy True)) s" "td_d s = D_Done"
    using demo_busy_ends by blast
  with teardown_result [OF demo_busy_ok demo_env_ok s(1)] show ?thesis by blast
qed

text \<open>
  C23. There are such interleavings: the destructor takes the session's lock but not the poller's
  mutex, so for every thread that is selected, alive and not yet known, a scan that lists it
  between the destructor's list and its assertion makes the assertion fail, and a scan between
  the assertion and the reset leaves the thread dispatched through a selector byte of the freed
  table once the destructor is done.
\<close>

theorem teardown_race:
  assumes "sess_ok alive pr" "responsive alive env" "p_tmon pr = Some tm" "tm_poll tm" "\<not> tm_stop tm"
    and "lists names tids" "tid \<in> set tids" "tid \<notin> known tm" "selected (p_world pr) tid" "alive tid"
  shows "(\<exists>s. (tstep env alive)\<^sup>*\<^sup>* (td_init pr) s \<and> td_d s = D_Failed) \<and>
    (\<exists>s. (tstep env alive)\<^sup>*\<^sup>* (td_init pr) s \<and> td_d s = D_Done \<and>
       w_thds (p_world (td_pr s)) = [] \<and> w_sud (p_world (td_pr s)) tid \<noteq> None)"
proof -
  from reaches_check [OF assms(1-4)] obtain s where
    s: "runs env alive (td_init pr) s" "td_d s = D_Disable []" "td_p s = P_Wait" "p_tmon (td_pr s) = Some tm"
      "selected (p_world (td_pr s)) = selected (p_world pr)" "w_thds (p_world (td_pr s)) = []"
    by blast
  have late: "\<exists>t'. runs env alive t t' \<and> aside t t' \<and> tid \<in> tracked (p_world (td_pr t'))"
    if "runs env alive (td_init pr) t" "td_p t = P_Wait" "td_pr t = td_pr s" for t
    using wakes_and_tracks [OF td_reach_ok [OF assms(1,2) that(1)] assms(2) that(2) _ assms(5-8)] that(3) s(4,5) assms(9)
    by simp
  from late [OF s(1,3)] obtain u where u: "runs env alive s u" "td_d u = D_Disable []" "tid \<in> tracked (p_world (td_pr u))"
    using s(2) by (auto simp: aside_def)
  from late_fails [OF u(2,3), of env alive] s(1) u(1) have
    failed: "\<exists>s. runs env alive (td_init pr) s \<and> td_d s = D_Failed" by (meson rtranclp_trans)
  let ?r = "s\<lparr>td_d := D_Reset\<rparr>"
  have "dstep env s ?r" using d_check [OF s(2), of env] s(6) by simp
  then have r: "runs env alive (td_init pr) ?r" using s(1) runs_d [OF _ rtranclp.rtrancl_refl] by (meson rtranclp_trans)
  from late [OF r] s(3) obtain v where v: "runs env alive ?r v" "td_d v = D_Reset" "tid \<in> tracked (p_world (td_pr v))"
    by (auto simp: aside_def)
  with r have v_reach: "runs env alive (td_init pr) v" by simp
  from late_leaks [OF td_reach_ok [OF assms(1,2) this] assms(2) v(2,3) assms(10)] v_reach failed show ?thesis
    by (meson rtranclp_trans)
qed

theorem teardown_race_witness:
  "(\<exists>s. (tstep demo_env (\<lambda>_. True))\<^sup>*\<^sup>* (td_init (demo_busy True)) s \<and> td_d s = D_Failed) \<and>
   (\<exists>s. (tstep demo_env (\<lambda>_. True))\<^sup>*\<^sup>* (td_init (demo_busy True)) s \<and> td_d s = D_Done \<and>
      w_thds (p_world (td_pr s)) = [] \<and> w_sud (p_world (td_pr s)) 4 \<noteq> None)"
  by (rule teardown_race [OF demo_busy_ok demo_env_ok demo_busy_sel(2) _ _ demo_lists(2)])
    (simp_all add: thdmon0_def known_def demo_busy_sel(1))

text \<open>
  C19. No interleaving is a dead end: from every state that destructor, poller and users of the API
  can reach, the destruction can be completed, unless the destructor has made its list already and
  the poller has added threads since; then it can be completed or end in the assertion.
\<close>

theorem teardown_can_end:
  assumes "sess_ok alive pr" "responsive alive env" "(tstep env alive)\<^sup>*\<^sup>* (td_init pr) s"
  shows "\<exists>s'. (tstep env alive)\<^sup>*\<^sup>* s s' \<and>
    (td_d s' = D_Done \<or> td_d s' = D_Failed \<and> td_d s \<noteq> D_Start \<and> td_new s \<noteq> {})"
  by (rule teardown_ends [OF td_reach_ok [OF assms] assms(2)])

theorem teardown_can_end_witness:
  "\<exists>s s'. (tstep demo_env (\<lambda>_. True))\<^sup>*\<^sup>* (td_init (demo_busy True)) s \<and> td_d s = D_Disable [1] \<and>
     (tstep demo_env (\<lambda>_. True))\<^sup>*\<^sup>* s s' \<and> td_d s' = D_Done"
proof -
  obtain s where s: "runs demo_env (\<lambda>_. True) (td_init (demo_busy True)) s" "td_d s = D_Disable [1]" "td_new s = {}"
    using demo_busy_locks by blast
  with teardown_can_end [OF demo_busy_ok demo_env_ok s(1)] show ?thesis by blast
qed

end
