(* ===== verification/Lifetime.thy ===== *)
theory Lifetime
  imports Teardown
begin

text \<open>
  The lifetime of the session object behind the global \<open>std::shared_ptr\<close> of \<open>session.cc\<close>: the
  handlers of the signals copy the pointer, users of the API follow it under the shared lock, and
  the destructor copies it, resets it under the unique lock and drops its copy. A copy of a
  \<open>std::shared_ptr\<close> is a read of the pointer and then an increment of the count, a reset clears
  the pointer and then decrements the count, and whoever brings the count to zero destroys the
  session.
\<close>

section \<open>States\<close>

text \<open>
  \<open>~Session\<close>: before its copy, with its copy, with the lock, after clearing the pointer, after the
  decrement that follows, after the lock is released, and at its end, where the copy is dropped.
\<close>

datatype zpc = Z_Start | Z_Copied | Z_Locked | Z_Cleared | Z_Reset | Z_Unlocked | Z_Done

text \<open>
  A handler: not running, having read the pointer but not counted itself, holding a reference,
  holding the null pointer, or having counted itself at an object that was destroyed.
\<close>

datatype hpc = H_Out | H_Read | H_Held | H_Null | H_Dangling

text \<open>A user of the API: outside, inside, about to leave, or having followed a bad pointer.\<close>

datatype upc = U_Out | U_In | U_Back | U_Null | U_Freed

text \<open>Who can hold a reference.\<close>

datatype holder = Global | Destructor | Handler pid

text \<open>
  \<open>lt_on\<close> are the threads that are dispatched, \<open>lt_pend\<close> those with an enabling or rearming signal
  pending, and \<open>lt_by\<close> says who destroyed the session.
\<close>

record lt =
  lt_ptr :: bool
  lt_count :: nat
  lt_by :: "holder option"
  lt_lck :: rw
  lt_z :: zpc
  lt_h :: "pid \<Rightarrow> hpc"
  lt_u :: "nat \<Rightarrow> upc"
  lt_on :: "pid set"
  lt_pend :: "pid set"

definition freed :: "lt \<Rightarrow> bool" where
  "freed s = (lt_by s \<noteq> None)"

text \<open>The two halves of a copy of a \<open>std::shared_ptr\<close>, and its destruction.\<close>

definition sp_read :: "lt \<Rightarrow> hpc" where
  "sp_read s = (if lt_ptr s then H_Read else H_Null)"

definition sp_inc :: "lt \<Rightarrow> lt" where
  "sp_inc s = s\<lparr>lt_count := lt_count s + 1\<rparr>"

definition sp_dec :: "holder \<Rightarrow> lt \<Rightarrow> lt" where
  "sp_dec h s = s\<lparr>lt_count := lt_count s - 1, lt_by := if lt_count s = 1 then Some h else lt_by s\<rparr>"

section \<open>Steps\<close>

text \<open>
  The destructor. Disabling a thread returns once the thread has run \<open>disable_sysfail\<close>, whose own
  copy of the pointer is dropped before it reports, and that handler interrupts any other: so a
  thread is disabled wherever its handler of an intercepted call is.
\<close>

inductive zstep :: "lt \<Rightarrow> lt \<Rightarrow> bool" where
  z_copy: "lt_z s = Z_Start \<Longrightarrow> lt_ptr s \<Longrightarrow> zstep s (sp_inc s\<lparr>lt_z := Z_Copied\<rparr>)"
| z_null: "lt_z s = Z_Start \<Longrightarrow> \<not> lt_ptr s \<Longrightarrow> zstep s (s\<lparr>lt_z := Z_Done\<rparr>)"
| z_lock: "lt_z s = Z_Copied \<Longrightarrow> lock_unique (lt_lck s) = Some l \<Longrightarrow>
    zstep s (s\<lparr>lt_lck := l, lt_z := Z_Locked\<rparr>)"
| z_disable: "lt_z s = Z_Locked \<Longrightarrow> t \<in> lt_on s \<Longrightarrow> zstep s (s\<lparr>lt_on := lt_on s - {t}\<rparr>)"
| z_clear: "lt_z s = Z_Locked \<Longrightarrow> lt_on s = {} \<Longrightarrow> zstep s (s\<lparr>lt_ptr := False, lt_z := Z_Cleared\<rparr>)"
| z_reset: "lt_z s = Z_Cleared \<Longrightarrow> zstep s (sp_dec Global s\<lparr>lt_z := Z_Reset\<rparr>)"
| z_unlock: "lt_z s = Z_Reset \<Longrightarrow> zstep s (s\<lparr>lt_lck := unlock_unique (lt_lck s), lt_z := Z_Unlocked\<rparr>)"
| z_drop: "lt_z s = Z_Unlocked \<Longrightarrow> zstep s (sp_dec Destructor s\<lparr>lt_z := Z_Done\<rparr>)"

text \<open>
  The handlers: that of an intercepted call runs on a dispatched thread, the enabling and the
  rearming one on a thread their signal is pending for. Threads are dispatched and signals are sent
  at any time, by the poller, the users of the API and the handlers themselves.
\<close>

inductive hdstep :: "lt \<Rightarrow> lt \<Rightarrow> bool" where
  h_sigsys: "lt_h s t = H_Out \<Longrightarrow> t \<in> lt_on s \<Longrightarrow> hdstep s (s\<lparr>lt_h := (lt_h s)(t := sp_read s)\<rparr>)"
| h_on: "hdstep s (s\<lparr>lt_on := insert t (lt_on s)\<rparr>)"
| h_sent: "hdstep s (s\<lparr>lt_pend := insert t (lt_pend s)\<rparr>)"
| h_pend: "lt_h s t = H_Out \<Longrightarrow> t \<in> lt_pend s \<Longrightarrow>
    hdstep s (s\<lparr>lt_h := (lt_h s)(t := sp_read s), lt_pend := lt_pend s - {t}\<rparr>)"
| h_inc: "lt_h s t = H_Read \<Longrightarrow> \<not> freed s \<Longrightarrow> hdstep s (sp_inc s\<lparr>lt_h := (lt_h s)(t := H_Held)\<rparr>)"
| h_bad: "lt_h s t = H_Read \<Longrightarrow> freed s \<Longrightarrow> hdstep s (s\<lparr>lt_h := (lt_h s)(t := H_Dangling)\<rparr>)"
| h_drop: "lt_h s t = H_Held \<Longrightarrow> hdstep s (sp_dec (Handler t) s\<lparr>lt_h := (lt_h s)(t := H_Out)\<rparr>)"
| h_null: "lt_h s t = H_Null \<Longrightarrow> hdstep s (s\<lparr>lt_h := (lt_h s)(t := H_Out)\<rparr>)"

text \<open>The users of the API follow the global pointer itself.\<close>

definition follow :: "lt \<Rightarrow> upc" where
  "follow s = (if \<not> lt_ptr s then U_Null else if freed s then U_Freed else U_Back)"

inductive ustep :: "lt \<Rightarrow> lt \<Rightarrow> bool" where
  u_lock: "lt_u s k = U_Out \<Longrightarrow> lock_shared (lt_lck s) = Some l \<Longrightarrow>
    ustep s (s\<lparr>lt_lck := l, lt_u := (lt_u s)(k := U_In)\<rparr>)"
| u_use: "lt_u s k = U_In \<Longrightarrow> ustep s (s\<lparr>lt_u := (lt_u s)(k := follow s)\<rparr>)"
| u_unlock: "lt_u s k = U_Back \<Longrightarrow>
    ustep s (s\<lparr>lt_lck := unlock_shared (lt_lck s), lt_u := (lt_u s)(k := U_Out)\<rparr>)"

definition lstep :: "lt \<Rightarrow> lt \<Rightarrow> bool" where
  "lstep s s' = (zstep s s' \<or> hdstep s s' \<or> ustep s s')"

text \<open>After the constructor: one reference, the lock free, no handler running.\<close>

definition lt_start :: "pid set \<Rightarrow> pid set \<Rightarrow> lt" where
  "lt_start on pend =
     \<lparr>lt_ptr = True, lt_count = 1, lt_by = None, lt_lck = \<lparr>rw_readers = 0, rw_writer = False\<rparr>,
      lt_z = Z_Start, lt_h = (\<lambda>_. H_Out), lt_u = (\<lambda>_. U_Out), lt_on = on, lt_pend = pend\<rparr>"

section \<open>The invariant\<close>

definition z_holds :: "zpc \<Rightarrow> bool" where
  "z_holds z = (z \<notin> {Z_Start, Z_Done})"

definition z_locked :: "zpc \<Rightarrow> bool" where
  "z_locked z = (z \<in> {Z_Locked, Z_Cleared, Z_Reset})"

definition held :: "(pid \<Rightarrow> hpc) \<Rightarrow> pid set" where
  "held hs = {t. hs t = H_Held}"

definition holders :: "lt \<Rightarrow> holder set" where
  "holders s = (if lt_z s \<in> {Z_Start, Z_Copied, Z_Locked, Z_Cleared} then {Global} else {}) \<union>
     (if z_holds (lt_z s) then {Destructor} else {}) \<union> Handler ` held (lt_h s)"

definition users :: "(nat \<Rightarrow> upc) \<Rightarrow> nat set" where
  "users us = {k. us k \<noteq> U_Out}"

text \<open>The count is the number of holders, and the session is destroyed when there are none.\<close>

definition refs :: "lt \<Rightarrow> holder set \<Rightarrow> bool" where
  "refs s H = (finite H \<and> lt_count s = card H \<and> freed s = (H = {}))"

definition lt_lock_ok :: "lt \<Rightarrow> bool" where
  "lt_lock_ok s =
     (finite (users (lt_u s)) \<and> rw_readers (lt_lck s) = card (users (lt_u s)) \<and>
      rw_writer (lt_lck s) = z_locked (lt_z s) \<and> (z_locked (lt_z s) \<longrightarrow> users (lt_u s) = {}))"

definition lt_ok :: "lt \<Rightarrow> bool" where
  "lt_ok s =
     (refs s (holders s) \<and> lt_lock_ok s \<and> lt_ptr s = (lt_z s \<in> {Z_Start, Z_Copied, Z_Locked}) \<and>
      (\<forall>t. lt_h s t = H_Dangling \<longrightarrow> freed s) \<and>
      (\<forall>k. lt_u s k \<noteq> U_Freed) \<and> (\<forall>k. lt_u s k = U_Null \<longrightarrow> \<not> lt_ptr s))"

lemmas lt_defs = lt_ok_def lt_lock_ok_def z_holds_def z_locked_def rw_defs

text \<open>A reference that comes, and one that goes.\<close>

lemma refs_inc: "refs s H \<Longrightarrow> h \<notin> H \<Longrightarrow> H \<noteq> {} \<Longrightarrow> refs (sp_inc s) (insert h H)"
  by (simp add: refs_def sp_inc_def freed_def)

lemma refs_dec: "refs s H \<Longrightarrow> h \<in> H \<Longrightarrow> refs (sp_dec h s) (H - {h})"
  by (auto simp: refs_def sp_dec_def freed_def card_Suc_Diff1 card_1_singleton_iff)

lemma refs_as:
  "refs s H \<Longrightarrow> lt_count s' = lt_count s \<Longrightarrow> lt_by s' = lt_by s \<Longrightarrow> holders s' = H \<Longrightarrow> refs s' (holders s')"
  by (simp add: refs_def freed_def)

lemma sp_simps [simp]:
  "lt_ptr (sp_inc s) = lt_ptr s" "lt_lck (sp_inc s) = lt_lck s" "lt_z (sp_inc s) = lt_z s"
  "lt_h (sp_inc s) = lt_h s" "lt_u (sp_inc s) = lt_u s" "freed (sp_inc s) = freed s"
  "lt_ptr (sp_dec h s) = lt_ptr s" "lt_lck (sp_dec h s) = lt_lck s" "lt_z (sp_dec h s) = lt_z s"
  "lt_h (sp_dec h s) = lt_h s" "lt_u (sp_dec h s) = lt_u s" "lt_on (sp_inc s) = lt_on s" "lt_on (sp_dec h s) = lt_on s"
  by (simp_all add: sp_inc_def sp_dec_def freed_def)

text \<open>What is destroyed stays so.\<close>

lemma freed_dec: "freed s \<Longrightarrow> freed (sp_dec h s)"
  by (auto simp: freed_def sp_dec_def)

lemma freed_frame [simp]:
  "freed (s\<lparr>lt_z := z\<rparr>) = freed s" "freed (s\<lparr>lt_lck := l\<rparr>) = freed s" "freed (s\<lparr>lt_ptr := p\<rparr>) = freed s"
  "freed (s\<lparr>lt_h := hs\<rparr>) = freed s" "freed (s\<lparr>lt_u := us\<rparr>) = freed s"
  "freed (s\<lparr>lt_on := on\<rparr>) = freed s" "freed (s\<lparr>lt_pend := on\<rparr>) = freed s"
  by (simp_all add: freed_def)

lemma users_upd [simp]:
  "users (us(k := x)) = (if x = U_Out then users us - {k} else insert k (users us))"
  "k \<in> users us \<longleftrightarrow> us k \<noteq> U_Out" "users (\<lambda>_. U_Out) = {}"
  by (auto simp: users_def)

lemma users_empty: "users us = {} \<longleftrightarrow> us = (\<lambda>_. U_Out)"
  by (auto simp: users_def fun_eq_iff)

lemma held_upd [simp]:
  "held (hs(t := x)) = (if x = H_Held then insert t (held hs) else held hs - {t})"
  "t \<in> held hs \<longleftrightarrow> hs t = H_Held" "held (\<lambda>_. H_Out) = {}"
  by (auto simp: held_def)

lemma held_out: "hs t \<noteq> H_Held \<Longrightarrow> held hs - {t} = held hs"
  by (auto simp: held_def)

text \<open>Steps of the destructor, of the handlers and of the users keep the invariant.\<close>

lemma z_ok:
  assumes "zstep s s'" and ok: "lt_ok s"
  shows "lt_ok s'"
proof -
  have r: "refs s (holders s)" and l: "lt_lock_ok s" using ok by (simp_all add: lt_ok_def)
  have refs': "refs s' (holders s')"
    using assms(1)
  proof cases
    case z_copy
    have "refs (sp_inc s) (insert Destructor (holders s))"
      by (rule refs_inc [OF r]) (use z_copy in \<open>auto simp: holders_def z_holds_def\<close>)
    then show ?thesis by (rule refs_as) (use z_copy in \<open>auto simp: holders_def z_holds_def\<close>)
  next
    case z_reset
    have "refs (sp_dec Global s) (holders s - {Global})"
      by (rule refs_dec [OF r]) (use z_reset in \<open>auto simp: holders_def z_holds_def\<close>)
    then show ?thesis by (rule refs_as) (use z_reset in \<open>auto simp: holders_def z_holds_def\<close>)
  next
    case z_drop
    have "refs (sp_dec Destructor s) (holders s - {Destructor})"
      by (rule refs_dec [OF r]) (use z_drop in \<open>auto simp: holders_def z_holds_def\<close>)
    then show ?thesis by (rule refs_as) (use z_drop in \<open>auto simp: holders_def z_holds_def\<close>)
  next
    case z_null
    then show ?thesis using ok by (simp add: lt_ok_def)
  qed (rule refs_as [OF r]; auto simp: holders_def z_holds_def)+
  moreover have "lt_lock_ok s'" using assms(1) l by cases (auto simp: lt_lock_ok_def z_locked_def rw_defs split: if_splits)
  moreover have "freed s \<longrightarrow> freed s'" "lt_h s' = lt_h s" "lt_u s' = lt_u s" "lt_ptr s' \<longrightarrow> lt_ptr s"
    using assms(1) by (cases; simp add: freed_dec)+
  moreover have "lt_ptr s' = (lt_z s' \<in> {Z_Start, Z_Copied, Z_Locked})"
    using assms(1) ok by cases (simp_all add: lt_ok_def)
  ultimately show ?thesis using ok unfolding lt_ok_def by metis
qed

lemma hd_ok:
  assumes "hdstep s s'" and ok: "lt_ok s"
  shows "lt_ok s'"
proof -
  have r: "refs s (holders s)" using ok by (simp add: lt_ok_def)
  have "refs s' (holders s')"
    using assms(1)
  proof cases
    case (h_inc t)
    have "refs (sp_inc s) (insert (Handler t) (holders s))"
      by (rule refs_inc [OF r]) (use h_inc r in \<open>auto simp: holders_def refs_def\<close>)
    then show ?thesis by (rule refs_as) (use h_inc in \<open>auto simp: holders_def\<close>)
  next
    case (h_drop t)
    have "refs (sp_dec (Handler t) s) (holders s - {Handler t})"
      by (rule refs_dec [OF r]) (use h_drop in \<open>auto simp: holders_def\<close>)
    then show ?thesis by (rule refs_as) (use h_drop in \<open>auto simp: holders_def split: if_splits\<close>)
  qed (rule refs_as [OF r]; simp add: holders_def sp_read_def held_out)+
  moreover have "freed s \<longrightarrow> freed s'" "lt_z s' = lt_z s" "lt_u s' = lt_u s" "lt_ptr s' = lt_ptr s"
    "lt_lck s' = lt_lck s"
    using assms(1) by (cases; simp add: freed_dec)+
  moreover have "lt_h s' t = H_Dangling \<longrightarrow> lt_h s t = H_Dangling \<or> freed s" for t
    using assms(1) by cases (auto simp: sp_read_def)
  ultimately show ?thesis using ok unfolding lt_ok_def lt_lock_ok_def by metis
qed

lemma u_ok:
  assumes "ustep s s'" and ok: "lt_ok s"
  shows "lt_ok s'"
proof -
  have r: "refs s (holders s)" and l: "lt_lock_ok s" using ok by (simp_all add: lt_ok_def)
  have "refs s' (holders s')"
    using assms(1) by (cases; intro refs_as [OF r]; simp add: holders_def)
  moreover have "freed s' = freed s" "lt_z s' = lt_z s" "lt_h s' = lt_h s" "lt_ptr s' = lt_ptr s"
    using assms(1) by (cases; simp)+
  moreover have "lt_lock_ok s'"
    using assms(1) l
    by cases (auto simp: lt_lock_ok_def rw_defs follow_def insert_absorb users_empty split: if_splits)
  moreover have "lt_u s' k = lt_u s k \<or> lt_u s' k \<in> {U_Out, U_In, U_Back} \<or> lt_u s' k = follow s" for k
    using assms(1) by cases auto
  moreover have "follow s \<noteq> U_Freed" "follow s = U_Null \<longrightarrow> \<not> lt_ptr s"
    using ok by (auto simp: follow_def lt_ok_def refs_def holders_def split: if_splits)
  ultimately show ?thesis using ok unfolding lt_ok_def
    by (metis (full_types) insertE singletonD upc.distinct)
qed

interpretation spi: step_inv lstep lt_ok
  by unfold_locales (auto simp: lstep_def intro: z_ok hd_ok u_ok)

lemma lt_start_ok: "lt_ok (lt_start on pend)"
  by (simp add: lt_start_def lt_ok_def lt_lock_ok_def refs_def holders_def z_holds_def z_locked_def freed_def)

text \<open>The destructor alone runs to its end, wherever the handlers are.\<close>

definition z_left :: "zpc \<Rightarrow> nat" where
  "z_left z = (case z of Z_Start \<Rightarrow> 6 | Z_Copied \<Rightarrow> 5 | Z_Locked \<Rightarrow> 4 | Z_Cleared \<Rightarrow> 3 | Z_Reset \<Rightarrow> 2 | Z_Unlocked \<Rightarrow> 1 | Z_Done \<Rightarrow> 0)"

definition quiet :: "lt \<Rightarrow> bool" where
  "quiet s = (lt_ok s \<and> lt_u s = (\<lambda>_. U_Out) \<and> finite (lt_on s))"

lemma z_progress:
  assumes "quiet s" "lt_z s \<noteq> Z_Done"
  shows "\<exists>s'. zstep s s'"
proof (cases "lt_z s")
  case Z_Copied
  then have "lock_unique (lt_lck s) = Some ((lt_lck s)\<lparr>rw_writer := True\<rparr>)"
    using assms(1) by (simp add: quiet_def lt_ok_def lt_lock_ok_def z_locked_def lock_unique_def)
  with Z_Copied show ?thesis using z_lock by blast
next
  case Z_Locked
  then show ?thesis using z_disable z_clear by blast
qed (use assms(2) z_copy z_null z_reset z_unlock z_drop in blast)+

interpretation zend: step_measure zstep quiet "\<lambda>s. z_left (lt_z s) + card (lt_on s)"
proof
  fix s s'
  assume q: "quiet s" and st: "zstep s s'"
  from st q show "quiet s'" by cases (use z_ok [OF st] in \<open>auto simp: quiet_def\<close>)
  have "card (lt_on s) - Suc 0 < card (lt_on s)" if "t \<in> lt_on s" for t using that q card_Diff1_less [of "lt_on s" t] by (simp add: quiet_def)
  with st q show "z_left (lt_z s') + card (lt_on s') < z_left (lt_z s) + card (lt_on s)"
    by cases (auto simp: quiet_def z_left_def)
qed

lemma destroys:
  assumes "quiet s"
  shows "\<exists>s'. lstep\<^sup>*\<^sup>* s s' \<and> lt_ok s' \<and> lt_z s' = Z_Done \<and> lt_h s' = lt_h s"
  using assms
proof (induction "z_left (lt_z s) + card (lt_on s)" arbitrary: s rule: less_induct)
  case less
  show ?case
  proof (cases "lt_z s = Z_Done")
    case True
    with less.prems show ?thesis by (auto simp: quiet_def)
  next
    case False
    with z_progress less.prems obtain s1 where s1: "zstep s s1" by blast
    moreover have "lt_h s1 = lt_h s" using s1 by cases simp_all
    moreover have "lstep s s1" using s1 by (simp add: lstep_def)
    ultimately show ?thesis
      using less.hyps [of s1] zend.left_step [of s s1] zend.inv_step [of s s1] less.prems
      by (metis converse_rtranclp_into_rtranclp)
  qed
qed

lemma freed_iff: "lt_ok s \<Longrightarrow> freed s \<longleftrightarrow> lt_z s = Z_Done \<and> held (lt_h s) = {}"
  by (cases "lt_z s") (auto simp: lt_ok_def refs_def holders_def z_holds_def)

text \<open>A handler caught at its read or with its reference by a destructor that then runs to its end.\<close>

lemma caught:
  assumes "finite on" "t \<in> on" "x \<in> {H_Read, H_Held}"
  shows "\<exists>s. lstep\<^sup>*\<^sup>* (lt_start on pend) s \<and> lt_ok s \<and> lt_z s = Z_Done \<and> lt_h s = (\<lambda>_. H_Out)(t := x)"
proof -
  let ?s0 = "lt_start on pend"
  define s1 where "s1 = ?s0\<lparr>lt_h := (\<lambda>_. H_Out)(t := H_Read)\<rparr>"
  define s2 where "s2 = sp_inc s1\<lparr>lt_h := (\<lambda>_. H_Out)(t := H_Held)\<rparr>"
  have s1: "lt_h s1 = (\<lambda>_. H_Out)(t := H_Read)" "lt_u s1 = (\<lambda>_. U_Out)" "lt_on s1 = on" "\<not> freed s1"
    by (simp_all add: s1_def lt_start_def freed_def)
  have s2: "lt_h s2 = (\<lambda>_. H_Out)(t := H_Held)" "lt_u s2 = (\<lambda>_. U_Out)" "lt_on s2 = on"
    by (simp_all add: s2_def s1)
  have h1: "lstep ?s0 s1"
    using h_sigsys [of ?s0 t] assms(2) by (simp add: lstep_def s1_def lt_start_def sp_read_def)
  have h2: "lstep s1 s2" using h_inc [of s1 t] s1 by (simp add: lstep_def s2_def)
  have "lt_ok s1" by (rule spi.inv_step [OF lt_start_ok h1])
  moreover have "lt_ok s2" by (rule spi.inv_step [OF calculation h2])
  ultimately have q: "quiet s1" "quiet s2" using s1 s2 assms(1) by (simp_all add: quiet_def)
  have r: "lstep\<^sup>*\<^sup>* ?s0 s1" "lstep\<^sup>*\<^sup>* ?s0 s2" using h1 h2 by auto
  show ?thesis
    using assms(3) destroys [OF q(1)] destroys [OF q(2)] rtranclp_trans [OF r(1)] rtranclp_trans [OF r(2)] s1(1) s2(1)
    by (metis empty_iff insert_iff)
qed

section \<open>Properties\<close>

text \<open>
  C20. In every interleaving of the destructor, the handlers and the users of the API: a handler that
  holds a reference and a user that holds the lock never meet a destroyed session, the count is the
  number of holders, and the session is destroyed exactly when the destructor has ended and no
  handler holds a reference. The one step that touches a destroyed session is the increment of a
  handler that read the pointer before the reset.
\<close>

theorem lifetime_safe:
  assumes "lstep\<^sup>*\<^sup>* (lt_start on pend) s"
  shows "(\<forall>t. lt_h s t = H_Held \<longrightarrow> \<not> freed s) \<and> (\<forall>k. lt_u s k \<noteq> U_Freed) \<and>
    lt_count s = card (holders s) \<and> (freed s \<longleftrightarrow> lt_z s = Z_Done \<and> held (lt_h s) = {}) \<and>
    (\<forall>t s'. lstep s s' \<and> lt_h s t \<noteq> H_Dangling \<and> lt_h s' t = H_Dangling \<longrightarrow> lt_h s t = H_Read \<and> freed s)"
proof -
  have ok: "lt_ok s" by (rule spi.reach_inv [OF assms lt_start_ok])
  have "lt_h s t = H_Read \<and> freed s" if "lstep s s'" "lt_h s t \<noteq> H_Dangling" "lt_h s' t = H_Dangling" for t s'
    using that by (auto simp: lstep_def sp_read_def elim!: zstep.cases hdstep.cases ustep.cases split: if_splits)
  moreover have "lt_h s t = H_Held \<longrightarrow> \<not> freed s" for t using freed_iff [OF ok] by (auto simp: held_def)
  ultimately show ?thesis using ok freed_iff [OF ok] by (auto simp: lt_ok_def refs_def)
qed

theorem lifetime_safe_witness:
  "\<exists>s. lstep\<^sup>*\<^sup>* (lt_start {7} {}) s \<and> lt_z s = Z_Done \<and> lt_h s 7 = H_Held \<and> \<not> freed s"
proof -
  obtain s where s: "lstep\<^sup>*\<^sup>* (lt_start {7} {}) s" "lt_z s = Z_Done" "lt_h s = (\<lambda>_. H_Out)(7 := H_Held)"
    using caught [of "{7}" 7 H_Held "{}"] by auto
  from s(2,3) lifetime_safe [OF s(1)] have "\<not> freed s" by (metis fun_upd_same)
  with s show ?thesis by (intro exI [of _ s]) simp
qed

text \<open>
  C24. Disabling the threads does not wait for their handlers: a handler of an intercepted call that
  has read the pointer when the destructor starts can count itself at a session that is destroyed by
  then, and one that holds a reference can be the one to destroy the session, inside the handler.
\<close>

theorem lifetime_race:
  assumes "finite on" "t \<in> on"
  shows "(\<exists>s. lstep\<^sup>*\<^sup>* (lt_start on pend) s \<and> freed s \<and> lt_h s t = H_Dangling) \<and>
    (\<exists>s s'. lstep\<^sup>*\<^sup>* (lt_start on pend) s \<and> lt_z s = Z_Done \<and> \<not> freed s \<and> lstep s s' \<and> lt_by s' = Some (Handler t))"
proof -
  let ?run = "lstep\<^sup>*\<^sup>* (lt_start on pend)"
  obtain a where a: "?run a" "lt_ok a" "lt_z a = Z_Done" "lt_h a = (\<lambda>_. H_Out)(t := H_Read)"
    using caught [OF assms, of H_Read] by blast
  let ?a = "a\<lparr>lt_h := (lt_h a)(t := H_Dangling)\<rparr>"
  have fa: "freed a" using a by (simp add: freed_iff)
  then have "lstep a ?a" using h_bad [of a t] a(4) by (simp add: lstep_def)
  with a(1) have "?run ?a" by (rule rtranclp.rtrancl_into_rtrancl)
  moreover obtain b where b: "?run b" "lt_ok b" "lt_z b = Z_Done" "lt_h b = (\<lambda>_. H_Out)(t := H_Held)"
    using caught [OF assms, of H_Held] by blast
  let ?b = "sp_dec (Handler t) b\<lparr>lt_h := (lt_h b)(t := H_Out)\<rparr>"
  have "holders b = {Handler t}" using b(3,4) by (simp add: holders_def z_holds_def)
  then have fb: "\<not> freed b" "lt_count b = 1" using b(2) by (simp_all add: lt_ok_def refs_def)
  then have "lt_by ?b = Some (Handler t)" by (simp add: sp_dec_def)
  moreover have "lstep b ?b" using h_drop [of b t] b(4) by (simp add: lstep_def)
  ultimately show ?thesis using fa fb(1) b(1,3) by (intro conjI exI [of _ ?a] exI [of _ b] exI [of _ ?b]) simp_all
qed

theorem lifetime_race_witness: "\<exists>s. lstep\<^sup>*\<^sup>* (lt_start {7} {}) s \<and> freed s \<and> lt_h s 7 = H_Dangling"
  using lifetime_race [of "{7}" 7 "{}"] by simp

end
