(* ===== verification/CWrapper.thy ===== *)
theory CWrapper
  imports Session
begin

text \<open>
  The C interface, \<open>include/sysfail.h\<close> and \<open>src/cwrapper.cc\<close>: access to the intercepted call, the
  translation of a C plan into a plan, and the session handle with its function pointers. User data
  are addresses, callbacks are functions of them, and a chain of outcomes linked by \<open>next\<close> is a
  list.
\<close>

section \<open>The intercepted call\<close>

definition sysfail_syscall :: "gregs \<Rightarrow> i32" where
  "sysfail_syscall regs = to_int (regs REG_RAX)"

definition sysfail_syscall_arg :: "gregs \<Rightarrow> int \<Rightarrow> u64 result" where
  "sysfail_syscall_arg regs arg =
     (if arg = 0 then Inr (regs REG_RDI)
      else if arg = 1 then Inr (regs REG_RSI)
      else if arg = 2 then Inr (regs REG_RDX)
      else if arg = 3 then Inr (regs REG_R10)
      else if arg = 4 then Inr (regs REG_R8)
      else if arg = 5 then Inr (regs REG_R9)
      else Inl Abort)"

section \<open>C plans\<close>

record c_probability =
  cp_p :: dbl
  cp_after_bias :: dbl

record c_error_wt =
  ce_nerror :: i32
  ce_weight :: dbl

text \<open>The array of errors has the elements \<open>co_error_wts\<close>, and \<open>co_num_errors\<close> is what the caller says.\<close>

record c_outcome =
  co_fail :: c_probability
  co_delay :: c_probability
  co_max_delay_usec :: i32
  co_ctx :: u64
  co_eligible :: "(u64 \<Rightarrow> gregs \<Rightarrow> i32) option"
  co_num_errors :: i32
  co_error_wts :: "c_error_wt list"

record c_plan =
  cpl_strategy :: i32
  cpl_poll_itvl_usec :: i32
  cpl_ctx :: u64
  cpl_selector :: "(u64 \<Rightarrow> pid \<Rightarrow> i32) option"
  cpl_outcomes :: "(i32 \<times> c_outcome) list"

section \<open>Translation\<close>

definition add_error :: "c_outcome \<Rightarrow> nat \<Rightarrow> (i32, dbl) table \<Rightarrow> (i32, dbl) table result" where
  "add_error co i m =
     (if i < length (co_error_wts co)
      then let e = co_error_wts co ! i in Inr (omap_insert int_lt (ce_nerror e) (ce_weight e) m)
      else Inl (Undefined ''array index''))"

definition c_error_weights :: "c_outcome \<Rightarrow> (i32, dbl) table result" where
  "c_error_weights co = rfold (add_error co) [0..<unat (co_num_errors co)] []"

text \<open>A callback that is null accepts, one that is not is called with its user data.\<close>

definition c_accepts :: "(u64 \<Rightarrow> 'a \<Rightarrow> i32) option \<Rightarrow> u64 \<Rightarrow> 'a \<Rightarrow> bool" where
  "c_accepts e ctx x = (case e of None \<Rightarrow> True | Some e \<Rightarrow> e ctx x \<noteq> 0)"

definition to_outcome :: "c_outcome \<Rightarrow> outcome result" where
  "to_outcome co =
     rbind (c_error_weights co) (\<lambda>error_weights.
     rbind (Probability (cp_p (co_fail co)) (cp_after_bias (co_fail co))) (\<lambda>fail.
     rbind (Probability (cp_p (co_delay co)) (cp_after_bias (co_delay co))) (\<lambda>delay.
     Inr \<lparr>o_fail = fail, o_delay = delay, o_max_delay = ucast (co_max_delay_usec co),
          o_error_weights = error_weights,
          o_eligible = Some (c_accepts (co_eligible co) (co_ctx co))\<rparr>)))"

definition add_outcome :: "i32 \<times> c_outcome \<Rightarrow> (i32, outcome) table \<Rightarrow> (i32, outcome) table result" where
  "add_outcome = (\<lambda>(nr, co) m. rbind (to_outcome co) (\<lambda>ou. Inr (tab_insert nr ou m)))"

definition tdisc_strategy :: "c_plan \<Rightarrow> strategy" where
  "tdisc_strategy c =
     (if cpl_strategy c = 0 then NoDiscovery
      else if cpl_strategy c = 1 then ProcPoll (ucast (cpl_poll_itvl_usec c))
      else NoDiscovery)"

definition to_plan :: "c_plan \<Rightarrow> plan result" where
  "to_plan c =
     rbind (rfold add_outcome (cpl_outcomes c) []) (\<lambda>outcomes.
     Inr \<lparr>pl_outcomes = outcomes, pl_selector = c_accepts (cpl_selector c) (cpl_ctx c),
          pl_thd_disc = tdisc_strategy c\<rparr>)"

section \<open>The session handle\<close>

record c_session =
  cs_stop :: "env \<Rightarrow> proc \<Rightarrow> proc result"
  cs_add_this_thread :: "env \<Rightarrow> pid \<Rightarrow> proc \<Rightarrow> proc result"
  cs_remove_this_thread :: "env \<Rightarrow> pid \<Rightarrow> proc \<Rightarrow> proc result"
  cs_add_thread :: "env \<Rightarrow> pid \<Rightarrow> proc \<Rightarrow> proc result"
  cs_remove_thread :: "env \<Rightarrow> pid \<Rightarrow> proc \<Rightarrow> proc result"
  cs_discover_threads :: "env \<Rightarrow> string list \<Rightarrow> proc \<Rightarrow> proc result"

text \<open>A null plan gives a null handle; otherwise a session is made and put behind the pointers.\<close>

definition sysfail_start ::
    "(rat \<Rightarrow> dbl) \<Rightarrow> env \<Rightarrow> outside \<Rightarrow> c_plan option \<Rightarrow> proc \<Rightarrow> (c_session option \<times> proc) result" where
  "sysfail_start rnd env os c_plan pr =
     (case c_plan of
        None \<Rightarrow> Inr (None, pr)
      | Some c \<Rightarrow>
          rbind (to_plan c) (\<lambda>plan.
          rbind (Session rnd env os plan pr) (\<lambda>pr.
          Inr (Some \<lparr>cs_stop = Session_destroy, cs_add_this_thread = Session_add_self,
                     cs_remove_this_thread = Session_remove_self, cs_add_thread = Session_add,
                     cs_remove_thread = Session_remove,
                     cs_discover_threads = Session_discover_threads\<rparr>, pr))))"

section \<open>Lemmas\<close>

text \<open>The errors the caller's count takes in.\<close>

definition c_errors :: "c_outcome \<Rightarrow> (i32 \<times> dbl) list" where
  "c_errors co =
     map (\<lambda>e. (ce_nerror e, ce_weight e)) (take (unat (co_num_errors co)) (co_error_wts co))"

lemma c_error_weights_fold:
  assumes "unat (co_num_errors co) \<le> length (co_error_wts co)"
  shows "c_error_weights co = Inr (fold (\<lambda>(k, v). omap_insert int_lt k v) (c_errors co) [])"
proof -
  have "rfold (add_error co) [0..<n] m =
      Inr (fold (\<lambda>(k, v). omap_insert int_lt k v)
        (map (\<lambda>e. (ce_nerror e, ce_weight e)) (take n (co_error_wts co))) m)"
    if "n \<le> length (co_error_wts co)" for n m
    using that
  proof (induction n)
    case (Suc n)
    then have "take (Suc n) (co_error_wts co) = take n (co_error_wts co) @ [co_error_wts co ! n]"
      by (simp add: take_Suc_conv_app_nth)
    with Suc show ?case by (simp add: rfold_append add_error_def Let_def)
  qed simp
  with assms show ?thesis by (simp add: c_error_weights_def c_errors_def)
qed

text \<open>An outcome a caller may give: probabilities in range, and a count the array can satisfy.\<close>

definition c_valid :: "c_outcome \<Rightarrow> bool" where
  "c_valid co =
     (unat (co_num_errors co) \<le> length (co_error_wts co) \<and>
      in_unit (cp_p (co_fail co)) \<and> in_unit (cp_after_bias (co_fail co)) \<and>
      in_unit (cp_p (co_delay co)) \<and> in_unit (cp_after_bias (co_delay co)))"

text \<open>The outcome it stands for.\<close>

definition outcome_of :: "c_outcome \<Rightarrow> outcome" where
  "outcome_of co =
     \<lparr>o_fail = \<lparr>pr_p = cp_p (co_fail co), pr_after_bias = cp_after_bias (co_fail co)\<rparr>,
      o_delay = \<lparr>pr_p = cp_p (co_delay co), pr_after_bias = cp_after_bias (co_delay co)\<rparr>,
      o_max_delay = ucast (co_max_delay_usec co),
      o_error_weights = fold (\<lambda>(k, v). omap_insert int_lt k v) (c_errors co) [],
      o_eligible = Some (c_accepts (co_eligible co) (co_ctx co))\<rparr>"

lemma Probability_in_unit:
  "in_unit p \<Longrightarrow> in_unit b \<Longrightarrow> Probability p b = Inr \<lparr>pr_p = p, pr_after_bias = b\<rparr>"
  by (auto simp: Probability_def in_unit_iff)

lemma to_outcome_valid: "c_valid co \<Longrightarrow> to_outcome co = Inr (outcome_of co)"
  by (simp add: c_valid_def to_outcome_def c_error_weights_fold Probability_in_unit outcome_of_def)

lemma add_outcomes_valid:
  assumes "\<forall>(nr, co) \<in> set cs. c_valid co"
  shows "rfold add_outcome cs m =
    Inr (fold (\<lambda>(k, v). tab_insert k v) (map (\<lambda>(nr, co). (nr, outcome_of co)) cs) m)"
  using assms by (induction cs arbitrary: m) (auto simp: add_outcome_def to_outcome_valid)

lemma to_plan_valid:
  assumes "\<forall>(nr, co) \<in> set (cpl_outcomes c). c_valid co"
  obtains p where "to_plan c = Inr p" "pl_thd_disc p = tdisc_strategy c"
    "pl_selector p = c_accepts (cpl_selector c) (cpl_ctx c)"
    "\<And>nr. tab_find (pl_outcomes p) nr = map_option outcome_of (map_of (cpl_outcomes c) nr)"
proof -
  let ?os = "fold (\<lambda>(k, v). tab_insert k v) (map (\<lambda>(nr, co). (nr, outcome_of co)) (cpl_outcomes c)) []"
  have "tab_find ?os nr = map_option outcome_of (map_of (cpl_outcomes c) nr)" for nr
    unfolding tab.look_fill by (simp add: map_of_map)
  then show ?thesis
    by (intro that [of "\<lparr>pl_outcomes = ?os, pl_selector = c_accepts (cpl_selector c) (cpl_ctx c),
          pl_thd_disc = tdisc_strategy c\<rparr>"]) (simp_all add: to_plan_def add_outcomes_valid [OF assms])
qed

text \<open>Whatever is accepted is well formed.\<close>

lemma c_error_weights_wf: "c_error_weights co = Inr m \<Longrightarrow> omap_wf int_lt m"
  unfolding c_error_weights_def
  by (erule rfold_invariant)
    (auto simp: add_error_def Let_def omap_wf_def [of _ "[]"] int_key.omap_wf_insert split: if_splits)

lemma Probability_prob_ok: "Probability p b = Inr q \<Longrightarrow> prob_ok q"
  by (auto simp: prob_ok_def unit_or_nan_dlt Probability_def split: if_splits)

lemma to_outcome_ok: "to_outcome co = Inr ou \<Longrightarrow> outcome_ok ou"
  by (auto simp: to_outcome_def rbind_Inr_conv outcome_ok_def c_error_weights_wf Probability_prob_ok)

lemma add_outcome_ok:
  assumes "add_outcome x m = Inr m'" "tab_wf m \<and> (\<forall>(nr, ou) \<in> set m. outcome_ok ou)"
  shows "tab_wf m' \<and> (\<forall>(nr, ou) \<in> set m'. outcome_ok ou)"
proof -
  obtain nr co where "x = (nr, co)" by (cases x)
  with assms(1) obtain ou where ou: "to_outcome co = Inr ou" "m' = tab_insert nr ou m"
    by (auto simp: add_outcome_def rbind_Inr_conv)
  have "set m' \<subseteq> insert (nr, ou) (set m)" unfolding ou(2) by (auto simp: tab_insert_def)
  with assms(2) to_outcome_ok [OF ou(1)] ou(2) show ?thesis by auto
qed

text \<open>An outcome with a number out of range.\<close>

definition c_out_of_range :: "c_probability \<Rightarrow> bool" where
  "c_out_of_range q = (dlt (cp_p q) (Fin 0) \<or> dlt (Fin 1) (cp_p q) \<or>
     dlt (cp_after_bias q) (Fin 0) \<or> dlt (Fin 1) (cp_after_bias q))"

lemma Probability_cases:
  "(\<exists>q. Probability (cp_p c) (cp_after_bias c) = Inr q \<and> \<not> c_out_of_range c) \<or>
   (\<exists>msg. Probability (cp_p c) (cp_after_bias c) = Inl (Throw (Invalid_argument msg)) \<and> c_out_of_range c)"
  by (auto simp: Probability_def c_out_of_range_def)

text \<open>When the arrays are as long as the counts say, a bad number is the only way to fail.\<close>

lemma to_outcome_cases:
  assumes "unat (co_num_errors co) \<le> length (co_error_wts co)"
  shows "(\<exists>ou. to_outcome co = Inr ou \<and> \<not> c_out_of_range (co_fail co) \<and> \<not> c_out_of_range (co_delay co)) \<or>
    (\<exists>msg. to_outcome co = Inl (Throw (Invalid_argument msg)) \<and>
       (c_out_of_range (co_fail co) \<or> c_out_of_range (co_delay co)))"
  using Probability_cases [of "co_fail co"] Probability_cases [of "co_delay co"]
  by (auto simp: to_outcome_def c_error_weights_fold [OF assms])

lemma add_outcome_step: "to_outcome co = Inr ou \<Longrightarrow> add_outcome (nr, co) m = Inr (tab_insert nr ou m)"
  by (simp add: add_outcome_def)

lemma add_outcomes_reject:
  assumes "\<forall>(nr, co) \<in> set cs. unat (co_num_errors co) \<le> length (co_error_wts co)"
    and "\<exists>(nr, co) \<in> set cs. c_out_of_range (co_fail co) \<or> c_out_of_range (co_delay co)"
  shows "\<exists>msg. rfold add_outcome cs m = Inl (Throw (Invalid_argument msg))"
  using assms
proof (induction cs arbitrary: m)
  case (Cons x cs)
  obtain nr co where x: "x = (nr, co)" by (cases x)
  with Cons.prems(1) have "unat (co_num_errors co) \<le> length (co_error_wts co)" by simp
  note one = to_outcome_cases [OF this]
  show ?case
  proof (cases "c_out_of_range (co_fail co) \<or> c_out_of_range (co_delay co)")
    case True
    with one x show ?thesis by (auto simp: add_outcome_def)
  next
    case False
    with Cons.prems(2) x have "\<exists>(nr, co) \<in> set cs. c_out_of_range (co_fail co) \<or> c_out_of_range (co_delay co)"
      by auto
    then have "\<exists>msg. rfold add_outcome cs m = Inl (Throw (Invalid_argument msg))" for m
      using Cons.IH Cons.prems(1) by simp
    moreover obtain ou where "to_outcome co = Inr ou" using one False by auto
    ultimately show ?thesis using x by (simp add: add_outcome_step)
  qed
qed simp

text \<open>The numbers of a plan in their range.\<close>

definition c_number_ok :: "c_probability \<Rightarrow> bool" where
  "c_number_ok q = (unit_or_nan (cp_p q) \<and> unit_or_nan (cp_after_bias q))"

definition plan_numbers_ok :: "c_plan \<Rightarrow> bool" where
  "plan_numbers_ok c = (\<forall>(nr, co) \<in> set (cpl_outcomes c). c_number_ok (co_fail co) \<and> c_number_ok (co_delay co))"

lemma c_number_ok_iff: "c_number_ok q \<longleftrightarrow> \<not> c_out_of_range q"
  by (auto simp: c_number_ok_def c_out_of_range_def unit_or_nan_dlt)

lemma to_outcome_numbers: "to_outcome co = Inr ou \<Longrightarrow> c_number_ok (co_fail co) \<and> c_number_ok (co_delay co)"
  using Probability_cases [of "co_fail co"] Probability_cases [of "co_delay co"]
  by (auto simp: to_outcome_def rbind_Inr_conv c_number_ok_iff)

lemma add_outcomes_numbers:
  "rfold add_outcome cs m = Inr m' \<Longrightarrow> \<forall>(nr, co) \<in> set cs. c_number_ok (co_fail co) \<and> c_number_ok (co_delay co)"
  by (induction cs arbitrary: m) (auto simp: add_outcome_def rbind_Inr_conv dest: to_outcome_numbers)

lemma add_outcomes_accept:
  assumes "\<forall>(nr, co) \<in> set cs. unat (co_num_errors co) \<le> length (co_error_wts co)"
    and "\<forall>(nr, co) \<in> set cs. c_number_ok (co_fail co) \<and> c_number_ok (co_delay co)"
  shows "\<exists>m'. rfold add_outcome cs m = Inr m'"
  using assms
proof (induction cs arbitrary: m)
  case (Cons x cs)
  obtain nr co where x: "x = (nr, co)" by (cases x)
  with Cons.prems have "unat (co_num_errors co) \<le> length (co_error_wts co)"
    "\<not> c_out_of_range (co_fail co)" "\<not> c_out_of_range (co_delay co)"
    by (simp_all add: c_number_ok_iff)
  with to_outcome_cases [of co] obtain ou where "to_outcome co = Inr ou" by blast
  with Cons x show ?case by (simp add: add_outcome_step)
qed simp

text \<open>For concrete runs: a plan that fails every \<open>write\<close> with probability \<open>p\<close> and \<open>EINTR\<close>.\<close>

definition demo_c_outcome :: "rat \<Rightarrow> c_outcome" where
  "demo_c_outcome p =
     \<lparr>co_fail = \<lparr>cp_p = Fin p, cp_after_bias = Fin 0\<rparr>, co_delay = \<lparr>cp_p = Fin 0, cp_after_bias = Fin 0\<rparr>,
      co_max_delay_usec = 0, co_ctx = 0, co_eligible = None, co_num_errors = 1,
      co_error_wts = [\<lparr>ce_nerror = 4, ce_weight = Fin 1\<rparr>]\<rparr>"

definition demo_c_plan :: "rat \<Rightarrow> c_plan" where
  "demo_c_plan p =
     \<lparr>cpl_strategy = 1, cpl_poll_itvl_usec = 10000, cpl_ctx = 0, cpl_selector = None,
      cpl_outcomes = [(1, demo_c_outcome p)]\<rparr>"

lemma demo_c_valid: "c_valid (demo_c_outcome 1)"
  by (simp add: c_valid_def demo_c_outcome_def in_unit_def)

section \<open>Properties\<close>

text \<open>
  C28. A C plan with valid outcomes is translated completely: for every system call the first outcome
  in the chain counts, its error weights are those of the caller's array (the first weight of an
  error counts) in increasing order of the errors, null callbacks accept everything, strategy 1 polls at the given
  interval, and every other strategy, known or not, means no discovery.
\<close>

theorem c_plan_translated:
  assumes "\<forall>(nr, co) \<in> set (cpl_outcomes c). c_valid co"
  shows "\<exists>p. to_plan c = Inr p \<and>
    (\<forall>nr. tab_find (pl_outcomes p) nr = map_option outcome_of (map_of (cpl_outcomes c) nr)) \<and>
    (\<forall>co err. map_of (o_error_weights (outcome_of co)) err = map_of (c_errors co) err) \<and>
    (\<forall>co. omap_wf int_lt (o_error_weights (outcome_of co))) \<and>
    (\<forall>tid. pl_selector p tid = (case cpl_selector c of None \<Rightarrow> True | Some f \<Rightarrow> f (cpl_ctx c) tid \<noteq> 0)) \<and>
    pl_thd_disc p = (if cpl_strategy c = 1 then ProcPoll (ucast (cpl_poll_itvl_usec c)) else NoDiscovery)"
proof -
  obtain p where p: "to_plan c = Inr p" "pl_thd_disc p = tdisc_strategy c"
    "pl_selector p = c_accepts (cpl_selector c) (cpl_ctx c)"
    "\<And>nr. tab_find (pl_outcomes p) nr = map_option outcome_of (map_of (cpl_outcomes c) nr)"
    by (rule to_plan_valid [OF assms]) blast
  have "map_of (o_error_weights (outcome_of co)) err = map_of (c_errors co) err" for co err
    unfolding outcome_of_def by (simp add: int_key.omap.look_fill)
  moreover have "omap_wf int_lt (o_error_weights (outcome_of co))" for co
    unfolding outcome_of_def by (simp add: int_key.omap.ok_fold_ins int_key.omap.ok_emp)
  ultimately show ?thesis using p by (auto simp: c_accepts_def tdisc_strategy_def)
qed

theorem c_plan_translated_witness:
  "\<exists>p. to_plan (demo_c_plan 1) = Inr p \<and> tab_find (pl_outcomes p) 1 = Some (outcome_of (demo_c_outcome 1))"
  using c_plan_translated [of "demo_c_plan 1"] demo_c_valid by (auto simp: demo_c_plan_def)

text \<open>
  C33. The check of a C plan and the type of what passes it. A plan that is accepted, whatever it
  holds, has every probability and bias of every node of the chain, overridden ones included, from 0
  to 1 or not-a-number, and gives a plan with such numbers, one outcome per call and the weights of
  each ordered by error, and an active plan with its errors ordered by cumulative weight. If the
  arrays are as long as the counts say, a plan is accepted exactly when all its numbers are in range,
  and otherwise \<open>std::invalid_argument\<close> is thrown.
\<close>

theorem c_plan_typed:
  "(\<forall>p. to_plan c = Inr p \<longrightarrow> plan_numbers_ok c \<and> plan_ok p \<and> active_ok (ActivePlan rnd p)) \<and>
   ((\<forall>(nr, co) \<in> set (cpl_outcomes c). unat (co_num_errors co) \<le> length (co_error_wts co)) \<longrightarrow>
     (if plan_numbers_ok c then \<exists>p. to_plan c = Inr p
      else \<exists>msg. to_plan c = Inl (Throw (Invalid_argument msg))))"
proof (intro conjI allI impI)
  fix p
  assume "to_plan c = Inr p"
  then obtain outcomes where o: "rfold add_outcome (cpl_outcomes c) [] = Inr outcomes" "pl_outcomes p = outcomes"
    by (auto simp: to_plan_def rbind_Inr_conv)
  show "plan_numbers_ok c" using add_outcomes_numbers [OF o(1)] by (simp add: plan_numbers_ok_def)
  have "tab_wf outcomes \<and> (\<forall>(nr, ou) \<in> set outcomes. outcome_ok ou)"
    by (rule rfold_invariant [OF o(1)]) (use add_outcome_ok in auto)
  then show "plan_ok p" using o(2) by (simp add: plan_ok_def)
  then show "active_ok (ActivePlan rnd p)" using ActivePlan_ok by blast
next
  assume fit: "\<forall>(nr, co) \<in> set (cpl_outcomes c). unat (co_num_errors co) \<le> length (co_error_wts co)"
  show "if plan_numbers_ok c then \<exists>p. to_plan c = Inr p else \<exists>msg. to_plan c = Inl (Throw (Invalid_argument msg))"
  proof (cases "plan_numbers_ok c")
    case True
    then obtain m where "rfold add_outcome (cpl_outcomes c) [] = Inr m"
      using add_outcomes_accept [OF fit, of "[]"] unfolding plan_numbers_ok_def by blast
    with True show ?thesis by (simp add: to_plan_def)
  next
    case False
    then have "\<exists>(nr, co) \<in> set (cpl_outcomes c). c_out_of_range (co_fail co) \<or> c_out_of_range (co_delay co)"
      by (auto simp: plan_numbers_ok_def c_number_ok_iff)
    from add_outcomes_reject [OF fit this, of "[]"] False show ?thesis by (auto simp: to_plan_def)
  qed
qed

theorem c_plan_typed_witness:
  "(\<exists>p. to_plan (demo_c_plan 1) = Inr p \<and> plan_ok p \<and> active_ok (ActivePlan Fin p)) \<and>
   (\<exists>msg. to_plan (demo_c_plan 2) = Inl (Throw (Invalid_argument msg)))"
proof -
  have "\<forall>(nr, co) \<in> set (cpl_outcomes (demo_c_plan p)). unat (co_num_errors co) \<le> length (co_error_wts co)" for p
    by (simp add: demo_c_plan_def demo_c_outcome_def)
  note fit = this [of 1] this [of 2]
  have ok: "plan_numbers_ok (demo_c_plan 1)" "\<not> plan_numbers_ok (demo_c_plan 2)"
    by (simp_all add: plan_numbers_ok_def c_number_ok_def demo_c_plan_def demo_c_outcome_def unit_or_nan_def)
  from c_plan_typed [of "demo_c_plan 1" Fin] fit(1) ok(1)
  have "\<exists>p. to_plan (demo_c_plan 1) = Inr p \<and> plan_ok p \<and> active_ok (ActivePlan Fin p)" by metis
  moreover from c_plan_typed [of "demo_c_plan 2" Fin] fit(2) ok(2)
  have "\<exists>msg. to_plan (demo_c_plan 2) = Inl (Throw (Invalid_argument msg))" by metis
  ultimately show ?thesis by blast
qed

text \<open>
  The accessors a C predicate uses see the same call as a C++ predicate of six arguments, and an
  index without an argument aborts.
\<close>

lemma c_args_agree:
  "\<exists>a1 a2 a3 a4 a5 a6. map (sysfail_syscall_arg regs) [0, 1, 2, 3, 4, 5] = map Inr [a1, a2, a3, a4, a5, a6] \<and>
     inv_p (Six_p f) regs = f (sysfail_syscall regs) a1 a2 a3 a4 a5 a6 \<and>
     (sysfail_syscall_arg regs i = Inl Abort \<longleftrightarrow> i \<notin> {0..5})"
  by (auto simp: sysfail_syscall_arg_def sysfail_syscall_def inv_args)

text \<open>
  A C plan with a probability or a bias out of range, in any of its outcomes, starts no
  session: \<open>std::invalid_argument\<close> leaves \<open>sysfail_start\<close>.
\<close>

lemma c_plan_rejected:
  assumes "\<forall>(nr, co) \<in> set (cpl_outcomes c). unat (co_num_errors co) \<le> length (co_error_wts co)"
    and "\<exists>(nr, co) \<in> set (cpl_outcomes c). c_out_of_range (co_fail co) \<or> c_out_of_range (co_delay co)"
  shows "\<exists>msg. sysfail_start rnd env os (Some c) pr = Inl (Throw (Invalid_argument msg))"
  using add_outcomes_reject [OF assms, of "[]"] by (auto simp: sysfail_start_def to_plan_def)

text \<open>
  The handle that a valid C plan gives stops what it started: \<open>stop\<close> leaves a process without
  a session, an empty table and no living thread dispatched.
\<close>

lemma c_start_stop:
  assumes "idle alive pr" "responsive alive env" "can_start os text"
    and "to_plan c = Inr plan" "first_found plan os tids"
  shows "\<exists>s pr1 pr2. sysfail_start rnd env os (Some c) pr = Inr (Some s, pr1) \<and>
    tracked (p_world pr1) = first_tracked plan os tids \<and> cs_stop s env pr1 = Inr pr2 \<and> idle alive pr2"
proof -
  from start_ok [OF assms(1,2,3,5), of rnd] obtain pr1 where
    pr1: "Session rnd env os plan pr = Inr pr1" "sess_ok alive pr1"
      "tracked (p_world pr1) = first_tracked plan os tids"
    by blast
  with destroy_idle [OF pr1(2) assms(2)] assms(4) show ?thesis by (auto simp: sysfail_start_def)
qed

end
