(* ===== verification/C_Heap.thy ===== *)
theory C_Heap
  imports CWrapper
begin

text \<open>
  The C interface on memory: the chain of outcomes that \<open>sysfail_start\<close> follows along \<open>next\<close>, and
  the handle it allocates, which \<open>stop\<close> frees together with the session behind it. Theory
  \<open>CWrapper\<close> has the same functions on lists; here a chain may close on itself or leave the nodes
  that are there, and a handle may be used after it was freed.
\<close>

section \<open>Memory\<close>

text \<open>An address is a word and null is \<open>0\<close>.\<close>

type_synonym addr = u64

text \<open>A node is \<open>sysfail_syscall_outcome_t\<close>.\<close>

record c_node =
  cn_next :: addr
  cn_syscall :: i32
  cn_outcome :: c_outcome

type_synonym c_nodes = "addr \<rightharpoonup> c_node"

text \<open>\<open>sysfail_plan_t\<close>, with a pointer to the first node.\<close>

record c_plan_at =
  cpa_strategy :: i32
  cpa_poll_itvl_usec :: i32
  cpa_ctx :: u64
  cpa_selector :: "(u64 \<Rightarrow> pid \<Rightarrow> i32) option"
  cpa_outcomes :: addr

text \<open>The nodes of the caller, the handles with their \<open>data\<close>, the sessions, and the process.\<close>

record c_mem =
  cm_nodes :: c_nodes
  cm_handles :: "addr \<rightharpoonup> addr"
  cm_sessions :: "addr set"
  cm_proc :: proc

section \<open>Start\<close>

text \<open>
  The loop over the chain. It may not return: then its value is \<open>None\<close>.
\<close>

partial_function (option) walk_outcomes ::
    "c_nodes \<Rightarrow> addr \<Rightarrow> (i32, outcome) table \<Rightarrow> (i32, outcome) table result option" where
  "walk_outcomes h p m =
     (if p = 0 then Some (Inr m)
      else case h p of
          None \<Rightarrow> Some (Inl (Undefined ''outcome pointer''))
        | Some n \<Rightarrow>
            (case add_outcome (cn_syscall n, cn_outcome n) m of
               Inl e \<Rightarrow> Some (Inl e)
             | Inr m' \<Rightarrow> walk_outcomes h (cn_next n) m'))"

text \<open>The plan without its outcomes.\<close>

definition plan_head :: "c_plan_at \<Rightarrow> c_plan" where
  "plan_head c =
     \<lparr>cpl_strategy = cpa_strategy c, cpl_poll_itvl_usec = cpa_poll_itvl_usec c, cpl_ctx = cpa_ctx c,
      cpl_selector = cpa_selector c, cpl_outcomes = []\<rparr>"

text \<open>
  \<open>d\<close> and \<open>a\<close> are the addresses the two allocations give. An exception that leaves the constructor
  frees what was allocated for the session.
\<close>

definition new_session ::
    "(rat \<Rightarrow> dbl) \<Rightarrow> env \<Rightarrow> outside \<Rightarrow> plan \<Rightarrow> addr \<Rightarrow> addr \<Rightarrow> c_mem \<Rightarrow> (addr \<times> c_mem) result" where
  "new_session rnd env os plan d a m =
     rbind (Session rnd env os plan (cm_proc m)) (\<lambda>pr.
     Inr (a, m\<lparr>cm_proc := pr, cm_sessions := insert d (cm_sessions m), cm_handles := (cm_handles m)(a \<mapsto> d)\<rparr>))"

definition sysfail_start_at ::
    "(rat \<Rightarrow> dbl) \<Rightarrow> env \<Rightarrow> outside \<Rightarrow> c_plan_at option \<Rightarrow> addr \<Rightarrow> addr \<Rightarrow> c_mem \<Rightarrow> (addr \<times> c_mem) result option" where
  "sysfail_start_at rnd env os c_plan d a m =
     (case c_plan of
        None \<Rightarrow> Some (Inr (0, m))
      | Some c \<Rightarrow>
          map_option (\<lambda>r. rbind r (\<lambda>outcomes.
            new_session rnd env os
              \<lparr>pl_outcomes = outcomes, pl_selector = c_accepts (cpa_selector c) (cpa_ctx c),
               pl_thd_disc = tdisc_strategy (plan_head c)\<rparr> d a m))
            (walk_outcomes (cm_nodes m) (cpa_outcomes c) []))"

section \<open>The function pointers of a handle\<close>

text \<open>Following a handle and its \<open>data\<close>.\<close>

definition follow_handle :: "addr \<Rightarrow> c_mem \<Rightarrow> addr result" where
  "follow_handle a m =
     (case cm_handles m a of
        None \<Rightarrow> Inl (Undefined ''session handle'')
      | Some d \<Rightarrow> if d \<in> cm_sessions m then Inr d else Inl (Undefined ''session''))"

definition c_call :: "env \<Rightarrow> api \<Rightarrow> addr \<Rightarrow> c_mem \<Rightarrow> c_mem result" where
  "c_call env op a m =
     rbind (follow_handle a m) (\<lambda>d.
     rbind (run_api env op (cm_proc m)) (\<lambda>pr. Inr (m\<lparr>cm_proc := pr\<rparr>)))"

definition c_stop :: "env \<Rightarrow> addr \<Rightarrow> c_mem \<Rightarrow> c_mem result" where
  "c_stop env a m =
     rbind (follow_handle a m) (\<lambda>d.
     rbind (Session_destroy env (cm_proc m)) (\<lambda>pr.
     Inr (m\<lparr>cm_proc := pr, cm_sessions := cm_sessions m - {d}, cm_handles := (cm_handles m)(a := None)\<rparr>)))"

section \<open>Chains\<close>

text \<open>A pointer to a chain with these nodes, which ends in null.\<close>

fun chain :: "c_nodes \<Rightarrow> addr \<Rightarrow> c_node list \<Rightarrow> bool" where
  "chain h p [] = (p = 0)"
| "chain h p (n # ns) = (p \<noteq> 0 \<and> h p = Some n \<and> chain h (cn_next n) ns)"

definition entry :: "c_node \<Rightarrow> i32 \<times> c_outcome" where
  "entry n = (cn_syscall n, cn_outcome n)"

text \<open>The same plan with its outcomes as a list.\<close>

definition plan_of :: "c_plan_at \<Rightarrow> c_node list \<Rightarrow> c_plan" where
  "plan_of c ns = (plan_head c)\<lparr>cpl_outcomes := map entry ns\<rparr>"

text \<open>A chain has one list of nodes.\<close>

lemma chain_fun: "chain h p ns \<Longrightarrow> chain h p ns' \<Longrightarrow> ns = ns'"
  by (induction h p ns arbitrary: ns' rule: chain.induct) (case_tac ns'; auto)+

text \<open>Along a chain the loop is the fold over its nodes.\<close>

lemma walk_chain: "chain h p ns \<Longrightarrow> walk_outcomes h p m = Some (rfold add_outcome (map entry ns) m)"
proof (induction h p ns arbitrary: m rule: chain.induct)
  case (1 h p)
  then show ?case by (simp add: walk_outcomes.simps)
next
  case (2 h p n ns)
  then show ?case
    by (cases "add_outcome (cn_syscall n, cn_outcome n) m") (simp_all add: walk_outcomes.simps [of h p] entry_def)
qed

text \<open>Nodes that lead from one to the next and never to null: the loop does not return.\<close>

definition endless :: "c_nodes \<Rightarrow> addr set \<Rightarrow> bool" where
  "endless h S = (0 \<notin> S \<and> (\<forall>p \<in> S. \<exists>n ou. h p = Some n \<and> to_outcome (cn_outcome n) = Inr ou \<and> cn_next n \<in> S))"

lemma walk_not_endless:
  assumes "walk_outcomes h p m = Some r"
  shows "endless h S \<longrightarrow> p \<notin> S"
proof (rule walk_outcomes.raw_induct [OF _ assms, of "\<lambda>h p m r. endless h S \<longrightarrow> p \<notin> S"], intro impI notI)
  fix walk h p m r
  assume IH: "\<And>h p m r. walk h p m = Some r \<Longrightarrow> endless h S \<longrightarrow> p \<notin> S" and S: "endless h S" "p \<in> S"
    and r: "(if p = 0 then Some (Inr m) else case h p of None \<Rightarrow> Some (Inl (Undefined ''outcome pointer''))
        | Some n \<Rightarrow> (case add_outcome (cn_syscall n, cn_outcome n) m of Inl e \<Rightarrow> Some (Inl e)
            | Inr m' \<Rightarrow> walk h (cn_next n) m')) = Some r"
  then obtain n ou where n: "p \<noteq> 0" "h p = Some n" "to_outcome (cn_outcome n) = Inr ou" "cn_next n \<in> S"
    unfolding endless_def by metis
  then have "walk h (cn_next n) (tab_insert (cn_syscall n) ou m) = Some r" using r by (simp add: add_outcome_step)
  with IH S(1) n(4) show False by blast
qed

lemma walk_endless: "endless h S \<Longrightarrow> p \<in> S \<Longrightarrow> walk_outcomes h p m = None"
  using walk_not_endless [of h p m _ S] by (cases "walk_outcomes h p m") auto

text \<open>Nodes a caller may give: every outcome is valid and every pointer leads to a node or is null.\<close>

definition nodes_ok :: "c_nodes \<Rightarrow> bool" where
  "nodes_ok h = (\<forall>p n. h p = Some n \<longrightarrow> c_valid (cn_outcome n) \<and> (cn_next n = 0 \<or> h (cn_next n) \<noteq> None))"

text \<open>Then the loop returns exactly on chains.\<close>

lemma walk_returns_iff:
  assumes "nodes_ok h" "p = 0 \<or> h p \<noteq> None"
  shows "walk_outcomes h p m \<noteq> None \<longleftrightarrow> (\<exists>ns. chain h p ns)"
proof
  assume ret: "walk_outcomes h p m \<noteq> None"
  show "\<exists>ns. chain h p ns"
  proof (rule ccontr)
    assume no: "\<nexists>ns. chain h p ns"
    let ?S = "{q. q \<noteq> 0 \<and> h q \<noteq> None \<and> (\<nexists>ns. chain h q ns)}"
    have "\<exists>n ou. h q = Some n \<and> to_outcome (cn_outcome n) = Inr ou \<and> cn_next n \<in> ?S" if q: "q \<in> ?S" for q
    proof -
      obtain n where n: "h q = Some n" using q by auto
      with assms(1) have v: "c_valid (cn_outcome n)" "cn_next n = 0 \<or> h (cn_next n) \<noteq> None"
        unfolding nodes_ok_def by blast+
      have "\<not> chain h (cn_next n) ns" for ns
        using q n chain.simps(2) [of h q n ns] by blast
      then have "cn_next n \<in> ?S" using v(2) chain.simps(1) [of h "cn_next n"] by blast
      with n to_outcome_valid [OF v(1)] show ?thesis by blast
    qed
    then have "endless h ?S" unfolding endless_def by blast
    moreover have "p \<in> ?S" using no assms(2) chain.simps(1) [of h p] by blast
    ultimately show False using walk_endless [of h ?S p m] ret by simp
  qed
qed (auto simp: walk_chain)

lemma chain_valid: "nodes_ok h \<Longrightarrow> chain h p ns \<Longrightarrow> \<forall>n \<in> set ns. c_valid (cn_outcome n)"
  by (induction h p ns rule: chain.induct) (auto simp: nodes_ok_def)

section \<open>Handles\<close>

text \<open>
  What a holder of handles relies on: a call on a live handle returns and leaves it live, \<open>stop\<close>
  returns and leaves it dead, and nothing may be done with a dead handle.
\<close>

locale handles =
  fixes ok :: "'m \<Rightarrow> bool"
    and live :: "'m \<Rightarrow> 'a \<Rightarrow> bool"
    and allowed :: "'op \<Rightarrow> bool"
    and call :: "'op \<Rightarrow> 'a \<Rightarrow> 'm \<Rightarrow> 'm result"
    and stop :: "'a \<Rightarrow> 'm \<Rightarrow> 'm result"
  assumes call_live: "ok m \<Longrightarrow> live m a \<Longrightarrow> allowed op \<Longrightarrow>
      \<exists>m'. call op a m = Inr m' \<and> ok m' \<and> live m' = live m"
    and stop_live: "ok m \<Longrightarrow> live m a \<Longrightarrow> \<exists>m'. stop a m = Inr m' \<and> \<not> live m' a"
    and call_dead: "\<not> live m a \<Longrightarrow> \<exists>why. call op a m = Inl (Undefined why)"
    and stop_dead: "\<not> live m a \<Longrightarrow> \<exists>why. stop a m = Inl (Undefined why)"
begin

lemma calls_live:
  assumes "ok m" "live m a" "\<forall>op \<in> set ops. allowed op"
  shows "\<exists>m'. rfold (\<lambda>op. call op a) ops m = Inr m' \<and> ok m' \<and> live m' = live m"
proof -
  have "\<exists>m'. rfold (\<lambda>op. call op a) ops m = Inr m' \<and> (ok m' \<and> live m' = live m)"
    by (rule rfold_total) (use assms call_live in fastforce)+
  then show ?thesis by simp
qed

lemma calls_stop:
  assumes "ok m" "live m a" "\<forall>op \<in> set ops. allowed op"
  shows "\<exists>m1 m2. rfold (\<lambda>op. call op a) ops m = Inr m1 \<and> ok m1 \<and> stop a m1 = Inr m2 \<and> \<not> live m2 a \<and>
    (\<forall>op. \<exists>why. call op a m2 = Inl (Undefined why)) \<and> (\<exists>why. stop a m2 = Inl (Undefined why))"
proof -
  from calls_live [OF assms] obtain m1 where m1: "rfold (\<lambda>op. call op a) ops m = Inr m1" "ok m1" "live m1 a"
    using assms(2) by auto
  from stop_live [OF m1(2,3)] obtain m2 where "stop a m1 = Inr m2" "\<not> live m2 a" by blast
  with m1 call_dead [of m2 a] stop_dead [of m2 a] show ?thesis by metis
qed

end

definition live_handle :: "c_mem \<Rightarrow> addr \<Rightarrow> bool" where
  "live_handle m a = (\<exists>d. cm_handles m a = Some d \<and> d \<in> cm_sessions m)"

lemma follow_live: "live_handle m a \<longleftrightarrow> (\<exists>d. follow_handle a m = Inr d)"
  by (auto simp: live_handle_def follow_handle_def split: option.splits if_splits)

lemma follow_dead: "\<not> live_handle m a \<Longrightarrow> \<exists>why. follow_handle a m = Inl (Undefined why)"
  by (auto simp: live_handle_def follow_handle_def split: option.splits if_splits)

interpretation hdl: handles "\<lambda>m. sess_ok alive (cm_proc m) \<and> responsive alive env" live_handle "api_ok alive" "c_call env" "c_stop env"
  for alive env
proof
  fix m a op
  assume m: "sess_ok alive (cm_proc m) \<and> responsive alive env" and l: "live_handle m a" and op: "api_ok alive op"
  from l obtain d where d: "follow_handle a m = Inr d" by (auto simp: follow_live)
  from run_api_step [OF _ _ op] m obtain pr where pr: "run_api env op (cm_proc m) = Inr pr" "sess_ok alive pr" by blast
  with d m show "\<exists>m'. c_call env op a m = Inr m' \<and> (sess_ok alive (cm_proc m') \<and> responsive alive env) \<and> live_handle m' = live_handle m"
    by (intro exI [of _ "m\<lparr>cm_proc := pr\<rparr>"]) (auto simp: c_call_def live_handle_def fun_eq_iff)
next
  fix m a
  assume m: "sess_ok alive (cm_proc m) \<and> responsive alive env" and l: "live_handle m a"
  from destroy_idle m obtain pr where pr: "Session_destroy env (cm_proc m) = Inr pr" by blast
  from l obtain d where d: "follow_handle a m = Inr d" by (auto simp: follow_live)
  with pr show "\<exists>m'. c_stop env a m = Inr m' \<and> \<not> live_handle m' a"
    by (simp add: c_stop_def live_handle_def)
qed (use follow_dead in \<open>force simp: c_call_def c_stop_def\<close>)+

text \<open>Calls and \<open>stop\<close> change of the memory only what they are about.\<close>

lemma c_call_frame:
  "c_call env op a m = Inr m' \<Longrightarrow>
    cm_handles m' = cm_handles m \<and> cm_sessions m' = cm_sessions m \<and> cm_nodes m' = cm_nodes m"
  by (auto simp: c_call_def rbind_Inr_conv)

lemma c_calls_frame:
  assumes "rfold (\<lambda>op. c_call env op a) ops m = Inr m'"
  shows "cm_handles m' = cm_handles m \<and> cm_sessions m' = cm_sessions m \<and> cm_nodes m' = cm_nodes m"
  by (rule rfold_invariant [OF assms]) (use c_call_frame in auto)

lemma c_stop_frame:
  assumes "c_stop env a m = Inr m'" "cm_handles m a = Some d"
  shows "cm_handles m' = (cm_handles m)(a := None) \<and> cm_sessions m' = cm_sessions m - {d} \<and>
    cm_nodes m' = cm_nodes m \<and> Session_destroy env (cm_proc m) = Inr (cm_proc m')"
  using assms by (auto simp: c_stop_def follow_handle_def rbind_Inr_conv split: if_splits)

text \<open>The destructor leaves no session, whichever it was called for.\<close>

lemma destroy_global: "Session_destroy env pr = Inr pr' \<Longrightarrow> \<not> w_global (p_world pr')"
  by (auto simp: Session_destroy_def drop_tmon_def rbind_Inr_conv Let_def split: if_splits option.splits)

lemma start_at_chain:
  assumes "chain (cm_nodes m) (cpa_outcomes c) ns"
  shows "sysfail_start_at rnd env os (Some c) d a m =
    Some (rbind (to_plan (plan_of c ns)) (\<lambda>plan. new_session rnd env os plan d a m))"
  by (cases "rfold add_outcome (map entry ns) []")
    (simp_all add: sysfail_start_at_def walk_chain [OF assms] to_plan_def plan_of_def plan_head_def tdisc_strategy_def)

text \<open>For concrete runs: a plan with one node, which leads on to the given address.\<close>

definition demo_c_mem :: "addr \<Rightarrow> c_mem" where
  "demo_c_mem next =
     \<lparr>cm_nodes = [16 \<mapsto> \<lparr>cn_next = next, cn_syscall = 1, cn_outcome = demo_c_outcome 1\<rparr>],
      cm_handles = Map.empty, cm_sessions = {}, cm_proc = demo_proc\<rparr>"

definition demo_plan_at :: c_plan_at where
  "demo_plan_at =
     \<lparr>cpa_strategy = 1, cpa_poll_itvl_usec = 10000, cpa_ctx = 0, cpa_selector = None, cpa_outcomes = 16\<rparr>"

lemma demo_chain:
  "chain (cm_nodes (demo_c_mem 0)) (cpa_outcomes demo_plan_at) [\<lparr>cn_next = 0, cn_syscall = 1, cn_outcome = demo_c_outcome 1\<rparr>]"
  by (simp add: demo_c_mem_def demo_plan_at_def)

lemma demo_cycle: "\<not> chain (cm_nodes (demo_c_mem 16)) 16 ns"
  by (induction ns) (auto simp: demo_c_mem_def)

lemma demo_found_any: "first_found plan demo_os [1, 2, 3, 9]"
  using demo_lists by (auto simp: first_found_def demo_os_def split: strategy.split)

section \<open>Properties\<close>

text \<open>
  On a chain that ends in null, the start on memory is the start on the list of its outcomes: it
  returns, with the same error, or with a new handle to a session in the same state of the process.
\<close>

lemma c_start_refines:
  assumes "chain (cm_nodes m) (cpa_outcomes c) ns"
  shows "sysfail_start_at rnd env os (Some c) d a m =
    Some (rbind (sysfail_start rnd env os (Some (plan_of c ns)) (cm_proc m)) (\<lambda>(s, pr).
      Inr (a, m\<lparr>cm_proc := pr, cm_sessions := insert d (cm_sessions m), cm_handles := (cm_handles m)(a \<mapsto> d)\<rparr>)))"
proof (cases "to_plan (plan_of c ns)")
  case (Inr plan)
  then show ?thesis
    by (cases "Session rnd env os plan (cm_proc m)")
      (simp_all add: start_at_chain [OF assms] new_session_def sysfail_start_def)
qed (simp add: start_at_chain [OF assms] sysfail_start_def)

text \<open>
  C30. On nodes with valid outcomes and pointers, in an environment in which a session can start,
  \<open>sysfail_start\<close> has one of two ends: when the chain ends in null it returns the new handle, which
  is live, with the session running; when it does not (it closes on itself) the loop over it does
  not end.
\<close>

theorem c_start_returns:
  assumes "nodes_ok (cm_nodes m)" "cpa_outcomes c = 0 \<or> cm_nodes m (cpa_outcomes c) \<noteq> None"
    and "idle alive (cm_proc m)" "responsive alive env" "can_start os text"
    and "\<And>plan. pl_thd_disc plan = tdisc_strategy (plan_head c) \<Longrightarrow> first_found plan os tids"
  shows "if \<exists>ns. chain (cm_nodes m) (cpa_outcomes c) ns
    then \<exists>m'. sysfail_start_at rnd env os (Some c) d a m = Some (Inr (a, m')) \<and> live_handle m' a \<and>
      sess_ok alive (cm_proc m') \<and> cm_nodes m' = cm_nodes m
    else sysfail_start_at rnd env os (Some c) d a m = None"
proof (cases "\<exists>ns. chain (cm_nodes m) (cpa_outcomes c) ns")
  case True
  then obtain ns where ns: "chain (cm_nodes m) (cpa_outcomes c) ns" by blast
  obtain plan where plan: "to_plan (plan_of c ns) = Inr plan" "pl_thd_disc plan = tdisc_strategy (plan_head c)"
    by (rule to_plan_valid [of "plan_of c ns"])
      (use chain_valid [OF assms(1) ns] in \<open>auto simp: plan_of_def entry_def tdisc_strategy_def plan_head_def\<close>)
  from start_ok [OF assms(3-5) assms(6) [OF plan(2)], of rnd] obtain pr where
    "Session rnd env os plan (cm_proc m) = Inr pr" "sess_ok alive pr" by blast
  with True show ?thesis by (simp add: start_at_chain [OF ns] plan(1) new_session_def live_handle_def)
next
  case False
  then show ?thesis using walk_returns_iff [OF assms(1,2), of "[]"] by (simp add: sysfail_start_at_def)
qed

theorem c_start_returns_witness:
  "(\<exists>m'. sysfail_start_at Fin demo_env demo_os (Some demo_plan_at) 8 24 (demo_c_mem 0) = Some (Inr (24, m')) \<and>
     live_handle m' 24) \<and>
   sysfail_start_at Fin demo_env demo_os (Some demo_plan_at) 8 24 (demo_c_mem 16) = None"
proof -
  have n: "nodes_ok (cm_nodes (demo_c_mem q))" if "q = 0 \<or> q = 16" for q
    using demo_c_valid that by (auto simp: nodes_ok_def demo_c_mem_def)
  have h: "cpa_outcomes demo_plan_at = 0 \<or> cm_nodes (demo_c_mem q) (cpa_outcomes demo_plan_at) \<noteq> None"
    "idle (\<lambda>_. True) (cm_proc (demo_c_mem q))" for q
    by (simp_all add: demo_plan_at_def demo_c_mem_def)
  note s = c_start_returns [OF _ h demo_env_ok demo_can_start demo_found_any, of _ Fin 8 24]
  have "\<not> (\<exists>ns. chain (cm_nodes (demo_c_mem 16)) (cpa_outcomes demo_plan_at) ns)"
    using demo_cycle by (simp add: demo_plan_at_def)
  with s [OF n, of 16] have "sysfail_start_at Fin demo_env demo_os (Some demo_plan_at) 8 24 (demo_c_mem 16) = None"
    by simp
  moreover have "\<exists>ns. chain (cm_nodes (demo_c_mem 0)) (cpa_outcomes demo_plan_at) ns" using demo_chain by blast
  with s [OF n, of 0] have "\<exists>m'. sysfail_start_at Fin demo_env demo_os (Some demo_plan_at) 8 24 (demo_c_mem 0) =
      Some (Inr (24, m')) \<and> live_handle m' 24"
    by auto
  ultimately show ?thesis by blast
qed

text \<open>
  C21. A handle from start to stop: on an idle process a chain of valid outcomes gives a new handle,
  every sequence of calls on it returns, and \<open>stop\<close> leaves the process idle and the memory as it
  was before the start. After that every use of the handle is undefined.
\<close>

theorem c_handle_roundtrip:
  assumes "idle alive (cm_proc m)" "responsive alive env" "can_start os text"
    and "chain (cm_nodes m) (cpa_outcomes c) ns" "to_plan (plan_of c ns) = Inr plan" "first_found plan os tids"
    and "cm_handles m a = None" "d \<notin> cm_sessions m" "\<forall>op \<in> set ops. api_ok alive op"
  shows "\<exists>m1 m2 m3. sysfail_start_at rnd env os (Some c) d a m = Some (Inr (a, m1)) \<and>
    tracked (p_world (cm_proc m1)) = first_tracked plan os tids \<and>
    rfold (\<lambda>op. c_call env op a) ops m1 = Inr m2 \<and> c_stop env a m2 = Inr m3 \<and>
    idle alive (cm_proc m3) \<and> m3 = m\<lparr>cm_proc := cm_proc m3\<rparr> \<and>
    (\<forall>op. \<exists>why. c_call env op a m3 = Inl (Undefined why)) \<and> (\<exists>why. c_stop env a m3 = Inl (Undefined why))"
proof -
  from start_ok [OF assms(1,2,3,6), of rnd] obtain pr where
    pr: "Session rnd env os plan (cm_proc m) = Inr pr" "sess_ok alive pr" "tracked (p_world pr) = first_tracked plan os tids"
    by blast
  let ?m1 = "m\<lparr>cm_proc := pr, cm_sessions := insert d (cm_sessions m), cm_handles := (cm_handles m)(a \<mapsto> d)\<rparr>"
  have s: "sysfail_start_at rnd env os (Some c) d a m = Some (Inr (a, ?m1))"
    by (simp add: start_at_chain [OF assms(4)] assms(5) new_session_def pr(1))
  have "live_handle ?m1 a" by (simp add: live_handle_def)
  from hdl.calls_stop [OF _ this assms(9), of env] pr(2) assms(2) obtain m2 m3 where
    m: "rfold (\<lambda>op. c_call env op a) ops ?m1 = Inr m2" "sess_ok alive (cm_proc m2)" "c_stop env a m2 = Inr m3"
      "\<forall>op. \<exists>why. c_call env op a m3 = Inl (Undefined why)" "\<exists>why. c_stop env a m3 = Inl (Undefined why)"
    by auto
  have f: "cm_handles m2 = (cm_handles m)(a \<mapsto> d)" "cm_sessions m2 = insert d (cm_sessions m)" "cm_nodes m2 = cm_nodes m"
    using c_calls_frame [OF m(1)] by simp_all
  have g: "cm_handles m3 = (cm_handles m)(a := None)" "cm_sessions m3 = cm_sessions m" "cm_nodes m3 = cm_nodes m"
    "Session_destroy env (cm_proc m2) = Inr (cm_proc m3)"
    using c_stop_frame [OF m(3), of d] assms(8) f by auto
  then have "m3 = m\<lparr>cm_proc := cm_proc m3\<rparr>" using assms(7) fun_upd_triv [of "cm_handles m" a] by (cases m; cases m3) simp
  moreover have "idle alive (cm_proc m3)" using destroy_idle [OF m(2) assms(2)] g(4) by simp
  ultimately show ?thesis using s m(1,3,4,5) pr(3) by (intro exI [of _ ?m1] exI [of _ m2] exI [of _ m3]) simp
qed

theorem c_handle_roundtrip_witness:
  "\<exists>m1 m2 m3. sysfail_start_at Fin demo_env demo_os (Some demo_plan_at) 8 24 (demo_c_mem 0) = Some (Inr (24, m1)) \<and>
     rfold (\<lambda>op. c_call demo_env op 24) [Api_add 5, Api_remove 1] m1 = Inr m2 \<and>
     c_stop demo_env 24 m2 = Inr m3 \<and> idle (\<lambda>_. True) (cm_proc m3)"
proof -
  let ?c = "plan_of demo_plan_at [\<lparr>cn_next = 0, cn_syscall = 1, cn_outcome = demo_c_outcome 1\<rparr>]"
  obtain plan where plan: "to_plan ?c = Inr plan"
    by (rule to_plan_valid [of ?c]) (use demo_c_valid in \<open>auto simp: plan_of_def entry_def\<close>)
  have "idle (\<lambda>_. True) (cm_proc (demo_c_mem 0))" "cm_handles (demo_c_mem 0) 24 = None" "8 \<notin> cm_sessions (demo_c_mem 0)"
    by (simp_all add: demo_c_mem_def)
  from c_handle_roundtrip [OF this(1) demo_env_ok demo_can_start demo_chain plan demo_found_any this(2,3),
      of "[Api_add 5, Api_remove 1]" Fin]
  show ?thesis by auto
qed

text \<open>
  The session belongs to the process and not to the handle: when one of two live handles is
  stopped, the session of both is gone, every call on the other follows the null pointer, and
  stopping it only frees it.
\<close>

lemma c_two_handles:
  assumes "live_handle m a" "live_handle m b" "cm_handles m a \<noteq> cm_handles m b" "c_stop env a m = Inr m'"
  shows "live_handle m' b \<and> c_call env op b m' = Inl (Undefined ''null session'') \<and>
    (\<exists>m2. c_stop env b m' = Inr m2 \<and> cm_proc m2 = cm_proc m' \<and> \<not> live_handle m2 b)"
proof -
  obtain d e where de: "cm_handles m a = Some d" "cm_handles m b = Some e" "e \<in> cm_sessions m" "d \<noteq> e"
    using assms(1-3) by (auto simp: live_handle_def)
  then have ba: "b \<noteq> a" by auto
  note f = c_stop_frame [OF assms(4) de(1)]
  have "\<not> w_global (p_world (cm_proc m'))" using destroy_global f by blast
  note api_needs_session [OF this, of env op]
  moreover have "follow_handle b m' = Inr e" using f de ba by (simp add: follow_handle_def)
  ultimately show ?thesis using de(4) f ba by (auto simp: c_call_def c_stop_def live_handle_def follow_handle_def split: option.splits if_splits)
qed

end
