(* ===== verification/Go_Wrapper.thy ===== *)
theory Go_Wrapper
  imports C_Heap
begin

text \<open>
  The Go interface, \<open>go/sysfail.go\<close>: plans as Go has them, the start of a session, which lays the
  outcomes out in memory from \<open>malloc\<close> and links them for \<open>sysfail_start\<close>, and the calls on a
  session. What \<open>malloc\<close> and \<open>fstat\<close> answer are parameters. The code tests the answer of \<open>malloc\<close>
  for null and so does the model, although \<open>C.malloc\<close> of cgo ends the process instead of giving null.
\<close>

section \<open>Data\<close>

text \<open>A Go \<open>int\<close> has 64 bits.\<close>

record go_probability =
  gp_P :: dbl
  gp_AfterBias :: dbl

record go_error_weight =
  gw_Nerror :: u64
  gw_Weight :: dbl

definition AlwaysEligible :: u64 where "AlwaysEligible = 0"
definition CustomPredicate :: u64 where "CustomPredicate = 1"
definition EligibleIfFDNotStdInOutErr :: u64 where "EligibleIfFDNotStdInOutErr = 2"

record eligibility =
  el_Eligible :: "(u64 \<Rightarrow> gregs \<Rightarrow> u64) option"
  el_Type :: u64

record go_outcome =
  go_Fail :: go_probability
  go_Delay :: go_probability
  go_MaxDelayUsec :: i32
  go_Ctx :: u64
  go_Eligible :: eligibility
  go_NumErrors :: i32
  go_ErrorWeights :: "go_error_weight list"

record go_syscall_outcome =
  gs_Syscall :: u64
  gs_Outcome :: go_outcome

text \<open>The outcomes are pointers, which may be nil.\<close>

record go_plan =
  gpl_Strategy :: i32
  gpl_PollIntervalUsec :: i32
  gpl_Ctx :: u64
  gpl_SyscallOutcomes :: "go_syscall_outcome option list"

record go_session =
  gss_session :: addr
  gss_plan :: c_plan_at

datatype go_err = ErrStartFailed | ErrMallocFailed | ErrSelectorNotSupported | ErrCustomEligibilityNotSupported

text \<open>A Go function returns an error or a value, unless it, or what it calls, fails.\<close>

type_synonym 'a go = "(go_err + 'a) result"

fun gbind :: "'a go \<Rightarrow> ('a \<Rightarrow> 'b go) \<Rightarrow> 'b go" where
  "gbind (Inl e) f = Inl e"
| "gbind (Inr (Inl e)) f = Inr (Inl e)"
| "gbind (Inr (Inr x)) f = f x"

fun gfold :: "('a \<Rightarrow> 's \<Rightarrow> 's go) \<Rightarrow> 'a list \<Rightarrow> 's \<Rightarrow> 's go" where
  "gfold f [] s = Inr (Inr s)"
| "gfold f (x # xs) s = gbind (f x s) (gfold f xs)"

definition nil_panic :: fault where
  "nil_panic = Throw (Runtime_error ''invalid memory address or nil pointer dereference'')"

section \<open>The eligibility predicate\<close>

text \<open>\<open>fstat\<close> gives the mode of a descriptor, if it has one.\<close>

definition S_ISREG :: "i32 \<Rightarrow> bool" where
  "S_ISREG mode = ((mode AND 0xF000) = 0x8000)"

definition RegularFileOtherThanStdInOutErr :: "(i32 \<Rightarrow> i32 option) \<Rightarrow> u64 \<Rightarrow> gregs \<Rightarrow> i32" where
  "RegularFileOtherThanStdInOutErr fstat ctx regs =
     (case sysfail_syscall_arg regs 0 of
        Inl _ \<Rightarrow> 0
      | Inr arg \<Rightarrow>
          (let fd = to_int arg in
           case fstat fd of
             None \<Rightarrow> 0
           | Some mode \<Rightarrow> if S_ISREG mode \<and> 2 < sint fd then 1 else 0))"

section \<open>Plans\<close>

definition NewPlan ::
    "i32 \<Rightarrow> i32 \<Rightarrow> go_syscall_outcome option list \<Rightarrow> (u64 \<Rightarrow> i32 \<Rightarrow> u64) option \<Rightarrow> u64 \<Rightarrow> go_err + go_plan" where
  "NewPlan strategy pollIntervalUsec syscallOutcomes sel ctx =
     (if sel \<noteq> None then Inl ErrSelectorNotSupported
      else Inr \<lparr>gpl_Strategy = strategy, gpl_PollIntervalUsec = pollIntervalUsec, gpl_Ctx = 0,
                gpl_SyscallOutcomes = syscallOutcomes\<rparr>)"

section \<open>Start\<close>

text \<open>
  What the allocator answers, in elements: a block for so many nodes with what is in it, an array of
  weights for the outcome with this index, and the two allocations of \<open>sysfail_start\<close>.
\<close>

record alloc =
  al_nodes :: "nat \<Rightarrow> (addr \<times> c_node list) option"
  al_errors :: "nat \<Rightarrow> nat \<Rightarrow> c_error_wt list option"
  al_session :: addr
  al_handle :: addr

text \<open>The size of \<open>sysfail_syscall_outcome_t\<close>.\<close>

definition node_size :: nat where
  "node_size = 88"

definition node_at :: "addr \<Rightarrow> nat \<Rightarrow> addr" where
  "node_at base i = base + of_nat (i * node_size)"

definition put_weight :: "nat \<times> go_error_weight \<Rightarrow> c_error_wt list \<Rightarrow> c_error_wt list result" where
  "put_weight = (\<lambda>(j, ew) arr.
     if j < length arr then Inr (arr[j := \<lparr>ce_nerror = to_int (gw_Nerror ew), ce_weight = gw_Weight ew\<rparr>])
     else Inl (Undefined ''write past the error weights''))"

definition fill_errors :: "alloc \<Rightarrow> nat \<Rightarrow> go_outcome \<Rightarrow> c_outcome \<Rightarrow> c_outcome go" where
  "fill_errors al i g co =
     (if go_NumErrors g = 0 then Inr (Inr co)
      else case al_errors al i (unat (go_NumErrors g)) of
          None \<Rightarrow> Inr (Inl ErrMallocFailed)
        | Some arr \<Rightarrow>
            rbind (rfold put_weight (enumerate 0 (go_ErrorWeights g)) arr) (\<lambda>arr.
            Inr (Inr (co\<lparr>co_error_wts := arr\<rparr>))))"

definition c_prob :: "go_probability \<Rightarrow> c_probability" where
  "c_prob q = \<lparr>cp_p = gp_P q, cp_after_bias = gp_AfterBias q\<rparr>"

definition c_eligible :: "(i32 \<Rightarrow> i32 option) \<Rightarrow> go_outcome \<Rightarrow> (u64 \<Rightarrow> gregs \<Rightarrow> i32) option" where
  "c_eligible fstat g =
     (if el_Type (go_Eligible g) = EligibleIfFDNotStdInOutErr then Some (RegularFileOtherThanStdInOutErr fstat)
      else None)"

definition set_outcome :: "alloc \<Rightarrow> (i32 \<Rightarrow> i32 option) \<Rightarrow> nat \<Rightarrow> go_outcome \<Rightarrow> c_outcome \<Rightarrow> c_outcome go" where
  "set_outcome al fstat i g co =
     (if el_Type (go_Eligible g) = CustomPredicate then Inr (Inl ErrCustomEligibilityNotSupported)
      else fill_errors al i g
        (co\<lparr>co_fail := c_prob (go_Fail g), co_delay := c_prob (go_Delay g),
            co_max_delay_usec := go_MaxDelayUsec g, co_ctx := 0, co_eligible := c_eligible fstat g,
            co_num_errors := go_NumErrors g\<rparr>))"

text \<open>One turn of the loop: the node of this index is filled, linked to the one before, and ends the chain.\<close>

definition set_next :: "addr \<Rightarrow> addr \<Rightarrow> c_nodes \<Rightarrow> c_nodes" where
  "set_next p q h = h(p := map_option (\<lambda>n. n\<lparr>cn_next := q\<rparr>) (h p))"

definition add_node ::
    "alloc \<Rightarrow> (i32 \<Rightarrow> i32 option) \<Rightarrow> addr \<Rightarrow> nat \<times> go_syscall_outcome option \<Rightarrow> c_nodes \<times> addr \<Rightarrow> (c_nodes \<times> addr) go" where
  "add_node al fstat base = (\<lambda>(i, outcome) (h, prev).
     let curr = node_at base i in
     case outcome of
       None \<Rightarrow> Inl nil_panic
     | Some g \<Rightarrow>
         (case h curr of
            None \<Rightarrow> Inl (Undefined ''outcome pointer'')
          | Some n \<Rightarrow>
              gbind (set_outcome al fstat i (gs_Outcome g) (cn_outcome n)) (\<lambda>co.
              let h = h(curr \<mapsto> n\<lparr>cn_syscall := to_int (gs_Syscall g), cn_outcome := co\<rparr>);
                  h = (if prev \<noteq> 0 then set_next prev curr h else h)
              in Inr (Inr (set_next curr 0 h, curr)))))"

text \<open>A block of nodes in memory.\<close>

definition block :: "addr \<Rightarrow> c_node list \<Rightarrow> c_nodes" where
  "block base ns = map_of (map (\<lambda>i. (node_at base i, ns ! i)) [0..<length ns])"

definition c_outcomes :: "alloc \<Rightarrow> (i32 \<Rightarrow> i32 option) \<Rightarrow> go_syscall_outcome option list \<Rightarrow> c_nodes \<Rightarrow> (c_nodes \<times> addr) go" where
  "c_outcomes al fstat outcomes h =
     (if outcomes = [] then Inr (Inr (h, 0))
      else case al_nodes al (length outcomes) of
          None \<Rightarrow> Inr (Inl ErrMallocFailed)
        | Some (base, ns) \<Rightarrow>
            gbind (gfold (add_node al fstat base) (enumerate 0 outcomes) (h ++ block base ns, 0)) (\<lambda>(h, prev).
            Inr (Inr (h, base))))"

definition go_c_plan :: "go_plan \<Rightarrow> addr \<Rightarrow> c_plan_at" where
  "go_c_plan plan outcomes =
     \<lparr>cpa_strategy = gpl_Strategy plan, cpa_poll_itvl_usec = gpl_PollIntervalUsec plan, cpa_ctx = 0,
      cpa_selector = None, cpa_outcomes = outcomes\<rparr>"

definition StartSession ::
    "alloc \<Rightarrow> (i32 \<Rightarrow> i32 option) \<Rightarrow> (rat \<Rightarrow> dbl) \<Rightarrow> env \<Rightarrow> outside \<Rightarrow> go_plan \<Rightarrow> c_mem \<Rightarrow> (go_session \<times> c_mem) go option" where
  "StartSession al fstat rnd env os plan m =
     (case c_outcomes al fstat (gpl_SyscallOutcomes plan) (cm_nodes m) of
        Inl e \<Rightarrow> Some (Inl e)
      | Inr (Inl err) \<Rightarrow> Some (Inr (Inl err))
      | Inr (Inr (h, outcomes)) \<Rightarrow>
          (let cPlan = go_c_plan plan outcomes in
           map_option (\<lambda>r. rbind r (\<lambda>(session, m).
             Inr (if session = 0 then Inl ErrStartFailed
                  else Inr (\<lparr>gss_session = session, gss_plan = cPlan\<rparr>, m))))
             (sysfail_start_at rnd env os (Some cPlan) (al_session al) (al_handle al) (m\<lparr>cm_nodes := h\<rparr>))))"

section \<open>Calls\<close>

text \<open>Each does nothing on a null handle.\<close>

definition if_session :: "(addr \<Rightarrow> c_mem \<Rightarrow> c_mem result) \<Rightarrow> go_session \<Rightarrow> c_mem \<Rightarrow> c_mem result" where
  "if_session f s m = (if gss_session s \<noteq> 0 then f (gss_session s) m else Inr m)"

definition Stop :: "env \<Rightarrow> go_session \<Rightarrow> c_mem \<Rightarrow> c_mem result" where
  "Stop env = if_session (c_stop env)"

definition AddThisThread :: "env \<Rightarrow> pid \<Rightarrow> go_session \<Rightarrow> c_mem \<Rightarrow> c_mem result" where
  "AddThisThread env self = if_session (c_call env (Api_add_self self))"

definition RemoveThisThread :: "env \<Rightarrow> pid \<Rightarrow> go_session \<Rightarrow> c_mem \<Rightarrow> c_mem result" where
  "RemoveThisThread env self = if_session (c_call env (Api_remove_self self))"

definition AddThread :: "env \<Rightarrow> u64 \<Rightarrow> go_session \<Rightarrow> c_mem \<Rightarrow> c_mem result" where
  "AddThread env tid = if_session (c_call env (Api_add (sint (to_int tid))))"

definition RemoveThread :: "env \<Rightarrow> u64 \<Rightarrow> go_session \<Rightarrow> c_mem \<Rightarrow> c_mem result" where
  "RemoveThread env tid = if_session (c_call env (Api_remove (sint (to_int tid))))"

definition DiscoverThreads :: "env \<Rightarrow> string list \<Rightarrow> go_session \<Rightarrow> c_mem \<Rightarrow> c_mem result" where
  "DiscoverThreads env names = if_session (c_call env (Api_discover names))"

section \<open>What a plan stands for\<close>

definition c_weight :: "go_error_weight \<Rightarrow> c_error_wt" where
  "c_weight ew = \<lparr>ce_nerror = to_int (gw_Nerror ew), ce_weight = gw_Weight ew\<rparr>"

definition c_of :: "(i32 \<Rightarrow> i32 option) \<Rightarrow> go_outcome \<Rightarrow> c_outcome" where
  "c_of fstat g =
     \<lparr>co_fail = c_prob (go_Fail g), co_delay = c_prob (go_Delay g), co_max_delay_usec = go_MaxDelayUsec g,
      co_ctx = 0, co_eligible = c_eligible fstat g, co_num_errors = go_NumErrors g,
      co_error_wts = (if go_NumErrors g = 0 then [] else map c_weight (go_ErrorWeights g))\<rparr>"

definition go_entry :: "(i32 \<Rightarrow> i32 option) \<Rightarrow> go_syscall_outcome \<Rightarrow> i32 \<times> c_outcome" where
  "go_entry fstat g = (to_int (gs_Syscall g), c_of fstat (gs_Outcome g))"

definition c_plan_of :: "(i32 \<Rightarrow> i32 option) \<Rightarrow> go_plan \<Rightarrow> go_syscall_outcome list \<Rightarrow> c_plan" where
  "c_plan_of fstat plan gs = (plan_head (go_c_plan plan 0))\<lparr>cpl_outcomes := map (go_entry fstat) gs\<rparr>"

text \<open>An outcome that can be laid out: no custom predicate, and as many weights as it says.\<close>

definition go_valid :: "go_outcome \<Rightarrow> bool" where
  "go_valid g =
     (el_Type (go_Eligible g) \<noteq> CustomPredicate \<and>
      (go_NumErrors g \<noteq> 0 \<longrightarrow> length (go_ErrorWeights g) = unat (go_NumErrors g)))"

text \<open>An allocator that has the memory: blocks of the size asked for, which do not wrap.\<close>

definition errors_there :: "alloc \<Rightarrow> nat \<Rightarrow> go_outcome \<Rightarrow> bool" where
  "errors_there al i g =
     (\<exists>arr. al_errors al i (unat (go_NumErrors g)) = Some arr \<and> length arr = unat (go_NumErrors g))"

definition block_ok :: "addr \<Rightarrow> nat \<Rightarrow> bool" where
  "block_ok base n = (base \<noteq> 0 \<and> unat base + n * node_size \<le> 2 ^ 64)"

definition alloc_ok :: "alloc \<Rightarrow> nat \<Rightarrow> go_syscall_outcome list \<Rightarrow> bool" where
  "alloc_ok al len gs =
     (al_handle al \<noteq> 0 \<and>
      (0 < len \<longrightarrow> (\<exists>base ns. al_nodes al len = Some (base, ns) \<and> length ns = len \<and> block_ok base len)) \<and>
      (\<forall>i < length gs. errors_there al i (gs_Outcome (gs ! i))))"

section \<open>Lemmas\<close>

text \<open>The nodes of a block have different addresses, none of them null.\<close>

lemma unat_node_at:
  assumes "block_ok base n" "i < n"
  shows "unat (node_at base i) = unat base + i * node_size"
proof -
  define x where "x = unat base + i * node_size"
  have "i * node_size + node_size \<le> n * node_size"
    using assms(2) mult_le_mono1 [of "Suc i" n node_size] by simp
  then have "x < 2 ^ 64" using assms(1) by (simp add: x_def block_ok_def node_size_def)
  then have "unat (of_nat x :: addr) = x" by (simp add: unat_of_nat)
  moreover have "node_at base i = of_nat x" by (simp add: x_def node_at_def)
  ultimately show ?thesis by (simp add: x_def)
qed

lemma node_at_inj:
  assumes "block_ok base n" "i < n" "j < n"
  shows "node_at base i = node_at base j \<longleftrightarrow> i = j"
proof
  assume "node_at base i = node_at base j"
  then have "unat base + i * node_size = unat base + j * node_size"
    using unat_node_at [OF assms(1,2)] unat_node_at [OF assms(1,3)] by argo
  then show "i = j" by (simp add: node_size_def)
qed simp

lemma node_at_nonnull:
  assumes "block_ok base n" "i < n"
  shows "node_at base i \<noteq> 0"
proof
  assume "node_at base i = 0"
  with unat_node_at [OF assms] have "unat base = 0" by simp
  with assms(1) show False by (simp add: block_ok_def unat_eq_0)
qed

text \<open>Weights that fit fill the array from its front.\<close>

lemma put_weights:
  "k + length ews \<le> length arr \<Longrightarrow>
    rfold put_weight (enumerate k ews) arr = Inr (take k arr @ map c_weight ews @ drop (k + length ews) arr)"
proof (induction ews arbitrary: k arr)
  case (Cons ew ews)
  then have k: "k < length arr" "Suc k + length ews \<le> length (arr[k := c_weight ew])" by simp_all
  have "take (Suc k) (arr[k := c_weight ew]) = take k arr @ [c_weight ew]"
    using k(1) by (simp add: take_Suc_conv_app_nth)
  with Cons.IH [OF k(2)] k(1) show ?case by (simp add: put_weight_def c_weight_def)
qed simp

text \<open>More weights than that are written past its end.\<close>

lemma put_weights_overflow:
  "k \<le> length arr \<Longrightarrow> length arr < k + length ews \<Longrightarrow>
    rfold put_weight (enumerate k ews) arr = Inl (Undefined ''write past the error weights'')"
proof (induction ews arbitrary: k arr)
  case (Cons ew ews)
  then show ?case by (cases "k < length arr") (simp_all add: put_weight_def)
qed simp

text \<open>Only what the count takes in is read of the array.\<close>

lemma to_outcome_no_errors: "co_num_errors co = 0 \<Longrightarrow> to_outcome (co\<lparr>co_error_wts := arr\<rparr>) = to_outcome co"
  by (simp add: to_outcome_def c_error_weights_def)

lemma set_outcome_valid:
  assumes "go_valid g" "errors_there al i g"
  shows "\<exists>co'. set_outcome al fstat i g co = Inr (Inr co') \<and> to_outcome co' = to_outcome (c_of fstat g)"
proof (cases "go_NumErrors g = 0")
  case True
  let ?co = "co\<lparr>co_fail := c_prob (go_Fail g), co_delay := c_prob (go_Delay g), co_max_delay_usec := go_MaxDelayUsec g,
    co_ctx := 0, co_eligible := c_eligible fstat g, co_num_errors := go_NumErrors g\<rparr>"
  have "?co\<lparr>co_error_wts := []\<rparr> = c_of fstat g" using True by (cases co) (simp add: c_of_def)
  then have "to_outcome ?co = to_outcome (c_of fstat g)" using True to_outcome_no_errors [of ?co "[]"] by simp
  with True assms(1) show ?thesis by (simp add: set_outcome_def go_valid_def fill_errors_def)
next
  case False
  obtain arr where arr: "al_errors al i (unat (go_NumErrors g)) = Some arr" "length arr = unat (go_NumErrors g)"
    using assms(2) by (auto simp: errors_there_def)
  have "rfold put_weight (enumerate 0 (go_ErrorWeights g)) arr = Inr (map c_weight (go_ErrorWeights g))"
    using put_weights [of 0 "go_ErrorWeights g" arr] arr(2) assms(1) False by (simp add: go_valid_def)
  then show ?thesis using assms(1) False arr(1)
    by (cases co) (simp add: set_outcome_def go_valid_def fill_errors_def c_of_def)
qed

section \<open>The loop\<close>

text \<open>A node that holds what an outcome stands for.\<close>

definition laid :: "(i32 \<Rightarrow> i32 option) \<Rightarrow> go_syscall_outcome \<Rightarrow> c_node \<Rightarrow> bool" where
  "laid fstat g n =
     (cn_syscall n = to_int (gs_Syscall g) \<and> to_outcome (cn_outcome n) = to_outcome (c_of fstat (gs_Outcome g)))"

text \<open>Before turn \<open>k\<close>: the first \<open>k\<close> nodes hold their outcomes and form a chain, the others are there.\<close>

definition linked :: "(i32 \<Rightarrow> i32 option) \<Rightarrow> go_syscall_outcome list \<Rightarrow> nat \<Rightarrow> addr \<Rightarrow> nat \<Rightarrow> c_nodes \<Rightarrow> bool" where
  "linked fstat gs len base k h =
     ((\<forall>i < k. \<exists>n. h (node_at base i) = Some n \<and> laid fstat (gs ! i) n \<and>
         cn_next n = (if Suc i < k then node_at base (Suc i) else 0)) \<and>
      (\<forall>i < len. h (node_at base i) \<noteq> None))"

definition last_node :: "addr \<Rightarrow> nat \<Rightarrow> addr" where
  "last_node base k = (if k = 0 then 0 else node_at base (k - 1))"

lemma linked_step:
  assumes "linked fstat gs len base k h" "k < length gs" "block_ok base len" "length gs \<le> len"
    and n: "laid fstat (gs ! k) n" "cn_next n = 0"
  defines "h' \<equiv> h(node_at base k \<mapsto> n)"
  shows "linked fstat gs len base (Suc k) (if k = 0 then h' else set_next (node_at base (k - 1)) (node_at base k) h')"
    (is "linked _ _ _ _ _ ?h")
proof -
  have kl: "k < len" using assms(2,4) by simp
  have inj: "node_at base i = node_at base j \<longleftrightarrow> i = j" if "i < len" "j < len" for i j
    using node_at_inj [OF assms(3) that] .
  have new: "?h (node_at base k) = Some n" using inj [of k "k - 1"] kl by (cases "k = 0") (auto simp: h'_def set_next_def)
  have old: "?h (node_at base i) = (if Suc i = k then map_option (\<lambda>n. n\<lparr>cn_next := node_at base k\<rparr>) (h (node_at base i))
      else h (node_at base i))" if "i < len" "i \<noteq> k" for i
  proof -
    have i: "node_at base i \<noteq> node_at base k" using inj [of i k] that kl by blast
    show ?thesis
    proof (cases "Suc i = k")
      case True
      with i show ?thesis by (auto simp: h'_def set_next_def)
    next
      case False
      then have "k \<noteq> 0 \<Longrightarrow> node_at base i \<noteq> node_at base (k - 1)" using inj [of i "k - 1"] that kl by simp
      with i False show ?thesis by (cases "k = 0") (simp_all add: h'_def set_next_def)
    qed
  qed
  have "\<exists>n. ?h (node_at base i) = Some n \<and> laid fstat (gs ! i) n \<and>
      cn_next n = (if Suc i < Suc k then node_at base (Suc i) else 0)" if i: "i < Suc k" for i
  proof (cases "i = k")
    case True
    with new n show ?thesis by simp
  next
    case False
    with i have "i < k" by simp
    with assms(1) obtain n where "h (node_at base i) = Some n" "laid fstat (gs ! i) n"
      "cn_next n = (if Suc i < k then node_at base (Suc i) else 0)"
      unfolding linked_def by blast
    with old [of i] \<open>i < k\<close> kl show ?thesis
      by (cases "Suc i = k") (auto simp: laid_def)
  qed
  moreover have "?h (node_at base i) \<noteq> None" if "i < len" for i
    using that new old [of i] assms(1) by (cases "i = k") (simp_all add: linked_def)
  ultimately show ?thesis unfolding linked_def by blast
qed

lemma add_node_ok:
  assumes "linked fstat gs len base k h" "k < length gs" "block_ok base len" "length gs \<le> len"
    and "go_valid (gs_Outcome (gs ! k))" "errors_there al k (gs_Outcome (gs ! k))"
  shows "\<exists>h'. add_node al fstat base (k, Some (gs ! k)) (h, last_node base k) = Inr (Inr (h', last_node base (Suc k))) \<and>
    linked fstat gs len base (Suc k) h'"
proof -
  have kl: "k < len" using assms(2,4) by simp
  then obtain n where n: "h (node_at base k) = Some n" using assms(1) by (auto simp: linked_def)
  obtain co where co: "set_outcome al fstat k (gs_Outcome (gs ! k)) (cn_outcome n) = Inr (Inr co)"
      "to_outcome co = to_outcome (c_of fstat (gs_Outcome (gs ! k)))"
    using set_outcome_valid [OF assms(5,6)] by blast
  let ?n = "n\<lparr>cn_syscall := to_int (gs_Syscall (gs ! k)), cn_outcome := co\<rparr>"
  let ?h = "h(node_at base k \<mapsto> ?n\<lparr>cn_next := 0\<rparr>)"
  have "laid fstat (gs ! k) (?n\<lparr>cn_next := 0\<rparr>)" using co(2) by (simp add: laid_def)
  note l = linked_step [OF assms(1-4) this]
  show ?thesis
  proof (cases "k = 0")
    case True
    with l n co(1) show ?thesis by (simp add: add_node_def last_node_def set_next_def Let_def)
  next
    case False
    then have ne: "node_at base (k - 1) \<noteq> node_at base k" "node_at base (k - 1) \<noteq> 0"
      using node_at_inj [OF assms(3), of "k - 1" k] node_at_nonnull [OF assms(3), of "k - 1"] kl by auto
    then have "set_next (node_at base k) 0 (set_next (node_at base (k - 1)) (node_at base k) (h(node_at base k \<mapsto> ?n))) =
        set_next (node_at base (k - 1)) (node_at base k) ?h"
      by (auto simp: set_next_def fun_eq_iff)
    with l False ne show ?thesis by (simp add: add_node_def last_node_def n co(1) Let_def)
  qed
qed

lemma add_nodes_ok:
  assumes "linked fstat gs len base k h" "k \<le> length gs" "block_ok base len" "length gs \<le> len"
    and "\<forall>g \<in> set gs. go_valid (gs_Outcome g)" "\<forall>i < length gs. errors_there al i (gs_Outcome (gs ! i))"
  shows "\<exists>h'. gfold (add_node al fstat base) (enumerate k (map Some (drop k gs))) (h, last_node base k) =
      Inr (Inr (h', last_node base (length gs))) \<and> linked fstat gs len base (length gs) h'"
  using assms(2,1)
proof (induction "length gs - k" arbitrary: k h)
  case (Suc l)
  then have k: "k < length gs" by simp
  obtain h1 where h1: "add_node al fstat base (k, Some (gs ! k)) (h, last_node base k) = Inr (Inr (h1, last_node base (Suc k)))"
      "linked fstat gs len base (Suc k) h1"
    using add_node_ok [OF Suc.prems(2) k assms(3,4), of al] assms(5,6) k by auto
  have d: "drop k gs = gs ! k # drop (Suc k) gs" using k by (simp add: Cons_nth_drop_Suc)
  from Suc.hyps(1) [of "Suc k" h1] Suc.hyps(2) k h1 show ?case by (simp add: d)
qed simp

text \<open>At its end the chain is that of the outcomes.\<close>

lemma linked_chain:
  assumes "linked fstat gs len base (length gs) h" "block_ok base len" "k \<le> length gs" "length gs \<le> len"
  shows "\<exists>ns. chain h (if k < length gs then node_at base k else 0) ns \<and> list_all2 (laid fstat) (drop k gs) ns"
  using assms(3)
proof (induction k rule: inc_induct)
  case base
  show ?case by (intro exI [of _ "[]"]) simp
next
  case (step k)
  then obtain ns where ns: "chain h (if Suc k < length gs then node_at base (Suc k) else 0) ns"
      "list_all2 (laid fstat) (drop (Suc k) gs) ns" by blast
  obtain n where n: "h (node_at base k) = Some n" "laid fstat (gs ! k) n"
      "cn_next n = (if Suc k < length gs then node_at base (Suc k) else 0)"
    using assms(1) step(2) unfolding linked_def by blast
  have d: "drop k gs = gs ! k # drop (Suc k) gs" using step(2) by (simp add: Cons_nth_drop_Suc)
  show ?case
    using ns n node_at_nonnull [OF assms(2), of k] step(2) assms(4) by (intro exI [of _ "n # ns"]) (simp add: d)
qed

lemma laid_fold:
  "list_all2 (laid fstat) gs ns \<Longrightarrow> rfold add_outcome (map entry ns) m = rfold add_outcome (map (go_entry fstat) gs) m"
proof (induction gs ns arbitrary: m rule: list_all2_induct)
  case (Cons g gs n ns)
  then have "add_outcome (entry n) = add_outcome (go_entry fstat g)"
    by (simp add: laid_def entry_def go_entry_def add_outcome_def)
  then have "rfold add_outcome (map entry ns) = rfold add_outcome (map (go_entry fstat) gs)"
    using Cons.IH by (intro ext) blast
  with \<open>add_outcome (entry n) = _\<close> show ?case by simp
qed simp

lemma gfold_append: "gfold f (xs @ ys) s = gbind (gfold f xs s) (gfold f ys)"
proof (induction xs arbitrary: s)
  case (Cons x xs)
  show ?case
  proof (cases "f x s")
    case (Inr r)
    then show ?thesis using Cons by (cases r) simp_all
  qed simp
qed simp

lemma block_there: "i < length ns \<Longrightarrow> (h ++ block base ns) (node_at base i) \<noteq> None"
  by (auto simp: block_def map_add_def map_of_eq_None_iff image_image split: option.split)

text \<open>The outcomes up to one that may be bad.\<close>

lemma good_prefix:
  assumes "alloc_ok al (length gs + nr) gs" "\<forall>g \<in> set gs. go_valid (gs_Outcome g)" "0 < length gs + nr"
  obtains base ns h' where "al_nodes al (length gs + nr) = Some (base, ns)" "block_ok base (length gs + nr)"
    "gfold (add_node al fstat base) (enumerate 0 (map Some gs)) (h ++ block base ns, 0) = Inr (Inr (h', last_node base (length gs)))"
    "linked fstat gs (length gs + nr) base (length gs) h'"
proof -
  from assms(1,3) obtain base ns where b: "al_nodes al (length gs + nr) = Some (base, ns)"
      "length ns = length gs + nr" "block_ok base (length gs + nr)"
    by (auto simp: alloc_ok_def)
  have "linked fstat gs (length gs + nr) base 0 (h ++ block base ns)"
    using block_there [of _ ns h base] b(2) by (simp add: linked_def)
  from add_nodes_ok [OF this _ b(3), of al] assms(1,2) show ?thesis
    by (auto simp: alloc_ok_def last_node_def intro: that [OF b(1,3)])
qed

lemma c_outcomes_ok:
  assumes "alloc_ok al (length gs) gs" "\<forall>g \<in> set gs. go_valid (gs_Outcome g)"
  shows "\<exists>h' p ns. c_outcomes al fstat (map Some gs) h = Inr (Inr (h', p)) \<and> chain h' p ns \<and> list_all2 (laid fstat) gs ns"
proof (cases "gs = []")
  case True
  then show ?thesis by (auto simp: c_outcomes_def intro: exI [of _ "[]"])
next
  case False
  with good_prefix [of al gs 0 fstat h] assms obtain base ms h' where
    b: "al_nodes al (length gs) = Some (base, ms)" "block_ok base (length gs)"
      "gfold (add_node al fstat base) (enumerate 0 (map Some gs)) (h ++ block base ms, 0) = Inr (Inr (h', last_node base (length gs)))"
      "linked fstat gs (length gs) base (length gs) h'"
    by auto
  obtain ns where "chain h' (node_at base 0) ns" "list_all2 (laid fstat) gs ns"
    using linked_chain [OF b(4,2), of 0] False by auto
  moreover have "node_at base 0 = base" by (simp add: node_at_def)
  ultimately show ?thesis using b(1,3) False by (auto simp: c_outcomes_def)
qed

text \<open>The predicate of the two kinds that are supported, as the handler will ask it.\<close>

lemma go_eligible_iff:
  "c_accepts (c_eligible fstat g) ctx regs \<longleftrightarrow>
    (el_Type (go_Eligible g) = EligibleIfFDNotStdInOutErr \<longrightarrow>
      2 < sint (to_int (regs REG_RDI)) \<and> (\<exists>mode. fstat (to_int (regs REG_RDI)) = Some mode \<and> S_ISREG mode))"
  by (auto simp: c_accepts_def c_eligible_def RegularFileOtherThanStdInOutErr_def sysfail_syscall_arg_def Let_def
      split: option.splits)

text \<open>A plan laid out in memory is translated like the list of its outcomes.\<close>

lemma to_plan_laid:
  assumes "list_all2 (laid fstat) gs ns"
  shows "to_plan (plan_of (go_c_plan plan p) ns) = to_plan (c_plan_of fstat plan gs)"
  using laid_fold [OF assms, of "[]"]
  by (simp add: to_plan_def plan_of_def c_plan_of_def plan_head_def go_c_plan_def tdisc_strategy_def)

lemma go_start_eq:
  assumes "gpl_SyscallOutcomes plan = map Some gs" "\<forall>g \<in> set gs. go_valid (gs_Outcome g)" "alloc_ok al (length gs) gs"
  shows "\<exists>h p ns. chain h p ns \<and> list_all2 (laid fstat) gs ns \<and>
    StartSession al fstat rnd env os plan m =
      Some (rbind (sysfail_start rnd env os (Some (c_plan_of fstat plan gs)) (cm_proc m)) (\<lambda>(s, pr).
        Inr (Inr (\<lparr>gss_session = al_handle al, gss_plan = go_c_plan plan p\<rparr>,
          m\<lparr>cm_nodes := h, cm_proc := pr, cm_sessions := insert (al_session al) (cm_sessions m),
            cm_handles := (cm_handles m)(al_handle al \<mapsto> al_session al)\<rparr>))))"
proof -
  obtain h p ns where h: "c_outcomes al fstat (map Some gs) (cm_nodes m) = Inr (Inr (h, p))" "chain h p ns"
      "list_all2 (laid fstat) gs ns"
    using c_outcomes_ok [OF assms(3,2)] by blast
  have "chain (cm_nodes (m\<lparr>cm_nodes := h\<rparr>)) (cpa_outcomes (go_c_plan plan p)) ns" using h(2) by (simp add: go_c_plan_def)
  note start = start_at_chain [OF this, unfolded to_plan_laid [OF h(3)]]
  have "al_handle al \<noteq> 0" using assms(3) by (simp add: alloc_ok_def)
  then have "StartSession al fstat rnd env os plan m =
      Some (rbind (sysfail_start rnd env os (Some (c_plan_of fstat plan gs)) (cm_proc m)) (\<lambda>(s, pr).
        Inr (Inr (\<lparr>gss_session = al_handle al, gss_plan = go_c_plan plan p\<rparr>,
          m\<lparr>cm_nodes := h, cm_proc := pr, cm_sessions := insert (al_session al) (cm_sessions m),
            cm_handles := (cm_handles m)(al_handle al \<mapsto> al_session al)\<rparr>))))"
    unfolding StartSession_def assms(1) h(1) sysfail_start_def
    by (cases "rbind (to_plan (c_plan_of fstat plan gs)) (\<lambda>pl. Session rnd env os pl (cm_proc m))")
      (auto simp: start new_session_def Let_def rbind_Inr_conv rbind_Inl_conv)
  with h(2,3) show ?thesis by blast
qed

text \<open>For concrete runs: an allocator with room, and a plan that fails one call with the given number of weights.\<close>

definition demo_alloc :: alloc where
  "demo_alloc =
     \<lparr>al_nodes = (\<lambda>n. Some (0x1000, replicate n \<lparr>cn_next = 1, cn_syscall = 0, cn_outcome = demo_c_outcome 0\<rparr>)),
      al_errors = (\<lambda>i n. Some (replicate n \<lparr>ce_nerror = 99, ce_weight = Fin 7\<rparr>)), al_session = 8, al_handle = 24\<rparr>"

definition demo_go :: "i32 \<Rightarrow> nat \<Rightarrow> go_syscall_outcome" where
  "demo_go nr weights =
     \<lparr>gs_Syscall = ucast nr, gs_Outcome = \<lparr>go_Fail = \<lparr>gp_P = Fin 1, gp_AfterBias = Fin 0\<rparr>,
        go_Delay = \<lparr>gp_P = Fin 0, gp_AfterBias = Fin 0\<rparr>, go_MaxDelayUsec = 0, go_Ctx = 0,
        go_Eligible = \<lparr>el_Eligible = None, el_Type = AlwaysEligible\<rparr>, go_NumErrors = 1,
        go_ErrorWeights = replicate weights \<lparr>gw_Nerror = 3, gw_Weight = Fin 1\<rparr>\<rparr>\<rparr>"

definition demo_go_plan :: "go_syscall_outcome list \<Rightarrow> go_plan" where
  "demo_go_plan gs = \<lparr>gpl_Strategy = 1, gpl_PollIntervalUsec = 1000, gpl_Ctx = 0, gpl_SyscallOutcomes = map Some gs\<rparr>"

lemma demo_alloc_ok: "len \<le> 1000 \<Longrightarrow> alloc_ok demo_alloc len gs"
  by (simp add: alloc_ok_def demo_alloc_def errors_there_def block_ok_def node_size_def)

lemma demo_go_valid: "go_valid (gs_Outcome (demo_go nr 1))"
  by (simp add: go_valid_def demo_go_def AlwaysEligible_def CustomPredicate_def)

section \<open>Properties\<close>

text \<open>
  C22. A Go plan whose outcomes can be laid out is started as the C plan it stands for: the outcomes
  in memory form a chain in their order, each with the numbers, the weights and the predicate that
  were given, and \<open>StartSession\<close> returns what \<open>sysfail_start\<close> gives for the list of them, a handle
  or the exception. \<open>ErrStartFailed\<close> is never returned.
\<close>

theorem go_start_refines:
  assumes "gpl_SyscallOutcomes plan = map Some gs" "\<forall>g \<in> set gs. go_valid (gs_Outcome g)" "alloc_ok al (length gs) gs"
  shows "\<exists>h p ns. chain h p ns \<and> list_all2 (laid fstat) gs ns \<and>
    StartSession al fstat rnd env os plan m =
      Some (rbind (sysfail_start rnd env os (Some (c_plan_of fstat plan gs)) (cm_proc m)) (\<lambda>(s, pr).
        Inr (Inr (\<lparr>gss_session = al_handle al, gss_plan = go_c_plan plan p\<rparr>,
          m\<lparr>cm_nodes := h, cm_proc := pr, cm_sessions := insert (al_session al) (cm_sessions m),
            cm_handles := (cm_handles m)(al_handle al \<mapsto> al_session al)\<rparr>))))"
  by (rule go_start_eq [OF assms])

theorem go_start_refines_witness:
  "\<exists>h p ns. chain h p ns \<and> length ns = 2 \<and>
     StartSession demo_alloc (\<lambda>_. None) Fin demo_env demo_os (demo_go_plan [demo_go 1 1, demo_go 2 1]) (demo_c_mem 0) =
       Some (rbind (sysfail_start Fin demo_env demo_os
         (Some (c_plan_of (\<lambda>_. None) (demo_go_plan [demo_go 1 1, demo_go 2 1]) [demo_go 1 1, demo_go 2 1])) demo_proc) (\<lambda>(s, pr).
         Inr (Inr (\<lparr>gss_session = 24, gss_plan = go_c_plan (demo_go_plan [demo_go 1 1, demo_go 2 1]) p\<rparr>,
           (demo_c_mem 0)\<lparr>cm_nodes := h, cm_proc := pr, cm_sessions := {8}, cm_handles := [24 \<mapsto> 8]\<rparr>))))"
proof -
  let ?gs = "[demo_go 1 1, demo_go 2 1]"
  have gs: "gpl_SyscallOutcomes (demo_go_plan ?gs) = map Some ?gs" by (simp add: demo_go_plan_def)
  have al: "alloc_ok demo_alloc (length ?gs) ?gs" by (rule demo_alloc_ok) simp
  have v: "\<forall>g \<in> set ?gs. go_valid (gs_Outcome g)" using demo_go_valid by simp
  from go_start_refines [OF gs v al, of "\<lambda>_. None" Fin demo_env demo_os "demo_c_mem 0"] obtain h p ns where
    hp: "chain h p ns" "list_all2 (laid (\<lambda>_. None)) ?gs ns" and
    s: "StartSession demo_alloc (\<lambda>_. None) Fin demo_env demo_os (demo_go_plan ?gs) (demo_c_mem 0) =
      Some (rbind (sysfail_start Fin demo_env demo_os (Some (c_plan_of (\<lambda>_. None) (demo_go_plan ?gs) ?gs)) (cm_proc (demo_c_mem 0))) (\<lambda>(s, pr).
        Inr (Inr (\<lparr>gss_session = al_handle demo_alloc, gss_plan = go_c_plan (demo_go_plan ?gs) p\<rparr>,
          (demo_c_mem 0)\<lparr>cm_nodes := h, cm_proc := pr, cm_sessions := insert (al_session demo_alloc) (cm_sessions (demo_c_mem 0)),
            cm_handles := (cm_handles (demo_c_mem 0))(al_handle demo_alloc \<mapsto> al_session demo_alloc)\<rparr>))))"
    by blast
  have "length ns = 2" using list_all2_lengthD [OF hp(2)] by simp
  with hp(1) s show ?thesis by (intro exI [of _ h] exI [of _ p] exI [of _ ns]) (simp add: demo_c_mem_def demo_alloc_def)
qed

text \<open>
  C32. The first outcome that cannot be laid out decides: a nil pointer panics, a custom predicate and
  an allocation that fails return their errors, and more weights than the number of errors says are
  written past the end of the array. With fewer, what was in the memory is taken for weights.
\<close>

theorem go_bad_outcome:
  assumes "gpl_SyscallOutcomes plan = map Some gs @ bad # others" "\<forall>g \<in> set gs. go_valid (gs_Outcome g)"
    and "alloc_ok al (length gs + Suc (length others)) gs"
  shows "(bad = None \<longrightarrow> StartSession al fstat rnd env os plan m = Some (Inl nil_panic)) \<and>
    (\<forall>g. bad = Some g \<and> el_Type (go_Eligible (gs_Outcome g)) = CustomPredicate \<longrightarrow>
      StartSession al fstat rnd env os plan m = Some (Inr (Inl ErrCustomEligibilityNotSupported))) \<and>
    (\<forall>g. bad = Some g \<and> el_Type (go_Eligible (gs_Outcome g)) \<noteq> CustomPredicate \<and> go_NumErrors (gs_Outcome g) \<noteq> 0 \<longrightarrow>
      (al_errors al (length gs) (unat (go_NumErrors (gs_Outcome g))) = None \<longrightarrow>
        StartSession al fstat rnd env os plan m = Some (Inr (Inl ErrMallocFailed))) \<and>
      (errors_there al (length gs) (gs_Outcome g) \<and> unat (go_NumErrors (gs_Outcome g)) < length (go_ErrorWeights (gs_Outcome g)) \<longrightarrow>
        StartSession al fstat rnd env os plan m = Some (Inl (Undefined ''write past the error weights''))) \<and>
      (\<forall>arr co. al_errors al (length gs) (unat (go_NumErrors (gs_Outcome g))) = Some arr \<and>
          length (go_ErrorWeights (gs_Outcome g)) \<le> length arr \<longrightarrow>
        (\<exists>co'. set_outcome al fstat (length gs) (gs_Outcome g) co = Inr (Inr co') \<and>
          co_error_wts co' = map c_weight (go_ErrorWeights (gs_Outcome g)) @ drop (length (go_ErrorWeights (gs_Outcome g))) arr)))"
proof -
  let ?k = "length gs"
  obtain base ms h' where
    b: "al_nodes al (?k + Suc (length others)) = Some (base, ms)"
      "gfold (add_node al fstat base) (enumerate 0 (map Some gs)) (cm_nodes m ++ block base ms, 0) = Inr (Inr (h', last_node base ?k))"
      "linked fstat gs (?k + Suc (length others)) base ?k h'"
    by (rule good_prefix [OF assms(3,2), where fstat = fstat and h = "cm_nodes m"]) auto
  obtain n where n: "h' (node_at base ?k) = Some n" using b(3) unfolding linked_def by fastforce
  have c: "c_outcomes al fstat (gpl_SyscallOutcomes plan) (cm_nodes m) =
      gbind (gbind (add_node al fstat base (?k, bad) (h', last_node base ?k)) (gfold (add_node al fstat base) (enumerate (Suc ?k) others)))
        (\<lambda>(h, prev). Inr (Inr (h, base)))"
    using b(1,2) unfolding assms(1) by (simp add: c_outcomes_def enumerate_append_eq gfold_append)
  have stop: "StartSession al fstat rnd env os plan m =
      (case bad of None \<Rightarrow> Some (Inl nil_panic)
       | Some g \<Rightarrow> (case set_outcome al fstat ?k (gs_Outcome g) (cn_outcome n) of
           Inl e \<Rightarrow> Some (Inl e) | Inr (Inl e) \<Rightarrow> Some (Inr (Inl e)) | Inr (Inr _) \<Rightarrow> StartSession al fstat rnd env os plan m))"
    by (auto simp: StartSession_def c add_node_def n Let_def split: option.split sum.split)
  have over: "rfold put_weight (enumerate 0 ews) arr = Inl (Undefined ''write past the error weights'')"
    if "length arr < length ews" for ews arr
    using put_weights_overflow [of 0 arr ews] that by simp
  have fits: "rfold put_weight (enumerate 0 ews) arr = Inr (map c_weight ews @ drop (length ews) arr)"
    if "length ews \<le> length arr" for ews arr
    using put_weights [of 0 ews arr] that by simp
  show ?thesis
  proof (intro conjI allI impI)
    show "StartSession al fstat rnd env os plan m = Some (Inl nil_panic)" if "bad = None"
      by (subst stop) (simp add: that)
  next
    fix g
    assume "bad = Some g \<and> el_Type (go_Eligible (gs_Outcome g)) = CustomPredicate"
    then show "StartSession al fstat rnd env os plan m = Some (Inr (Inl ErrCustomEligibilityNotSupported))"
      by (subst stop) (simp add: set_outcome_def)
  next
    fix g
    assume "bad = Some g \<and> el_Type (go_Eligible (gs_Outcome g)) \<noteq> CustomPredicate \<and> go_NumErrors (gs_Outcome g) \<noteq> 0"
      "al_errors al ?k (unat (go_NumErrors (gs_Outcome g))) = None"
    then show "StartSession al fstat rnd env os plan m = Some (Inr (Inl ErrMallocFailed))"
      by (subst stop) (simp add: set_outcome_def fill_errors_def)
  next
    fix g
    assume "bad = Some g \<and> el_Type (go_Eligible (gs_Outcome g)) \<noteq> CustomPredicate \<and> go_NumErrors (gs_Outcome g) \<noteq> 0"
      "errors_there al ?k (gs_Outcome g) \<and> unat (go_NumErrors (gs_Outcome g)) < length (go_ErrorWeights (gs_Outcome g))"
    then show "StartSession al fstat rnd env os plan m = Some (Inl (Undefined ''write past the error weights''))"
      by (subst stop) (auto simp: set_outcome_def fill_errors_def errors_there_def over)
  next
    fix g arr co
    assume "bad = Some g \<and> el_Type (go_Eligible (gs_Outcome g)) \<noteq> CustomPredicate \<and> go_NumErrors (gs_Outcome g) \<noteq> 0"
      "al_errors al ?k (unat (go_NumErrors (gs_Outcome g))) = Some arr \<and> length (go_ErrorWeights (gs_Outcome g)) \<le> length arr"
    then show "\<exists>co'. set_outcome al fstat ?k (gs_Outcome g) co = Inr (Inr co') \<and>
        co_error_wts co' = map c_weight (go_ErrorWeights (gs_Outcome g)) @ drop (length (go_ErrorWeights (gs_Outcome g))) arr"
      by (simp add: set_outcome_def fill_errors_def fits)
  qed
qed

theorem go_bad_outcome_witness:
  "StartSession demo_alloc (\<lambda>_. None) Fin demo_env demo_os (demo_go_plan [demo_go 1 1, demo_go 2 2]) (demo_c_mem 0) =
     Some (Inl (Undefined ''write past the error weights''))"
proof -
  have gs: "gpl_SyscallOutcomes (demo_go_plan [demo_go 1 1, demo_go 2 2]) = map Some [demo_go 1 1] @ Some (demo_go 2 2) # []"
    by (simp add: demo_go_plan_def)
  have v: "\<forall>g \<in> set [demo_go 1 1]. go_valid (gs_Outcome g)" using demo_go_valid by simp
  have al: "alloc_ok demo_alloc (length [demo_go 1 1] + Suc (length [])) [demo_go 1 1]" by (rule demo_alloc_ok) simp
  have bad: "el_Type (go_Eligible (gs_Outcome (demo_go 2 2))) \<noteq> CustomPredicate" "go_NumErrors (gs_Outcome (demo_go 2 2)) \<noteq> 0"
    "errors_there demo_alloc i (gs_Outcome (demo_go 2 2))"
    "unat (go_NumErrors (gs_Outcome (demo_go 2 2))) < length (go_ErrorWeights (gs_Outcome (demo_go 2 2)))" for i
    by (simp_all add: demo_go_def AlwaysEligible_def CustomPredicate_def errors_there_def demo_alloc_def)
  from go_bad_outcome [OF gs v al] bad show ?thesis by blast
qed

end
