(* ===== verification/Example.thy ===== *)
theory Example
  imports Session
begin

text \<open>
  The example program \<open>examples/flaky_print.cc\<close>: a plan that fails half of the \<open>write\<close> calls with
  \<open>EINTR\<close>, a session, ten lines printed, and the end of the session. The parameter \<open>printf\<close> stands
  for the C library: the system calls it makes for the line with a given number.
\<close>

section \<open>The program\<close>

definition SYS_write :: i32 where
  "SYS_write = 1"

definition EINTR :: i32 where
  "EINTR = 4"

text \<open>The arguments of the constructor of \<open>Plan\<close>.\<close>

definition flaky_plan :: "plan result" where
  "flaky_plan =
     rbind (Probability (Fin (1 / 2)) (Fin 0)) (\<lambda>fail.
     rbind (Probability (Fin 0) (Fin 0)) (\<lambda>delay.
     Inr \<lparr>pl_outcomes = tab_insert SYS_write \<lparr>o_fail = fail, o_delay = delay, o_max_delay = 0,
            o_error_weights = omap_insert int_lt EINTR (Fin 1) [], o_eligible = None\<rparr> [],
          pl_selector = (\<lambda>pid. True), pl_thd_disc = NoDiscovery\<rparr>))"

text \<open>A system call of a thread: the handler gets it if the thread is armed, the kernel otherwise.\<close>

definition make_call ::
    "'g rt \<Rightarrow> env \<Rightarrow> mem \<Rightarrow> pid \<Rightarrow> gregs \<Rightarrow> world \<Rightarrow> 'g option \<Rightarrow> trace
     \<Rightarrow> (gregs \<times> world) result \<times> 'g option \<times> trace" where
  "make_call rt env mem tid ctx w eng tr =
     (if armed w tid then handle_sigsys rt env mem tid ctx w eng tr
      else (case exec_syscall (rt_krn rt) (request_of ctx) tr of
              (r, tr) \<Rightarrow> (rbind r (\<lambda>rax. Inr (ctx(REG_RAX := rax), w)), eng, tr)))"

fun make_calls ::
    "'g rt \<Rightarrow> env \<Rightarrow> mem \<Rightarrow> pid \<Rightarrow> gregs list \<Rightarrow> world \<Rightarrow> 'g option \<Rightarrow> trace
     \<Rightarrow> (u64 list \<times> world) result \<times> 'g option \<times> trace" where
  "make_calls rt env mem tid [] w eng tr = (Inr ([], w), eng, tr)"
| "make_calls rt env mem tid (ctx # ctxs) w eng tr =
     (case make_call rt env mem tid ctx w eng tr of
        (Inl e, eng, tr) \<Rightarrow> (Inl e, eng, tr)
      | (Inr (ctx, w), eng, tr) \<Rightarrow>
          (case make_calls rt env mem tid ctxs w eng tr of
             (r, eng, tr) \<Rightarrow> (rbind r (\<lambda>(rets, w). Inr (ctx REG_RAX # rets, w)), eng, tr)))"

text \<open>
  \<open>main\<close>, run by the thread \<open>tid\<close>: its exit code, what the calls of \<open>printf\<close> returned, and the
  process at its end.
\<close>

definition flaky_main ::
    "rounding \<Rightarrow> 'g rt \<Rightarrow> env \<Rightarrow> outside \<Rightarrow> (nat \<Rightarrow> gregs list) \<Rightarrow> mem \<Rightarrow> pid \<Rightarrow> proc \<Rightarrow> 'g option \<Rightarrow> trace
     \<Rightarrow> (int \<times> u64 list \<times> proc) result \<times> 'g option \<times> trace" where
  "flaky_main rnd rt env os printf mem tid pr eng tr =
     (case rbind flaky_plan (\<lambda>plan. Session rnd env os plan pr) of
        Inl e \<Rightarrow> (Inl e, eng, tr)
      | Inr pr \<Rightarrow>
          (case make_calls rt env mem tid (concat (map printf [0..<10])) (p_world pr) eng tr of
             (r, eng, tr) \<Rightarrow>
               (rbind r (\<lambda>(rets, w). rbind (Session_destroy env (pr\<lparr>p_world := w\<rparr>)) (\<lambda>pr. Inr (0, rets, pr))), eng, tr)))"

section \<open>Calls that fail sometimes\<close>

text \<open>
  What the example is to show: each call is made once and returns the kernel's answer, or is not made
  and returns the negated error.
\<close>

fun sometimes :: "kernel \<Rightarrow> i32 \<Rightarrow> trace \<Rightarrow> gregs list \<Rightarrow> u64 list \<Rightarrow> trace \<Rightarrow> bool" where
  "sometimes krn err tr [] [] tr' = (tr' = tr)"
| "sometimes krn err tr (ctx # ctxs) (ret # rets) tr' =
     (ret = to_long (- err) \<and> sometimes krn err tr ctxs rets tr' \<or>
      krn tr (request_of ctx) = Some ret \<and> sometimes krn err (tr @ [Sys (request_of ctx)]) ctxs rets tr')"
| "sometimes krn err tr _ _ tr' = False"

text \<open>An outcome that does not delay and fails, if at all, before the call and with one error.\<close>

lemma fail_maybe_half:
  assumes "tab_find (ap_outcomes plan) (to_int (ctx REG_RAX)) = Some ou" "eligible ou ctx" "fits_int (ctx REG_RAX)"
    and "ao_fail ou = \<lparr>pr_p = p, pr_after_bias = Fin 0\<rparr>" "pr_p (ao_delay ou) = Fin 0" "ao_errors ou = [(Fin 1, err)]"
    and "rt_ok rt" "rt_krn rt tr (request_of ctx) \<noteq> None"
  shows "\<exists>ctx' eng' tr'. fail_maybe rt plan ctx eng tr = (Inr ctx', eng', tr') \<and>
    (ctx' REG_RAX = to_long (- err) \<and> tr' = tr \<or>
     rt_krn rt tr (request_of ctx) = Some (ctx' REG_RAX) \<and> tr' = tr @ [Sys (request_of ctx)])"
proof -
  let ?g = "case eng of None \<Rightarrow> rt_seed rt | Some g \<Rightarrow> g"
  have "omap_lower_bound dlt (ao_errors ou) (Fin (fst (rt_p rt g))) = Some (Fin 1, err)" for g
    using assms(6,7) by (simp add: omap_lower_bound_def rt_ok_def not_less order.strict_implies_order)
  then have "fst (fail_phase rt ou ?g) = Inr (Go_on 0) \<or> fst (fail_phase rt ou ?g) = Inr (Fail_now err)"
    by (simp add: fail_phase_def assms(4) p_dist_Fin dtrue_def Let_def)
  then show ?thesis
    using assms(8) fail_maybe_selected [OF assms(1,2), of rt eng tr] assms(5)
    by (cases "fail_phase rt ou ?g")
      (auto simp: delay_phase_off finish_call_def continue_syscall_eq with_error_def reissued_fits [of ctx, OF assms(3)])
qed

definition flaky_outcome :: outcome where
  "flaky_outcome = \<lparr>o_fail = \<lparr>pr_p = Fin (1 / 2), pr_after_bias = Fin 0\<rparr>, o_delay = \<lparr>pr_p = Fin 0, pr_after_bias = Fin 0\<rparr>,
     o_max_delay = 0, o_error_weights = [(EINTR, Fin 1)], o_eligible = None\<rparr>"

lemma flaky_plan_eq:
  "flaky_plan = Inr \<lparr>pl_outcomes = [(SYS_write, flaky_outcome)], pl_selector = (\<lambda>_. True), pl_thd_disc = NoDiscovery\<rparr>"
  by (simp add: flaky_plan_def Probability_def flaky_outcome_def tab_insert_def)

lemma flaky_calls:
  assumes "w_global w" "armed w tid" "rt_ok rt" "\<forall>t r. rt_krn rt t r \<noteq> None" "rnd 1 = Fin 1"
    and "w_plan w = ActivePlan rnd \<lparr>pl_outcomes = [(SYS_write, flaky_outcome)], pl_selector = sel, pl_thd_disc = disc\<rparr>"
    and "\<forall>ctx \<in> set ctxs. ctx REG_RAX = 1"
  shows "\<exists>rets eng' tr'. make_calls rt env mem tid ctxs w eng tr = (Inr (rets, w), eng', tr') \<and>
    sometimes (rt_krn rt) EINTR tr ctxs rets tr'"
  using assms(7)
proof (induction ctxs arbitrary: eng tr)
  case (Cons ctx ctxs)
  let ?ou = "ActiveOutcome rnd flaky_outcome"
  have rax: "ctx REG_RAX = 1" using Cons.prems by simp
  have find: "tab_find (ap_outcomes (w_plan w)) (to_int (ctx REG_RAX)) = Some ?ou"
    unfolding assms(6) find_ActivePlan by (simp add: rax to_int_def SYS_write_def tab_find_def)
  have ou: "eligible ?ou ctx" "fits_int (ctx REG_RAX)"
    "ao_fail ?ou = \<lparr>pr_p = Fin (1 / 2), pr_after_bias = Fin 0\<rparr>" "pr_p (ao_delay ?ou) = Fin 0" "ao_errors ?ou = [(Fin 1, EINTR)]"
    using assms(5)
    by (simp_all add: rax to_int_def eligible_def ActiveOutcome_def flaky_outcome_def fits_int_def to_long_def)
  from fail_maybe_half [OF find ou assms(3), of tr eng] assms(4) obtain ctx' eng1 tr1 where
    one: "fail_maybe rt (w_plan w) ctx eng tr = (Inr ctx', eng1, tr1)"
      "ctx' REG_RAX = to_long (- EINTR) \<and> tr1 = tr \<or>
       rt_krn rt tr (request_of ctx) = Some (ctx' REG_RAX) \<and> tr1 = tr @ [Sys (request_of ctx)]"
    by blast
  have call: "make_call rt env mem tid ctx w eng tr = (Inr (ctx', w), eng1, tr1)"
    using one(1) assms(1,2) by (simp add: make_call_def handle_injects rax sys_numbers)
  from Cons.IH [of eng1 tr1] Cons.prems obtain rets eng' tr' where
    "make_calls rt env mem tid ctxs w eng1 tr1 = (Inr (rets, w), eng', tr')"
    "sometimes (rt_krn rt) EINTR tr1 ctxs rets tr'"
    by auto
  with call one(2) show ?case
    by (intro exI [of _ "ctx' REG_RAX # rets"] exI [of _ eng'] exI [of _ tr']) auto
qed simp

section \<open>Properties\<close>

text \<open>
  The example runs to its end with exit code 0: the session starts, every \<open>write\<close> that \<open>printf\<close>
  makes either reaches the kernel once and returns its answer or returns \<open>-EINTR\<close> without reaching
  it, in order, and at the end the process has no session and no thread dispatched.
\<close>

lemma flaky_print_runs:
  assumes "idle alive pr" "responsive alive env" "can_start os text" "lists (os_names os) tids"
    and "tid \<in> set tids" "alive tid" "rt_ok rt" "\<forall>t r. rt_krn rt t r \<noteq> None" "rnd 1 = Fin 1"
    and "\<forall>i < 10. \<forall>ctx \<in> set (printf i). ctx REG_RAX = 1"
  shows "\<exists>rets pr' eng' tr'. flaky_main rnd rt env os printf mem tid pr eng tr = (Inr (0, rets, pr'), eng', tr') \<and>
    sometimes (rt_krn rt) EINTR tr (concat (map printf [0..<10])) rets tr' \<and> idle alive pr'"
proof -
  let ?plan = "\<lparr>pl_outcomes = [(SYS_write, flaky_outcome)], pl_selector = (\<lambda>_. True), pl_thd_disc = NoDiscovery\<rparr>"
  have "first_found ?plan os tids" using assms(4) by (simp add: first_found_def)
  from start_ok [OF assms(1-3) this, of rnd] obtain pr1 where
    pr1: "Session rnd env os ?plan pr = Inr pr1" "sess_ok alive pr1" "thds_on alive (p_world pr1)"
      "tracked (p_world pr1) = set tids" "w_plan (p_world pr1) = ActivePlan rnd ?plan"
    by (auto simp: first_tracked_def)
  then have w: "world_ok alive (p_world pr1)" by (simp add: sess_ok_def)
  have "armed (p_world pr1) tid" using armed_iff [OF w pr1(3) assms(6)] pr1(4) assms(5) by simp
  moreover have "w_global (p_world pr1)" using w by (simp add: world_ok_def)
  moreover have "\<forall>ctx \<in> set (concat (map printf [0..<10])). ctx REG_RAX = 1" using assms(10) by auto
  ultimately obtain rets eng' tr' where
    "make_calls rt env mem tid (concat (map printf [0..<10])) (p_world pr1) eng tr = (Inr (rets, p_world pr1), eng', tr')"
    "sometimes (rt_krn rt) EINTR tr (concat (map printf [0..<10])) rets tr'"
    using flaky_calls [OF _ _ assms(7-9) pr1(5)] by blast
  moreover obtain pr2 where "Session_destroy env pr1 = Inr pr2" "idle alive pr2"
    using destroy_idle [OF pr1(2) assms(2)] by blast
  ultimately show ?thesis using pr1(1) by (simp add: flaky_main_def flaky_plan_eq)
qed

end
