(* ===== verification/Go_Example.thy ===== *)
theory Go_Example
  imports Go_Wrapper Example
begin

text \<open>
  The example program of the Go interface, \<open>go/examples/main.go\<close>: a session that fails every
  \<open>exit_group\<close>, the call, and the end of the session. The two variables of the environment the
  program reads are parameters: whether it runs without a session, and the number that replaces
  \<open>ESRCH\<close>.
\<close>

section \<open>The program\<close>

definition SYS_EXIT_GROUP :: u64 where "SYS_EXIT_GROUP = 231"
definition Errno_ESRCH :: u64 where "Errno_ESRCH = 3"
definition ThreadDiscoveryPoll :: i32 where "ThreadDiscoveryPoll = 1"

definition exit_outcome :: "u64 \<Rightarrow> u64 \<Rightarrow> go_syscall_outcome" where
  "exit_outcome syscallNum errno =
     \<lparr>gs_Syscall = syscallNum,
      gs_Outcome = \<lparr>go_Fail = \<lparr>gp_P = Fin 1, gp_AfterBias = Fin 0\<rparr>, go_Delay = \<lparr>gp_P = Fin 0, gp_AfterBias = Fin 0\<rparr>,
        go_MaxDelayUsec = 0, go_Ctx = 0, go_Eligible = \<lparr>el_Eligible = None, el_Type = AlwaysEligible\<rparr>,
        go_NumErrors = 1, go_ErrorWeights = [\<lparr>gw_Nerror = errno, gw_Weight = Fin 1\<rparr>]\<rparr>\<rparr>"

definition mkSysfailSession ::
    "alloc \<Rightarrow> rounding \<Rightarrow> env \<Rightarrow> outside \<Rightarrow> bool \<Rightarrow> u64 \<Rightarrow> u64 \<Rightarrow> c_mem \<Rightarrow> (go_session option \<times> c_mem) result option" where
  "mkSysfailSession al rnd env os no_sysfail syscallNum errno m =
     (if no_sysfail then Some (Inr (None, m))
      else case NewPlan ThreadDiscoveryPoll 1000 [Some (exit_outcome syscallNum errno)] None 0 of
          Inl err \<Rightarrow> Some (Inr (None, m))
        | Inr plan \<Rightarrow>
            map_option (\<lambda>r. rbind r (\<lambda>r. Inr (case r of Inl err \<Rightarrow> (None, m) | Inr (s, m) \<Rightarrow> (Some s, m))))
              (StartSession al (\<lambda>_. None) rnd env os plan m))"

text \<open>What Go's \<open>syscall.Syscall\<close> makes of the register.\<close>

definition errno_of :: "u64 \<Rightarrow> u64" where
  "errno_of rax = (if 0xfffffffffffff001 < rax then - rax else 0)"

definition exit_regs :: "gregs \<Rightarrow> u64 \<Rightarrow> gregs" where
  "exit_regs regs status = regs(REG_RAX := SYS_EXIT_GROUP, REG_RDI := status, REG_RSI := 0, REG_RDX := 0)"

text \<open>The deferred function stops the session, if there is one.\<close>

definition stop_deferred :: "env \<Rightarrow> go_session option \<Rightarrow> c_mem \<Rightarrow> c_mem result" where
  "stop_deferred env s m = (case s of None \<Rightarrow> Inr m | Some s \<Rightarrow> Stop env s m)"

definition enableSysfailAndExit ::
    "alloc \<Rightarrow> rounding \<Rightarrow> 'g rt \<Rightarrow> env \<Rightarrow> outside \<Rightarrow> bool \<Rightarrow> u64 option \<Rightarrow> mem \<Rightarrow> pid \<Rightarrow> gregs \<Rightarrow> u64 \<Rightarrow> c_mem
     \<Rightarrow> 'g option \<Rightarrow> trace \<Rightarrow> ((u64 \<times> c_mem) result \<times> 'g option \<times> trace) option" where
  "enableSysfailAndExit al rnd rt env os no_sysfail override mem tid regs status m eng tr =
     (let errno = (case override of None \<Rightarrow> Errno_ESRCH | Some n \<Rightarrow> n) in
      map_option (\<lambda>r. case r of
          Inl e \<Rightarrow> (Inl e, eng, tr)
        | Inr (s, m) \<Rightarrow>
            (case make_call rt env mem tid (exit_regs regs status) (p_world (cm_proc m)) eng tr of
               (r, eng, tr) \<Rightarrow>
                 (rbind r (\<lambda>(ctx, w).
                  rbind (stop_deferred env s (m\<lparr>cm_proc := (cm_proc m)\<lparr>p_world := w\<rparr>\<rparr>)) (\<lambda>m.
                  Inr (errno_of (ctx REG_RAX), m))), eng, tr)))
        (mkSysfailSession al rnd env os no_sysfail SYS_EXIT_GROUP errno m))"

text \<open>The exit code of \<open>main\<close>.\<close>

definition go_main ::
    "alloc \<Rightarrow> rounding \<Rightarrow> 'g rt \<Rightarrow> env \<Rightarrow> outside \<Rightarrow> bool \<Rightarrow> u64 option \<Rightarrow> mem \<Rightarrow> pid \<Rightarrow> gregs \<Rightarrow> c_mem
     \<Rightarrow> 'g option \<Rightarrow> trace \<Rightarrow> ((int \<times> c_mem) result \<times> 'g option \<times> trace) option" where
  "go_main al rnd rt env os no_sysfail override mem tid regs m eng tr =
     map_option (\<lambda>(r, eng, tr). (rbind r (\<lambda>(errno, m). Inr (if errno \<noteq> Errno_ESRCH then 100 else 0, m)), eng, tr))
       (enableSysfailAndExit al rnd rt env os no_sysfail override mem tid regs 123 m eng tr)"

section \<open>Lemmas\<close>

text \<open>A small number survives the way through the plan and the register.\<close>

lemma errno_back:
  assumes "0 < unat n" "unat n < 4095"
  shows "errno_of (to_long (- to_int n)) = n"
proof -
  define k where "k = unat n"
  have k: "0 < k" "k < 4095" and n: "n = of_nat k" using assms by (simp_all add: k_def)
  have i: "to_int n = word_of_int (int k)" unfolding n to_int_def
    using k(2) by (simp add: unsigned_of_nat take_bit_nat_eq_self)
  have "sint (word_of_int (- int k) :: i32) = - int k"
    using k by (simp only: signed_of_int) (simp add: signed_take_bit_int_eq_self)
  moreover have "- to_int n = word_of_int (- int k)" by (simp add: i)
  ultimately have "sint (- to_int n) = - int k" by simp
  then have "to_long (- to_int n) = word_of_int (- int k)" by (simp add: to_long_def scast_eq)
  then have m: "to_long (- to_int n) = - n" by (simp add: n)
  have "uint n = int k" by (simp add: k_def)
  then have "uint (- n) = 2 ^ 64 - int k" using k by (simp add: uint_word_ariths zmod_zminus1_eq_if)
  then have "0xfffffffffffff001 < - n" using k by (simp add: word_less_def)
  then show ?thesis by (simp add: errno_of_def m)
qed

text \<open>The plan, and what it becomes.\<close>

definition exit_plan :: "u64 \<Rightarrow> go_plan" where
  "exit_plan errno = \<lparr>gpl_Strategy = ThreadDiscoveryPoll, gpl_PollIntervalUsec = 1000, gpl_Ctx = 0,
     gpl_SyscallOutcomes = [Some (exit_outcome SYS_EXIT_GROUP errno)]\<rparr>"

definition exit_cpp_outcome :: "u64 \<Rightarrow> outcome" where
  "exit_cpp_outcome errno =
     \<lparr>o_fail = \<lparr>pr_p = Fin 1, pr_after_bias = Fin 0\<rparr>, o_delay = \<lparr>pr_p = Fin 0, pr_after_bias = Fin 0\<rparr>, o_max_delay = 0,
      o_error_weights = [(to_int errno, Fin 1)], o_eligible = Some (\<lambda>_. True)\<rparr>"

definition exit_cpp_plan :: "u64 \<Rightarrow> plan" where
  "exit_cpp_plan errno = \<lparr>pl_outcomes = [(231, exit_cpp_outcome errno)], pl_selector = (\<lambda>_. True), pl_thd_disc = ProcPoll 1000\<rparr>"

lemma exit_plan_translated:
  "to_plan (c_plan_of fstat (exit_plan errno) [exit_outcome SYS_EXIT_GROUP errno]) = Inr (exit_cpp_plan errno)"
proof -
  let ?co = "c_of fstat (gs_Outcome (exit_outcome SYS_EXIT_GROUP errno))"
  have "c_valid ?co" by (simp add: c_valid_def c_of_def exit_outcome_def c_prob_def in_unit_def)
  then have "to_outcome ?co = Inr (outcome_of ?co)" by (rule to_outcome_valid)
  moreover have "outcome_of ?co = exit_cpp_outcome errno"
    by (simp add: outcome_of_def c_of_def exit_outcome_def c_prob_def c_errors_def exit_cpp_outcome_def c_weight_def
        c_eligible_def AlwaysEligible_def EligibleIfFDNotStdInOutErr_def c_accepts_def fun_eq_iff)
  moreover have "to_int (gs_Syscall (exit_outcome SYS_EXIT_GROUP errno)) = 231"
    by (simp add: exit_outcome_def SYS_EXIT_GROUP_def to_int_def)
  ultimately show ?thesis
    by (simp add: to_plan_def c_plan_of_def plan_head_def go_c_plan_def exit_plan_def go_entry_def add_outcome_def
        exit_cpp_plan_def tdisc_strategy_def ThreadDiscoveryPoll_def tab_insert_def c_accepts_def fun_eq_iff)
qed

lemma exit_call_fails:
  assumes "w_global w" "armed w tid" "rt_ok rt" "rnd 1 = Fin 1" "w_plan w = ActivePlan rnd (exit_cpp_plan errno)"
  shows "\<exists>eng' tr'. make_call rt env mem tid (exit_regs regs status) w eng tr =
      (Inr (with_error (exit_regs regs status) (to_int errno), w), eng', tr') \<and> sys_calls tr' = sys_calls tr"
proof -
  let ?ctx = "exit_regs regs status" and ?ou = "ActiveOutcome rnd (exit_cpp_outcome errno)"
  have rax: "?ctx REG_RAX = 231" by (simp add: exit_regs_def SYS_EXIT_GROUP_def)
  have find: "tab_find (ap_outcomes (w_plan w)) (to_int (?ctx REG_RAX)) = Some ?ou"
    unfolding assms(5) find_ActivePlan by (simp add: rax to_int_def exit_cpp_plan_def tab_find_def)
  have errs: "ao_errors ?ou = [(Fin 1, to_int errno)]"
    using assms(4) by (simp add: ActiveOutcome_def exit_cpp_outcome_def)
  have "eligible ?ou ?ctx" "pr_p (ao_fail ?ou) = Fin 1" "pr_after_bias (ao_fail ?ou) = Fin 0" "0 \<le> delay_bound ?ou"
    by (simp_all add: eligible_def ActiveOutcome_def exit_cpp_outcome_def delay_bound_def to_int_def)
  moreover have "covers_unit (ao_errors ?ou)" by (simp add: errs covers_unit_def)
  ultimately obtain eng' tr' where f: "fail_maybe rt (w_plan w) ?ctx eng tr = (Inr (with_error ?ctx (to_int errno)), eng', tr')"
      "sys_calls tr' = sys_calls tr"
    using fail_maybe_fails [where plan = "w_plan w" and ctx = ?ctx, OF assms(3) find, of eng tr] errs by auto
  with assms(1,2) show ?thesis by (simp add: make_call_def handle_injects rax sys_numbers)
qed

text \<open>The session the program makes: the process of the plan, behind a handle that can be stopped.\<close>

lemma exit_session_made:
  assumes "alloc_ok al 1 [exit_outcome SYS_EXIT_GROUP errno]"
    and "Session rnd env os (exit_cpp_plan errno) (cm_proc m) = Inr pr" "sess_ok alive pr" "responsive alive env"
  obtains s m1 m2 where "mkSysfailSession al rnd env os False SYS_EXIT_GROUP errno m = Some (Inr (Some s, m1))"
    "cm_proc m1 = pr" "stop_deferred env (Some s) (m1\<lparr>cm_proc := pr\<rparr>) = Inr m2" "idle alive (cm_proc m2)"
proof -
  let ?g = "exit_outcome SYS_EXIT_GROUP errno" and ?plan = "exit_plan errno"
  have gs: "gpl_SyscallOutcomes ?plan = map Some [?g]" by (simp add: exit_plan_def)
  have "go_valid (gs_Outcome ?g)" by (simp add: go_valid_def exit_outcome_def AlwaysEligible_def CustomPredicate_def)
  with assms(1) obtain h p where start: "StartSession al (\<lambda>_. None) rnd env os ?plan m =
      Some (rbind (sysfail_start rnd env os (Some (c_plan_of (\<lambda>_. None) ?plan [?g])) (cm_proc m)) (\<lambda>(s, pr).
        Inr (Inr (\<lparr>gss_session = al_handle al, gss_plan = go_c_plan ?plan p\<rparr>,
          m\<lparr>cm_nodes := h, cm_proc := pr, cm_sessions := insert (al_session al) (cm_sessions m),
            cm_handles := (cm_handles m)(al_handle al \<mapsto> al_session al)\<rparr>))))"
    using go_start_eq [OF gs, of al "\<lambda>_. None" rnd env os m] by auto
  define m1 where "m1 = m\<lparr>cm_nodes := h, cm_proc := pr, cm_sessions := insert (al_session al) (cm_sessions m),
    cm_handles := (cm_handles m)(al_handle al \<mapsto> al_session al)\<rparr>"
  define s where "s = \<lparr>gss_session = al_handle al, gss_plan = go_c_plan ?plan p\<rparr>"
  have made: "mkSysfailSession al rnd env os False SYS_EXIT_GROUP errno m = Some (Inr (Some s, m1))"
    using start assms(2) by (simp add: mkSysfailSession_def NewPlan_def exit_plan_def [symmetric] sysfail_start_def
        exit_plan_translated m1_def s_def)
  have pr: "cm_proc m1 = pr" "m1\<lparr>cm_proc := pr\<rparr> = m1" by (simp add: m1_def, rule c_mem.equality) (simp_all add: m1_def)
  have s: "live_handle m1 (gss_session s)" "gss_session s \<noteq> 0" "cm_handles m1 (gss_session s) = Some (al_session al)"
    using assms(1) by (simp_all add: live_handle_def m1_def s_def alloc_ok_def)
  then obtain m2 where m2: "c_stop env (gss_session s) m1 = Inr m2"
    using hdl.stop_live [of alive m1 env] assms(3,4) pr(1) by auto
  then have "Session_destroy env pr = Inr (cm_proc m2)" using c_stop_frame [OF m2 s(3)] pr(1) by simp
  then have "idle alive (cm_proc m2)" using destroy_idle [OF assms(3,4)] by simp
  moreover have "stop_deferred env (Some s) (m1\<lparr>cm_proc := pr\<rparr>) = Inr m2"
    unfolding pr(2) using m2 s(2) by (simp add: stop_deferred_def Stop_def if_session_def)
  ultimately show ?thesis using made pr(1) by (intro that)
qed

section \<open>Properties\<close>

text \<open>
  C31. The Go example does what its comments say: with a session the call of \<open>exit_group\<close> never
  reaches the kernel and returns the error of the plan, through the plan in C memory, the session,
  the handler and the register, so that the exit code is 0 for \<open>ESRCH\<close> and 100 for another error,
  and at the end there is no session; without one the call reaches the kernel with status 123.
\<close>

theorem go_example_runs:
  assumes "idle alive (cm_proc m)" "responsive alive env" "can_start os text"
    and "first_found (exit_cpp_plan errno) os tids" "tid \<in> set tids" "tid \<noteq> os_self os" "alive tid"
    and "rt_ok rt" "rnd 1 = Fin 1" "alloc_ok al 1 [exit_outcome SYS_EXIT_GROUP errno]"
    and "0 < unat errno" "unat errno < 4095" "rt_krn rt tr (request_of (exit_regs regs 123)) = None"
  shows "(\<exists>m' eng' tr'. go_main al rnd rt env os False (Some errno) mem tid regs m eng tr =
      Some (Inr (if errno = Errno_ESRCH then 0 else 100, m'), eng', tr') \<and> sys_calls tr' = sys_calls tr \<and> idle alive (cm_proc m')) \<and>
    go_main al rnd rt env os True override mem tid regs m eng tr =
      Some (Inl No_return, eng, tr @ [Sys (request_of (exit_regs regs 123))])"
proof -
  from start_ok [OF assms(1-4), of rnd] obtain pr where
    pr: "Session rnd env os (exit_cpp_plan errno) (cm_proc m) = Inr pr" "sess_ok alive pr" "thds_on alive (p_world pr)"
      "tracked (p_world pr) = first_tracked (exit_cpp_plan errno) os tids" "w_plan (p_world pr) = ActivePlan rnd (exit_cpp_plan errno)"
    by blast
  obtain s m1 m2 where s: "mkSysfailSession al rnd env os False SYS_EXIT_GROUP errno m = Some (Inr (Some s, m1))"
      "cm_proc m1 = pr" "stop_deferred env (Some s) (m1\<lparr>cm_proc := pr\<rparr>) = Inr m2" "idle alive (cm_proc m2)"
    by (rule exit_session_made [OF assms(10) pr(1,2) assms(2)])
  have w: "world_ok alive (p_world pr)" using pr(2) by (simp add: sess_ok_def)
  have "tid \<in> first_tracked (exit_cpp_plan errno) os tids" using assms(5,6) by (simp add: first_tracked_def exit_cpp_plan_def)
  then have "armed (p_world pr) tid" using armed_iff [OF w pr(3) assms(7)] pr(4) by simp
  moreover have "w_global (p_world pr)" using w by (simp add: world_ok_def)
  ultimately obtain eng' tr' where call: "make_call rt env mem tid (exit_regs regs 123) (p_world pr) eng tr =
      (Inr (with_error (exit_regs regs 123) (to_int errno), p_world pr), eng', tr')" "sys_calls tr' = sys_calls tr"
    using exit_call_fails [OF _ _ assms(8,9) pr(5)] by blast
  have "\<exists>m' eng' tr'. go_main al rnd rt env os False (Some errno) mem tid regs m eng tr =
      Some (Inr (if errno = Errno_ESRCH then 0 else 100, m'), eng', tr') \<and> sys_calls tr' = sys_calls tr \<and> idle alive (cm_proc m')"
    using call s errno_back [OF assms(11,12)]
    by (intro exI [of _ m2] exI [of _ eng'] exI [of _ tr'])
      (simp add: go_main_def enableSysfailAndExit_def Let_def with_error_def)
  moreover have "\<not> armed (p_world (cm_proc m)) tid" using assms(1,7) by (simp add: idle_def armed_def)
  then have "go_main al rnd rt env os True override mem tid regs m eng tr =
      Some (Inl No_return, eng, tr @ [Sys (request_of (exit_regs regs 123))])"
    using assms(13) by (simp add: go_main_def enableSysfailAndExit_def mkSysfailSession_def make_call_def exec_syscall_def Let_def)
  ultimately show ?thesis by blast
qed

theorem go_example_runs_witness:
  "\<exists>m' eng' tr'. go_main demo_alloc Fin ((demo_rt (1/2))\<lparr>rt_krn := \<lambda>_ _. None\<rparr>) demo_env demo_os False (Some 3) (\<lambda>_. 0) 1 demo_regs
     (demo_c_mem 0) None [] = Some (Inr (0, m'), eng', tr') \<and> sys_calls tr' = [] \<and> idle (\<lambda>_. True) (cm_proc m')"
proof -
  let ?rt = "(demo_rt (1/2))\<lparr>rt_krn := \<lambda>_ _. None\<rparr>"
  have i: "idle (\<lambda>_. True) (cm_proc (demo_c_mem 0))" by (simp add: demo_c_mem_def)
  have al: "alloc_ok demo_alloc 1 [exit_outcome SYS_EXIT_GROUP 3]" by (rule demo_alloc_ok) simp
  have rt: "rt_ok ?rt" using demo_rt_ok [of "1/2"] by (simp add: rt_ok_def)
  from go_example_runs [OF i demo_env_ok demo_can_start demo_found_any, of 1 ?rt Fin demo_alloc 3 "[]" demo_regs "\<lambda>_. 0" None] al rt
  show ?thesis by (simp add: demo_os_def Errno_ESRCH_def)
qed

end
