(* ===== verification/Cisq.thy ===== *)
theory Cisq
  imports Prelude "HOL-Library.Sublist"
begin

text \<open>
  The helper \<open>test/cisq.cc\<close> with which the tests make system calls that are sure to be the ones
  they name: a temporary file that is written and read, a pipe, the flag for non-blocking reads and
  the clock. What lies behind a system call (the kernel, and sysfail in front of it when a session
  runs) is a parameter: it maps its state and a request to the value the instruction returns, the
  bytes it stores for the program, and the next state. The C library turns a negative value into
  \<open>errno\<close>. Shown are the error every operation reports on each of its branches, what a write
  followed by a read returns, and what the guard for non-blocking reads leaves behind.
\<close>

section \<open>System calls through the C library\<close>

datatype req =
    Openat string int
  | Read_fd int nat
  | Write_fd int string
  | Close_fd int
  | Getfl int
  | Setfl int int
  | Setpipe_sz int int
  | Pipe2 int
  | Mkstemp string
  | Unlink string
  | Adjtimex

text \<open>The bytes stored for the program are its buffer, the two descriptors, the path or the clock.\<close>

datatype out = Bytes string | Fds int int | Path string | Timex int int int | Nothing

type_synonym 's kernel = "'s \<Rightarrow> req \<Rightarrow> int \<times> out \<times> 's"

record 's lib =
  behind :: 's
  errno :: int

text \<open>
  The convention of \<open>syscall\<close> and of the wrappers \<open>fcntl\<close>, \<open>pipe2\<close>, \<open>unlink\<close>: values from -4095 to -1 are
  errors, a call that succeeds leaves \<open>errno\<close> alone.
\<close>

definition libc :: "'s kernel \<Rightarrow> req \<Rightarrow> 's lib \<Rightarrow> int \<times> out \<times> 's lib" where
  "libc k q l =
     (case k (behind l) q of
        (r, x, s) \<Rightarrow>
          if - 4096 < r \<and> r < 0 then (- 1, x, \<lparr>behind = s, errno = - r\<rparr>)
          else (r, x, l\<lparr>behind := s\<rparr>))"

definition O_RDONLY :: int where "O_RDONLY = 0"
definition O_WRONLY :: int where "O_WRONLY = 1"
definition O_TRUNC :: int where "O_TRUNC = 512"
definition O_NONBLOCK :: int where "O_NONBLOCK = 2048"
definition O_DIRECT :: int where "O_DIRECT = 16384"
definition STA_NANO :: int where "STA_NANO = 8192"

text \<open>\<open>Cisq::Err\<close>: the message and the error number.\<close>

record cisq_err =
  what :: string
  op_errno :: int

definition Err :: "string \<Rightarrow> int \<Rightarrow> cisq_err" where
  "Err msg e = \<lparr>what = msg, op_errno = e\<rparr>"

text \<open>The message of \<open>Cisq::err_msg\<close>; \<open>strerror\<close> belongs to the C library.\<close>

definition err_msg :: "(int \<Rightarrow> string) \<Rightarrow> string \<Rightarrow> int \<Rightarrow> string" where
  "err_msg strerror msg e = msg @ '', '' @ strerror e"

section \<open>Temporary files\<close>

text \<open>A descriptor is narrowed from \<open>long\<close> to \<open>int\<close>.\<close>

definition open_file ::
    "'s kernel \<Rightarrow> string \<Rightarrow> int \<Rightarrow> 's lib \<Rightarrow> (cisq_err + int) \<times> 's lib" where
  "open_file k path flags l =
     (case libc k (Openat path flags) l of
        (fd, x, l) \<Rightarrow>
          if fd < 0 then (Inl (Err ''Failed to open file'' (errno l)), l)
          else (Inr (sint (word_of_int fd :: i32)), l))"

definition makeTempFile :: "'s kernel \<Rightarrow> 's lib \<Rightarrow> string result \<times> 's lib" where
  "makeTempFile k l =
     (case libc k (Mkstemp ''/tmp/sysfail-XXXXXX'') l of
        (fd, x, l) \<Rightarrow>
          if fd = - 1 then (Inl (Throw (Runtime_error ''Failed to create temp file'')), l)
          else (case libc k (Close_fd fd) l of
                  (r, y, l) \<Rightarrow> (case x of Path p \<Rightarrow> (Inr p, l)
                                 | _ \<Rightarrow> (Inr ''/tmp/sysfail-XXXXXX'', l))))"

definition TmpFile_destroy :: "'s kernel \<Rightarrow> string \<Rightarrow> 's lib \<Rightarrow> 's lib" where
  "TmpFile_destroy k path l = snd (snd (libc k (Unlink path) l))"

text \<open>
  One \<open>read\<close> of at most 1024 bytes. The error of the read is kept over the call of \<open>close\<close>.
  \<open>filled\<close> is the part of the buffer that \<open>append\<close> takes.
\<close>

definition filled :: "out \<Rightarrow> int \<Rightarrow> string" where
  "filled x bytes = (case x of Bytes b \<Rightarrow> take (nat bytes) b | _ \<Rightarrow> [])"

definition TmpFile_read :: "'s kernel \<Rightarrow> string \<Rightarrow> 's lib \<Rightarrow> (cisq_err + string) \<times> 's lib" where
  "TmpFile_read k path l =
     (case open_file k path O_RDONLY l of
        (Inl e, l) \<Rightarrow> (Inl e, l)
      | (Inr fd, l) \<Rightarrow>
          (case libc k (Read_fd fd 1024) l of
             (bytes, x, l) \<Rightarrow>
               let read_err = errno l
               in case libc k (Close_fd fd) l of
                    (r, y, l) \<Rightarrow>
                      if bytes < 0 then (Inl (Err ''Failed to read file'' read_err), l)
                      else (Inr (filled x bytes), l)))"

text \<open>
  One \<open>write\<close>. The variable \<open>write_err\<close> is set and never used: the error reported is \<open>errno\<close> as
  \<open>close\<close> left it.
\<close>

definition TmpFile_write :: "'s kernel \<Rightarrow> string \<Rightarrow> string \<Rightarrow> 's lib \<Rightarrow> cisq_err option \<times> 's lib" where
  "TmpFile_write k path content l =
     (case open_file k path (or O_WRONLY O_TRUNC) l of
        (Inl e, l) \<Rightarrow> (Some e, l)
      | (Inr fd, l) \<Rightarrow>
          (case libc k (Write_fd fd content) l of
             (bytes, x, l) \<Rightarrow>
               (case libc k (Close_fd fd) l of
                  (r, y, l) \<Rightarrow>
                    if bytes < 0 then (Some (Err ''Failed to write file'' (errno l)), l)
                    else (None, l))))"

section \<open>Pipes\<close>

text \<open>\<open>Pipe<T>\<close>: an element is its bytes. What a short read leaves of the element \<open>t\<close> is not initialised.\<close>

record pipe =
  rd_fd :: int
  wr_fd :: int

definition Pipe :: "'s kernel \<Rightarrow> 's lib \<Rightarrow> (cisq_err + pipe) \<times> 's lib" where
  "Pipe k l =
     (case libc k (Pipe2 O_DIRECT) l of
        (ret, x, l) \<Rightarrow>
          if ret < 0 then (Inl (Err ''Failed to create pipe'' (errno l)), l)
          else let p = (case x of Fds a b \<Rightarrow> \<lparr>rd_fd = a, wr_fd = b\<rparr> | _ \<Rightarrow> \<lparr>rd_fd = 0, wr_fd = 0\<rparr>)
               in case libc k (Setpipe_sz (wr_fd p) (1 * 1024 * 1024)) l of
                    (ret, y, l) \<Rightarrow>
                      if ret < 0 then (Inl (Err ''Failed to set pipe size'' (errno l)), l)
                      else (Inr p, l))"

definition Pipe_destroy :: "'s kernel \<Rightarrow> pipe \<Rightarrow> 's lib \<Rightarrow> 's lib" where
  "Pipe_destroy k p l =
     (case libc k (Close_fd (rd_fd p)) l of
        (r, x, l) \<Rightarrow> snd (snd (libc k (Close_fd (wr_fd p)) l)))"

definition Pipe_read :: "'s kernel \<Rightarrow> nat \<Rightarrow> pipe \<Rightarrow> 's lib \<Rightarrow> (cisq_err + string) \<times> 's lib" where
  "Pipe_read k sz p l =
     (case libc k (Read_fd (rd_fd p) sz) l of
        (bytes, x, l) \<Rightarrow>
          if bytes < 0 then (Inl (Err ''Failed to read pipe'' (errno l)), l)
          else (Inr (filled x bytes), l))"

definition Pipe_write :: "'s kernel \<Rightarrow> string \<Rightarrow> pipe \<Rightarrow> 's lib \<Rightarrow> (cisq_err + int) \<times> 's lib" where
  "Pipe_write k t p l =
     (case libc k (Write_fd (wr_fd p) t) l of
        (bytes, x, l) \<Rightarrow>
          if bytes < 0 then (Inl (Err ''Failed to write file'' (errno l)), l)
          else (Inr (sint (word_of_int bytes :: i32)), l))"

section \<open>Non-blocking reads and the clock\<close>

definition change_flag ::
    "'s kernel \<Rightarrow> int \<Rightarrow> (int \<Rightarrow> int) \<Rightarrow> 's lib \<Rightarrow> cisq_err option \<times> 's lib" where
  "change_flag k fd f l =
     (case libc k (Getfl fd) l of
        (flags, x, l) \<Rightarrow>
          if flags = - 1 then (Some (Err ''fcntl F_GETFL'' (errno l)), l)
          else (case libc k (Setfl fd (f flags)) l of
                  (r, y, l) \<Rightarrow>
                    if r = - 1 then (Some (Err ''fcntl F_SETFL'' (errno l)), l) else (None, l)))"

text \<open>The constructor throws the error, the destructor ends the process (after a line to the log).\<close>

definition AsyncRead :: "'s kernel \<Rightarrow> int \<Rightarrow> 's lib \<Rightarrow> (cisq_err + int) \<times> 's lib" where
  "AsyncRead k fd l =
     (case change_flag k fd (\<lambda>flags. or flags O_NONBLOCK) l of
        (Some e, l) \<Rightarrow> (Inl e, l)
      | (None, l) \<Rightarrow> (Inr fd, l))"

definition AsyncRead_destroy :: "'s kernel \<Rightarrow> int \<Rightarrow> 's lib \<Rightarrow> 's lib result" where
  "AsyncRead_destroy k fd l =
     (case change_flag k fd (\<lambda>flags. and flags (not O_NONBLOCK)) l of
        (Some e, l) \<Rightarrow> Inl Abort
      | (None, l) \<Rightarrow> Inr l)"

text \<open>The time point in nanoseconds.\<close>

definition tm_adjtimex :: "'s kernel \<Rightarrow> 's lib \<Rightarrow> (cisq_err + int) \<times> 's lib" where
  "tm_adjtimex k l =
     (case libc k Adjtimex l of
        (ret, x, l) \<Rightarrow>
          if ret = - 1 then (Inl (Err ''adjtimex failed'' (errno l)), l)
          else (case x of
                  Timex sec usec status \<Rightarrow>
                    (Inr (sec * 1000000000 +
                          (if and status STA_NANO \<noteq> 0 then usec else usec * 1000)), l)
                | _ \<Rightarrow> (Inr 0, l)))"

section \<open>What is assumed of the files behind the calls\<close>

text \<open>
  The parameters \<open>c\<close> (the content of a path) and \<open>pos\<close> (the path and the offset of a descriptor)
  describe the state behind the calls. The laws are those of the manual pages of \<open>open\<close>,
  \<open>write\<close>, \<open>read\<close> and \<open>close\<close>: opening with \<open>O_TRUNC\<close> empties the file and starts at offset 0, a write
  stores as many bytes as it answers, a read stores as many as it answers, and both may do less
  than asked. \<open>full_io\<close> is the case that they never do.
\<close>

definition opens :: "('s \<Rightarrow> string \<Rightarrow> string) \<Rightarrow> ('s \<Rightarrow> int \<Rightarrow> (string \<times> nat) option) \<Rightarrow> 's kernel \<Rightarrow> bool" where
  "opens c pos k \<longleftrightarrow>
     (\<forall>s p flags fd x s'. k s (Openat p flags) = (fd, x, s') \<longrightarrow> 0 \<le> fd \<longrightarrow>
        fd < 2 ^ 31 \<and> pos s' fd = Some (p, 0) \<and>
        c s' p = (if and flags O_TRUNC = 0 then c s p else []))"

definition writes :: "('s \<Rightarrow> string \<Rightarrow> string) \<Rightarrow> ('s \<Rightarrow> int \<Rightarrow> (string \<times> nat) option) \<Rightarrow> 's kernel \<Rightarrow> bool" where
  "writes c pos k \<longleftrightarrow>
     (\<forall>s fd b n x s' p. k s (Write_fd fd b) = (n, x, s') \<longrightarrow> 0 \<le> n \<longrightarrow> pos s fd = Some (p, 0) \<longrightarrow>
        n \<le> int (length b) \<and> c s' p = take (nat n) b @ drop (nat n) (c s p))"

definition reads :: "('s \<Rightarrow> string \<Rightarrow> string) \<Rightarrow> ('s \<Rightarrow> int \<Rightarrow> (string \<times> nat) option) \<Rightarrow> 's kernel \<Rightarrow> bool" where
  "reads c pos k \<longleftrightarrow>
     (\<forall>s fd m n x s' p. k s (Read_fd fd m) = (n, x, s') \<longrightarrow> 0 \<le> n \<longrightarrow> pos s fd = Some (p, 0) \<longrightarrow>
        n \<le> int m \<and> x = Bytes (take (nat n) (c s p)) \<and> c s' p = c s p)"

definition closes :: "('s \<Rightarrow> string \<Rightarrow> string) \<Rightarrow> 's kernel \<Rightarrow> bool" where
  "closes c k \<longleftrightarrow> (\<forall>s fd n x s' p. k s (Close_fd fd) = (n, x, s') \<longrightarrow> c s' p = c s p)"

definition full_io :: "('s \<Rightarrow> string \<Rightarrow> string) \<Rightarrow> ('s \<Rightarrow> int \<Rightarrow> (string \<times> nat) option) \<Rightarrow> 's kernel \<Rightarrow> bool" where
  "full_io c pos k \<longleftrightarrow>
     (\<forall>s fd b n x s'. k s (Write_fd fd b) = (n, x, s') \<longrightarrow> 0 \<le> n \<longrightarrow> n = int (length b)) \<and>
     (\<forall>s fd m n x s' p. k s (Read_fd fd m) = (n, x, s') \<longrightarrow> 0 \<le> n \<longrightarrow> pos s fd = Some (p, 0) \<longrightarrow>
        n = int (min m (length (c s p))))"

section \<open>Lemmas\<close>

lemma libc_ok: "k (behind l) q = (r, x, s) \<Longrightarrow> 0 \<le> r \<Longrightarrow> libc k q l = (r, x, l\<lparr>behind := s\<rparr>)"
  by (simp add: libc_def)

lemma libc_err:
  "k (behind l) q = (r, x, s) \<Longrightarrow> - 4096 < r \<Longrightarrow> r < 0 \<Longrightarrow>
     libc k q l = (- 1, x, \<lparr>behind = s, errno = - r\<rparr>)"
  by (simp add: libc_def)

lemma libc_behind:
  assumes "libc k q l = (r, x, l')"
  obtains r' where "k (behind l) q = (r', x, behind l')" "0 \<le> r \<Longrightarrow> r' = r"
  using assms by (auto simp: libc_def split: prod.splits if_splits)

lemma narrow_fd: "0 \<le> fd \<Longrightarrow> fd < 2 ^ 31 \<Longrightarrow> sint (word_of_int fd :: i32) = fd"
  by (simp add: signed_of_int signed_take_bit_int_eq_self)

lemma open_flags: "and (or O_WRONLY O_TRUNC) O_TRUNC \<noteq> 0" "and O_RDONLY O_TRUNC = 0"
  by (simp_all add: O_WRONLY_def O_TRUNC_def O_RDONLY_def)

lemma open_file_ok:
  assumes "open_file k p flags l = (Inr fd, l')" "opens c pos k"
  shows "pos (behind l') fd = Some (p, 0)"
    and "c (behind l') p = (if and flags O_TRUNC = 0 then c (behind l) p else [])"
proof -
  obtain n x where n: "libc k (Openat p flags) l = (n, x, l')" "0 \<le> n" "fd = sint (word_of_int n :: i32)"
    using assms(1) by (auto simp: open_file_def split: prod.splits if_splits)
  from n(1,2) have "k (behind l) (Openat p flags) = (n, x, behind l')"
    by (elim libc_behind) simp
  then have "n < 2 ^ 31 \<and> pos (behind l') n = Some (p, 0) \<and>
      c (behind l') p = (if and flags O_TRUNC = 0 then c (behind l) p else [])"
    using assms(2) n(2) unfolding opens_def by blast
  then show "pos (behind l') fd = Some (p, 0)"
    and "c (behind l') p = (if and flags O_TRUNC = 0 then c (behind l) p else [])"
    using n(2,3) by (simp_all add: narrow_fd)
qed

lemma close_keeps:
  "libc k (Close_fd fd) l = (r, x, l') \<Longrightarrow> closes c k \<Longrightarrow> c (behind l') p = c (behind l) p"
  unfolding closes_def by (elim libc_behind) blast

text \<open>A write that reports no error has stored a prefix of the content, and nothing else.\<close>

lemma write_stores:
  assumes "TmpFile_write k p b l = (None, l')" "opens c pos k" "writes c pos k" "closes c k"
  obtains n where "n \<le> length b" "c (behind l') p = take n b" "full_io c pos k \<Longrightarrow> n = length b"
proof -
  obtain fd l1 n x l2 r y where o: "open_file k p (or O_WRONLY O_TRUNC) l = (Inr fd, l1)"
    and w: "libc k (Write_fd fd b) l1 = (n, x, l2)" "0 \<le> n" and r: "libc k (Close_fd fd) l2 = (r, y, l')"
    using assms(1) by (auto simp: TmpFile_write_def split: prod.splits sum.splits if_splits)
  have k: "k (behind l1) (Write_fd fd b) = (n, x, behind l2)"
    using w by (elim libc_behind) simp
  have "pos (behind l1) fd = Some (p, 0)" "c (behind l1) p = []"
    using open_file_ok [OF o assms(2)] open_flags by simp_all
  with k w(2) assms(3) have "n \<le> int (length b)" "c (behind l2) p = take (nat n) b"
    unfolding writes_def by fastforce+
  moreover have "full_io c pos k \<Longrightarrow> nat n = length b"
    using k w(2) unfolding full_io_def by fastforce
  ultimately show thesis
    using that [of "nat n"] close_keeps [OF r assms(4), of p] by simp
qed

text \<open>A read that reports no error returns a prefix of the content.\<close>

lemma read_returns:
  assumes "TmpFile_read k p l = (Inr t, l')" "opens c pos k" "reads c pos k"
  obtains n where "n \<le> 1024" "t = take n (c (behind l) p)"
    "full_io c pos k \<Longrightarrow> n = min 1024 (length (c (behind l) p))"
proof -
  obtain fd l1 n x l2 where o: "open_file k p O_RDONLY l = (Inr fd, l1)"
    and w: "libc k (Read_fd fd 1024) l1 = (n, x, l2)" "0 \<le> n" and t: "t = filled x n"
    using assms(1) by (auto simp: TmpFile_read_def Let_def split: prod.splits sum.splits if_splits)
  have k: "k (behind l1) (Read_fd fd 1024) = (n, x, behind l2)"
    using w by (elim libc_behind) simp
  have p: "pos (behind l1) fd = Some (p, 0)" "c (behind l1) p = c (behind l) p"
    using open_file_ok [OF o assms(2)] open_flags by simp_all
  with k w(2) assms(3) have "n \<le> 1024" "x = Bytes (take (nat n) (c (behind l) p))"
    unfolding reads_def by fastforce+
  moreover have "full_io c pos k \<Longrightarrow> n = int (min 1024 (length (c (behind l1) p)))"
    using k w(2) p(1) unfolding full_io_def by blast
  ultimately show thesis
    using that [of "nat n"] p(2) t by (simp add: filled_def)
qed

text \<open>The error of a read is reported whatever \<open>close\<close> answers.\<close>

lemma tmpfile_read_error:
  assumes "k (behind l) (Openat p O_RDONLY) = (fd, x, s1)" "0 \<le> fd" "fd < 2 ^ 31"
    and "k s1 (Read_fd fd 1024) = (n, y, s2)" "- 4096 < n" "n < 0"
  shows "fst (TmpFile_read k p l) = Inl (Err ''Failed to read file'' (- n))"
  using assms by (simp add: TmpFile_read_def open_file_def libc_ok libc_err narrow_fd split: prod.splits)

text \<open>
  The guard for non-blocking reads sets the flag while it lives; at its end the flag is cleared, also
  when the descriptor had it before.
\<close>

lemma async_read_flags:
  assumes "\<And>s. k s (Getfl fd) = (flg s, Nothing, s)" "\<And>s. 0 \<le> flg s"
    and "\<And>s f. k s (Setfl fd f) = (0, Nothing, upd f s)" "\<And>s f. 0 \<le> f \<Longrightarrow> flg (upd f s) = f"
  shows "\<exists>l1 l2. AsyncRead k fd l = (Inr fd, l1) \<and>
           flg (behind l1) = or (flg (behind l)) O_NONBLOCK \<and>
           AsyncRead_destroy k fd l1 = Inr l2 \<and>
           flg (behind l2) = and (flg (behind l)) (not O_NONBLOCK)"
proof -
  have ne: "flg s \<noteq> - 1" for s
    using assms(2) [of s] by linarith
  have "and (or f O_NONBLOCK) (not O_NONBLOCK) = and f (not O_NONBLOCK)" for f
    by (simp add: bit_eq_iff bit_simps) blast
  moreover have "0 \<le> or f O_NONBLOCK" "0 \<le> and f (not O_NONBLOCK)" if "0 \<le> f" for f
    using that by (simp_all add: O_NONBLOCK_def)
  moreover have "flg (upd (or (flg (behind l)) O_NONBLOCK) (behind l)) = or (flg (behind l)) O_NONBLOCK"
    by (intro assms(4) calculation assms(2))
  ultimately show ?thesis
    using ne by (simp add: AsyncRead_def AsyncRead_destroy_def change_flag_def libc_ok assms)
qed

section \<open>Round trip and reported errors\<close>

text \<open>
  When a write of a temporary file and the read after it both report success, the read returns a
  prefix of what was written, of at most 1024 bytes; if no call does less than asked it returns the
  first 1024 bytes.
\<close>

lemma tmpfile_roundtrip:
  assumes "opens c pos k" "writes c pos k" "reads c pos k" "closes c k"
    and "TmpFile_write k p b l = (None, l1)" "TmpFile_read k p l1 = (Inr t, l2)"
  shows "prefix t b \<and> length t \<le> 1024 \<and> (full_io c pos k \<longrightarrow> t = take 1024 b)"
proof -
  obtain n where n: "n \<le> length b" "c (behind l1) p = take n b" "full_io c pos k \<Longrightarrow> n = length b"
    using write_stores [OF assms(5,1,2,4)] by blast
  obtain m where m: "m \<le> 1024" "t = take m (c (behind l1) p)"
    "full_io c pos k \<Longrightarrow> m = min 1024 (length (c (behind l1) p))"
    using read_returns [OF assms(6,1,3)] by blast
  have "t = take (min m n) b"
    using n(2) m(2) by simp
  moreover have "take (min m n) b = take 1024 b" if "full_io c pos k"
    using n(2) n(3) [OF that] m(3) [OF that] by (simp add: min_def)
  ultimately show ?thesis
    using m(1) by (simp add: take_is_prefix)
qed

text \<open>
  C40. The whole result of a write once the file is open: no error exactly when the call of \<open>write\<close>
  succeeded (also when it wrote less), otherwise an error that carries the number of \<open>write\<close> if
  \<open>close\<close> succeeded and the number of \<open>close\<close> if that failed as well.
\<close>

theorem tmpfile_write_error:
  assumes "k (behind l) (Openat p (or O_WRONLY O_TRUNC)) = (fd, x, s1)" "0 \<le> fd" "fd < 2 ^ 31"
    and "k s1 (Write_fd fd b) = (n, y, s2)" "- 4096 < n"
    and "k s2 (Close_fd fd) = (r, z, s3)"
  shows "fst (TmpFile_write k p b l) =
           (if 0 \<le> n then None
            else Some (Err ''Failed to write file'' (if - 4096 < r \<and> r < 0 then - r else - n)))"
  using assms
  by (cases "0 \<le> n") (simp_all add: TmpFile_write_def open_file_def libc_ok libc_err narrow_fd
    libc_def [of k "Close_fd fd"] split: prod.splits)

section \<open>A file to apply them to\<close>

text \<open>One file of the name \<open>f\<close>: the state is its content.\<close>

fun one_file :: "string kernel" where
  "one_file s (Openat p flags) =
     (if p = ''f'' then (3, Nothing, if and flags O_TRUNC = 0 then s else []) else (- 2, Nothing, s))"
| "one_file s (Write_fd fd b) = (int (length b), Nothing, b @ drop (length b) s)"
| "one_file s (Read_fd fd m) = (int (min m (length s)), Bytes (take m s), s)"
| "one_file s (Close_fd fd) = (0, Nothing, s)"
| "one_file s q = (- 38, Nothing, s)"

text \<open>The same file when a session fails every write and every close.\<close>

definition failing_file :: "int \<Rightarrow> int \<Rightarrow> string kernel" where
  "failing_file e1 e2 s q =
     (case q of Write_fd fd b \<Rightarrow> (- e1, Nothing, s) | Close_fd fd \<Rightarrow> (- e2, Nothing, s) | _ \<Rightarrow> one_file s q)"

lemma one_file_laws:
  "opens (\<lambda>s p. s) (\<lambda>s fd. Some (''f'', 0)) one_file"
  "writes (\<lambda>s p. s) (\<lambda>s fd. Some (''f'', 0)) one_file"
  "reads (\<lambda>s p. s) (\<lambda>s fd. Some (''f'', 0)) one_file"
  "closes (\<lambda>s p. s) one_file" "full_io (\<lambda>s p. s) (\<lambda>s fd. Some (''f'', 0)) one_file"
  by (auto simp: opens_def writes_def reads_def closes_def full_io_def min_def split: if_splits)

lemma one_file_roundtrip:
  "\<exists>l1 l2. TmpFile_write one_file ''f'' ''abc'' \<lparr>behind = ''xxxxx'', errno = 0\<rparr> = (None, l1) \<and>
     TmpFile_read one_file ''f'' l1 = (Inr (take 1024 ''abc''), l2)"
proof -
  let ?w = "TmpFile_write one_file ''f'' ''abc'' \<lparr>behind = ''xxxxx'', errno = 0\<rparr>"
  have w: "?w = (None, \<lparr>behind = ''abc'', errno = 0\<rparr>)"
    by (simp add: TmpFile_write_def open_file_def libc_def open_flags)
  obtain t l2 where r: "TmpFile_read one_file ''f'' \<lparr>behind = ''abc'', errno = 0\<rparr> = (Inr t, l2)"
    by (simp add: TmpFile_read_def open_file_def libc_def open_flags Let_def)
  have "t = take 1024 ''abc''"
    using tmpfile_roundtrip [OF one_file_laws(1-4) w r] one_file_laws(5) by blast
  with w r show ?thesis by blast
qed

theorem tmpfile_write_error_witness:
  "fst (TmpFile_write (failing_file 28 5) ''f'' ''abc'' \<lparr>behind = [], errno = 0\<rparr>) =
     Some (Err ''Failed to write file'' 5)"
  by (subst tmpfile_write_error [of "failing_file 28 5" _ "''f''" 3 Nothing "[]" "''abc''" "- 28" Nothing
        "[]" "- 5" Nothing "[]"])
    (simp_all add: failing_file_def open_flags)

end
