(* ===== verification/Spec2Isabelle.thy ===== *)
theory Spec2Isabelle
  imports Error_Choice Controllers Poller Masked_Removal Reuse Teardown_Runs Lifetime Go_Example Cisq
begin

text \<open>
  A verification development for \<^bold>\<open>sysfail\<close>, the failure-injection library of this repository. The
  library intercepts the system calls of chosen threads by Linux's syscall user dispatch: the
  kernel delivers \<open>SIGSYS\<close> for a call made outside the library's own text while the thread's
  selector byte stands at \<open>BLOCK\<close>, and the handler delays the call, fails it or makes it, before
  or after an injected error, and resumes the thread.

  \<^bold>\<open>Parts and theories.\<close>
  \<^item> \<open>Prelude\<close>: results with errors as values (\<open>fault\<close>: a thrown exception, a failed assertion,
    undefined behaviour, an abort, a wait that never ends, a call that does not return), integer
    widths, folds that stop at an error. \<open>Containers\<close>: \<open>std::unordered_map\<close>,
    \<open>tbb::concurrent_hash_map\<close> and \<open>std::map\<close> with their contracts as locales. \<open>Doubles\<close>:
    \<open>double\<close> with not-a-number, infinities and rounding as a parameter. \<open>Istream\<close> and
    \<open>Regex\<close>: stream extraction and \<open>std::regex_match\<close> as far as the code uses them.
  \<^item> \<open>Registers\<close>, \<open>Syscall\<close>: \<open>src/syscall.cc\<close>, \<open>continue_syscall\<close> and \<open>src/log.cc\<close>. The
    kernel is a function from the trace of a thread and a request to an answer.
  \<^item> \<open>Inv_Pred\<close>, \<open>Plan\<close>, \<open>Active_Plan\<close>: \<open>src/inv_pred.cc\<close>, the plan of
    \<open>include/sysfail.hh\<close>, and \<open>ActiveOutcome\<close> and \<open>ActivePlan\<close> of \<open>src/session.cc\<close>;
    \<open>Error_Choice\<close>: the draw of an error when the sums of the weights are rounded.
  \<^item> \<open>Fail_Maybe\<close>: \<open>ActiveSession::fail_maybe\<close>, draw by draw.
  \<^item> \<open>Restore\<close>: the instructions of \<open>src/restore.S\<close> on registers and byte memory.
  \<^item> \<open>Mem_Map\<close>: \<open>src/map.cc\<close>, the memory map and the library's own text range.
  \<^item> \<open>Signals\<close>: \<open>src/signal.cc\<close> and \<open>unmask_sigsys\<close>.
  \<^item> \<open>Thd_Mon\<close>: \<open>src/thdmon.cc\<close> for any event handler; \<open>Thread_Ctl\<close>: the table of threads and
    the operations \<open>thd_enable\<close>, \<open>thd_disable\<close>, \<open>disarm\<close>, \<open>rearm\<close> and the handlers behind
    them; \<open>Discovery\<close>: the monitor with \<open>thd_track\<close> as its handler.
  \<^item> \<open>Handshake\<close>: the semaphore handshake of \<open>thd_enable\<close> and \<open>thd_disable\<close> as a step relation in
    which controller and target interleave; \<open>Controllers\<close>: any number of such operations at the same
    time, one at an entry of the table; \<open>Masked_Removal\<close>: \<open>thd_disable\<close> with the accessor it
    keeps, against a target that blocks its signals and whose handlers nest.
  \<^item> \<open>Poller\<close>: the constructor and destructor of \<open>ThdMon\<close>, the polling thread and the users that rescan,
    with the start-up semaphore, the mutex, the condition variable and the join, as step relations.
  \<^item> \<open>Sigsys\<close>: \<open>handle_sigsys\<close>, every branch. \<open>Session\<close>: the session object from its constructor
    to its destructor. \<open>Lifecycle\<close>: a session while threads end and start; \<open>Reuse\<close>: thread ids that
    the kernel gives out again.
  \<^item> \<open>CWrapper\<close>: \<open>src/cwrapper.cc\<close> and \<open>include/sysfail.h\<close>, with the outcomes of a plan as a list;
    \<open>C_Heap\<close>: the same on memory, with the outcomes as a chain of nodes and handles that are freed.
    \<open>Go_Wrapper\<close>: \<open>src/go/sysfail.go\<close>, which lays such a chain out; what \<open>malloc\<close> answers is a
    parameter.
  \<^item> \<open>Teardown\<close>: the destructor, the poller and the users of the API as three step relations over one
    state, with the session's shared mutex and the monitor's mutex; \<open>Teardown_Runs\<close>: what their
    interleavings lead to. \<open>Lifetime\<close>: the reference count of the session object, with the handlers
    that copy the global pointer and the destructor that resets it.
  \<^item> \<open>Example\<close>: \<open>examples/flaky_print.cc\<close>; \<open>Go_Example\<close>: \<open>src/go/examples/main.go\<close>;
    \<open>Cisq\<close>: the helper \<open>test/cisq.cc\<close> of the tests, over system calls that are a parameter.

  \<^bold>\<open>Interfaces.\<close> The locales \<open>kv_insert\<close> and \<open>kv_store\<close>
    are the contracts of the containers, \<open>strict_part\<close> and its extension
    \<open>strict_order\<close> those of the comparison of a \<open>std::map\<close>, without and with
    comparable keys; they are interpreted on the tables and the maps the code uses, the former on
    doubles with not-a-number. \<open>evt_handler\<close> is what the monitor needs of its handler; it
    is interpreted on \<open>thd_track\<close> in a session in order (\<open>trk\<close>), in one that
    is being destroyed (\<open>dying\<close>), in one with ids that are mistaken (\<open>loose\<close>,
    and \<open>strict\<close> with its dispatched threads in the table), and in one that replaces
    another (\<open>second\<close>), and the theorems on discovery are its consequences.
    \<open>step_inv\<close> and \<open>step_measure\<close> are invariants and measures of step
    relations, interpreted on the handshake, on the life of a session without and with reused ids
    (\<open>life\<close>, \<open>again\<close>) and on its destruction (\<open>tear\<close>,
    \<open>alone\<close>, \<open>past\<close>), on the count of its references (\<open>spi\<close>,
    \<open>zend\<close>), on a removal (\<open>masked\<close>), on several controllers
    (\<open>many\<close>) and on the poller (\<open>poll\<close>, and \<open>gens\<close> for its
    generation without the wrap). \<open>handles\<close> is what a holder of a handle relies on; it is
    interpreted on the C handles (\<open>hdl\<close>), and the Go interface rests on it.

  \<^bold>\<open>What is shown.\<close> For one intercepted call: it reaches the kernel at most once and
    with its own arguments, the delay keeps its bound, only \<open>rax\<close> changes, the calls the
    library makes for itself are listed, plans with certain outcomes have them, calls outside the plan
    are untouched, and the draw of an error follows the weights. For the return to the program: the
    registers and flags that \<open>sysfail_restore\<close> leaves. For threads: any sequence of
    operations has the effect of plain set operations, keeps table and kernel in agreement, and does not
    block in an environment that answers; the interleaved handshake has the same results, is safe, and
    with a target that takes its signal ends except in one situation; against nested handlers it can
    deadlock, in exactly one way; several controllers at once have the effect of their operations one
    after the other and do not wait for each other. For discovery: after any number of polls and rescans
    the session tracks what was last listed and selected; the constructor returns after the first scan,
    scans exclude each other, and neither start nor stop waits for the interval. For a session: start,
    any use and destruction leave nothing behind, also when threads end and start in between and ids are
    given out again. For its destruction among other threads: users of the API are kept out, without a
    poller every interleaving is a sequence of calls and then the destructor, with a poller what can be
    left over is what it added meanwhile, and no interleaving is a dead end; the session object outlives
    every reference to it, but not a handler that has read the pointer and not yet counted itself. For
    the C interface: plans mean what they say and are accepted exactly when their numbers are in range,
    the start on memory gives a running session on chains that end and does not return on others, and a
    handle from start to stop leaves nothing behind. For the Go interface: the chain it lays out is the
    plan, or the first outcome that cannot be laid out decides. For the two examples: they run as they
    say. For the test helper: which error a write reports, and what a read after it returns. Theorems
    that state a defect say so in their text (swallowed \<open>rt_sigprocmask\<close>, error weights
    below one and zero, long delays, the red zone, a second session, two handles, the poller and the
    handlers during the destruction, removal during a masked section, reused thread ids, the wrap of the
    generation and of the start-up semaphore with it, more weights in a Go plan than it says, the error
    of a write hidden by that of \<open>close\<close>).

  \<^bold>\<open>Assumptions and bounds.\<close> \<open>rt_ok\<close>: the random distributions draw
    within their documented ranges. \<open>rounds\<close>: sums of doubles are rounded monotonically.
    \<open>responsive\<close>: signals to living threads are handled, signals to others fail with
    \<open>ESRCH\<close>, \<open>prctl\<close> succeeds; theories \<open>Handshake\<close> and
    \<open>Masked_Removal\<close> show what happens otherwise. \<open>alloc_ok\<close>: a block from
    \<open>malloc\<close> has the size asked for and does not wrap. Discovery in step is stated for
    fewer than \<open>2 ^ 32\<close> scans, the width of the generation. No definition has fuel: loops
    recurse over listings, lines or turns that are given, and the loop over a chain in memory is a
    partial function, of which \<open>c_start_returns\<close> says when it returns.

  \<^bold>\<open>Not modelled.\<close> The interception of the calls that the handler itself makes
    through the C library (\<open>gettid\<close>, \<open>getpid\<close>, \<open>getuid\<close>,
    \<open>nanosleep\<close>) while the thread is armed; two rescans at once in a session without a
    poller, which change one \<open>std::unordered_map\<close> without a lock and so have no defined
    behaviour; what a handler does while it destroys the session because it held the last reference; the
    Go runtime around a system call; the text of error messages beyond their kind; the test cases and
    the build files.
\<close>

section \<open>Properties across components\<close>

text \<open>The plan's answer to a call that is to fail for certain, before it is made.\<close>

definition fails_before :: "rounding \<Rightarrow> plan \<Rightarrow> gregs \<Rightarrow> outcome \<Rightarrow> bool" where
  "fails_before rnd plan ctx ou =
     (tab_find (pl_outcomes plan) (to_int (ctx REG_RAX)) = Some ou \<and>
      eligible (ActiveOutcome rnd ou) ctx \<and> o_fail ou = \<lparr>pr_p = Fin 1, pr_after_bias = Fin 0\<rparr> \<and>
      covers_unit (ao_errors (ActiveOutcome rnd ou)) \<and> 0 \<le> delay_bound (ActiveOutcome rnd ou))"

text \<open>
  C1. From the plan to the program: after a session is started with a plan that always fails a call,
  a living thread that the plan selects has its calls intercepted; when it makes the call, the
  handler makes no system call and \<open>sysfail_restore\<close> resumes the thread behind its
  \<open>syscall\<close> instruction with the negated number of one of the plan's errors in \<open>rax\<close> and every
  other general register as it was.
\<close>

theorem injected_failure_reaches_program:
  assumes "idle alive pr" "responsive alive env" "can_start os text" "first_found plan os tids"
    and "tid \<in> first_tracked plan os tids" "alive tid" "rt_ok rt"
    and "fails_before rnd plan ctx ou" "ctx REG_RAX \<notin> {SYS_rt_sigprocmask, SYS_rt_sigreturn, SYS_exit}"
  shows "\<exists>pr' err eng' tr'. Session rnd env os plan pr = Inr pr' \<and> armed (p_world pr') tid \<and>
    err \<in> snd ` set (ao_errors (ActiveOutcome rnd ou)) \<and>
    handle_sigsys rt env mem tid ctx (p_world pr') eng tr = (Inr (with_error ctx err, p_world pr'), eng', tr') \<and>
    sys_calls tr' = sys_calls tr \<and>
    (\<forall>s. saved_at (mmem s) (mregs s REG_RDI) (with_error ctx err) \<and> array_apart (mregs s REG_RDI) (ctx REG_RSP) \<longrightarrow>
       mregs (exec_all sysfail_restore s) REG_RAX = to_long (- err) \<and>
       (\<forall>r. r \<le> REG_RIP \<and> r \<noteq> REG_RAX \<longrightarrow> mregs (exec_all sysfail_restore s) r = ctx r))"
proof -
  let ?ou = "ActiveOutcome rnd ou"
  from start_ok [OF assms(1-4), of rnd] obtain pr' where
    pr': "Session rnd env os plan pr = Inr pr'" "sess_ok alive pr'" "thds_on alive (p_world pr')"
      "tracked (p_world pr') = first_tracked plan os tids" "w_plan (p_world pr') = ActivePlan rnd plan"
    by blast
  then have w: "world_ok alive (p_world pr')" by (simp add: sess_ok_def)
  have armed: "armed (p_world pr') tid" using armed_iff [OF w pr'(3) assms(6)] pr'(4) assms(5) by simp
  from assms(8) have ou: "tab_find (ap_outcomes (ActivePlan rnd plan)) (to_int (ctx REG_RAX)) = Some ?ou"
      "eligible ?ou ctx" "pr_p (ao_fail ?ou) = Fin 1" "pr_after_bias (ao_fail ?ou) = Fin 0"
      "covers_unit (ao_errors ?ou)" "0 \<le> delay_bound ?ou"
    by (auto simp: fails_before_def find_ActivePlan) (simp_all add: ActiveOutcome_def)
  obtain err eng' tr' where err: "err \<in> snd ` set (ao_errors ?ou)" "sys_calls tr' = sys_calls tr"
      "fail_maybe rt (ActivePlan rnd plan) ctx eng tr = (Inr (with_error ctx err), eng', tr')"
    using fail_maybe_fails [OF assms(7) ou, of eng tr] by blast
  have "handle_sigsys rt env mem tid ctx (p_world pr') eng tr = (Inr (with_error ctx err, p_world pr'), eng', tr')"
    by (subst handle_injects) (use assms(9) w err(3) pr'(5) in \<open>simp_all add: world_ok_def\<close>)
  moreover have "mregs (exec_all sysfail_restore s) REG_RAX = to_long (- err) \<and>
      (\<forall>r. r \<le> REG_RIP \<and> r \<noteq> REG_RAX \<longrightarrow> mregs (exec_all sysfail_restore s) r = ctx r)"
    if "saved_at (mmem s) (mregs s REG_RDI) (with_error ctx err)" "array_apart (mregs s REG_RDI) (ctx REG_RSP)" for s
    using that by (auto simp: exec_restore [OF that(1) refl] with_error_def)
  ultimately show ?thesis using pr'(1) armed err(1,2) by blast
qed

theorem injected_failure_reaches_program_witness:
  "\<exists>pr' err eng' tr'. Session Fin demo_env demo_os demo_poll_plan demo_proc = Inr pr' \<and> armed (p_world pr') 1 \<and>
     err \<in> {4} \<and> sys_calls tr' = [] \<and>
     handle_sigsys (demo_rt (1/2)) demo_env (\<lambda>_. 0) 1 demo_regs (p_world pr') None [] =
       (Inr (with_error demo_regs err, p_world pr'), eng', tr')"
proof -
  have "fails_before Fin demo_poll_plan demo_regs (demo_outcome 1 1 0 1)"
    by (simp add: fails_before_def)
      (simp add: demo_poll_plan_def demo_plan_def demo_outcome_def demo_regs_def to_int_def tab_find_def)
  from injected_failure_reaches_program [OF demo_idle demo_env_ok demo_can_start demo_found(1), of 1 "demo_rt (1/2)", OF _ _ _ this,
      of "\<lambda>_. 0" None "[]"]
  show ?thesis by (auto simp: demo_regs_def sys_numbers)
qed

end
